(* ===== verification/Cix_Prelude.thy ===== *)
theory Cix_Prelude
  imports Main "HOL-Library.AList" "HOL-Library.Multiset" "HOL-Library.Code_Target_Nat"
begin

text \<open>
  Shared vocabulary of the development: the C string and comparator conventions the sources
  rely on, and the lemmas every component uses about them.

  A C string is a \<^typ>\<open>string\<close> without its terminator; reading the character at its
  length gives NUL (\<open>c_at\<close>). \<open>strcmp\<close>, \<open>strncmp\<close> and \<open>snprintf\<close> are modelled on
  that representation. Comparators are the functions handed to \<open>qsort\<close> and \<open>bsearch\<close>;
  the locale \<open>comparator\<close> states what the C standard requires of them, and the sorting and
  searching lemmas are proved once inside it.
\<close>

named_theorems comparator_intros \<open>rules that build comparators from comparators\<close>
named_theorems fs_simps \<open>rewrite rules for path lookups in the store's file system\<close>

type_synonym bytes = string

section \<open>C strings\<close>

abbreviation NUL :: char where
  "NUL \<equiv> CHR 0x00"

definition byte :: "char \<Rightarrow> nat" where
  "byte c = of_char c"

text \<open>Reading \<open>s[i]\<close>: the terminator is part of the array, nothing beyond it is read.\<close>

definition c_at :: "string \<Rightarrow> nat \<Rightarrow> char" where
  "c_at s i = (if i < length s then s ! i else NUL)"

text \<open>The string a C function sees in a buffer: everything before the first NUL.\<close>

definition c_str :: "bytes \<Rightarrow> string" where
  "c_str b = takeWhile (\<lambda>c. c \<noteq> NUL) b"

definition c_isdigit :: "char \<Rightarrow> bool" where
  "c_isdigit c \<longleftrightarrow> 48 \<le> byte c \<and> byte c \<le> 57"

text \<open>
  \<open>snprintf(out, size, ...)\<close> of a text of some length: what ends up in the buffer, and
  whether the return value is below the size.
\<close>

definition snprintf :: "nat \<Rightarrow> string \<Rightarrow> string" where
  "snprintf n s = take (n - 1) s"

definition snprintf_fits :: "nat \<Rightarrow> string \<Rightarrow> bool" where
  "snprintf_fits n s \<longleftrightarrow> length s < n"

definition ends_with :: "string \<Rightarrow> string \<Rightarrow> bool" where
  "ends_with s t \<longleftrightarrow> length t \<le> length s \<and> drop (length s - length t) s = t"

section \<open>Comparators\<close>

definition int_cmp :: "int \<Rightarrow> int \<Rightarrow> int" where
  "int_cmp a b = (if a < b then - 1 else if b < a then 1 else 0)"

fun lex_cmp :: "('a \<Rightarrow> 'a \<Rightarrow> int) \<Rightarrow> 'a list \<Rightarrow> 'a list \<Rightarrow> int" where
  "lex_cmp cmp [] [] = 0"
| "lex_cmp cmp [] (y # ys) = - 1"
| "lex_cmp cmp (x # xs) [] = 1"
| "lex_cmp cmp (x # xs) (y # ys) = (if cmp x y \<noteq> 0 then cmp x y else lex_cmp cmp xs ys)"

definition then_cmp :: "('a \<Rightarrow> 'a \<Rightarrow> int) \<Rightarrow> ('a \<Rightarrow> 'a \<Rightarrow> int) \<Rightarrow> 'a \<Rightarrow> 'a \<Rightarrow> int" where
  "then_cmp c1 c2 a b = (if c1 a b \<noteq> 0 then c1 a b else c2 a b)"

definition on_cmp :: "('a \<Rightarrow> 'b) \<Rightarrow> ('b \<Rightarrow> 'b \<Rightarrow> int) \<Rightarrow> 'a \<Rightarrow> 'a \<Rightarrow> int" where
  "on_cmp f c a b = c (f a) (f b)"

definition char_cmp :: "char \<Rightarrow> char \<Rightarrow> int" where
  "char_cmp c d = int_cmp (int (byte c)) (int (byte d))"

text \<open>
  \<open>strcmp\<close> compares bytes as \<open>unsigned char\<close>; only the sign of its result is specified,
  so the model returns the sign. \<open>strncmp\<close> looks at no more than \<open>n\<close> characters.
\<close>

definition c_strcmp :: "string \<Rightarrow> string \<Rightarrow> int" where
  "c_strcmp s t = lex_cmp char_cmp s t"

definition c_strncmp :: "string \<Rightarrow> string \<Rightarrow> nat \<Rightarrow> int" where
  "c_strncmp s t n = c_strcmp (take n s) (take n t)"

section \<open>qsort and bsearch\<close>

text \<open>
  \<open>qsort\<close> leaves the array sorted by the comparator and permuted; the order of elements that
  compare equal is unspecified. The model is insertion sort; \<open>qsort_unique\<close> below shows that
  the choice of algorithm is invisible whenever the comparator separates the elements.
\<close>

fun c_qinsert :: "('a \<Rightarrow> 'a \<Rightarrow> int) \<Rightarrow> 'a \<Rightarrow> 'a list \<Rightarrow> 'a list" where
  "c_qinsert cmp x [] = [x]"
| "c_qinsert cmp x (y # ys) = (if cmp x y \<le> 0 then x # y # ys else y # c_qinsert cmp x ys)"

fun c_qsort :: "('a \<Rightarrow> 'a \<Rightarrow> int) \<Rightarrow> 'a list \<Rightarrow> 'a list" where
  "c_qsort cmp [] = []"
| "c_qsort cmp (x # xs) = c_qinsert cmp x (c_qsort cmp xs)"

text \<open>\<open>bsearch\<close>: binary search between the indices \<open>l\<close> (inclusive) and \<open>u\<close> (exclusive).\<close>

function bsearch_loop :: "('k \<Rightarrow> 'a \<Rightarrow> int) \<Rightarrow> 'k \<Rightarrow> 'a list \<Rightarrow> nat \<Rightarrow> nat \<Rightarrow> nat option" where
  "bsearch_loop cmp k xs l u =
     (if l < u then
        (let i = (l + u) div 2; r = cmp k (xs ! i)
         in if r < 0 then bsearch_loop cmp k xs l i
            else if r > 0 then bsearch_loop cmp k xs (Suc i) u
            else Some i)
      else None)"
  by pat_completeness auto
termination
  by (relation "measure (\<lambda>(cmp, k, xs, l, u). u - l)") auto

declare bsearch_loop.simps [simp del]

definition c_bsearch :: "('k \<Rightarrow> 'a \<Rightarrow> int) \<Rightarrow> 'k \<Rightarrow> 'a list \<Rightarrow> nat option" where
  "c_bsearch cmp k xs = bsearch_loop cmp k xs 0 (length xs)"

section \<open>What the C standard asks of a comparator\<close>

locale comparator =
  fixes cmp :: "'a \<Rightarrow> 'a \<Rightarrow> int"
  assumes cmp_refl: "cmp a a = 0"
    and cmp_sym: "sgn (cmp b a) = - sgn (cmp a b)"
    and cmp_trans: "cmp a b \<le> 0 \<Longrightarrow> cmp b c \<le> 0 \<Longrightarrow> cmp a c \<le> 0"
begin

lemma cmp_le_iff: "cmp a b \<le> 0 \<longleftrightarrow> 0 \<le> cmp b a"
  using cmp_sym [of b a] by (auto simp: sgn_if split: if_splits)

lemma cmp_less_iff: "cmp a b < 0 \<longleftrightarrow> 0 < cmp b a"
  using cmp_sym [of b a] by (auto simp: sgn_if split: if_splits)

lemma cmp_eq_iff: "cmp a b = 0 \<longleftrightarrow> cmp b a = 0"
  using cmp_sym [of b a] by (auto simp: sgn_if split: if_splits)

lemma cmp_total: "cmp a b \<le> 0 \<or> cmp b a \<le> 0"
  using cmp_le_iff by fastforce

lemma cmp_eq_trans: "cmp a b = 0 \<Longrightarrow> cmp b c = 0 \<Longrightarrow> cmp a c = 0"
  using cmp_trans [of a b c] cmp_trans [of c b a] cmp_eq_iff [of a b] cmp_eq_iff [of b c]
    cmp_le_iff [of c a] by auto

lemma cmp_less_le_trans: "cmp a b < 0 \<Longrightarrow> cmp b c \<le> 0 \<Longrightarrow> cmp a c < 0"
proof -
  assume ab: "cmp a b < 0" and bc: "cmp b c \<le> 0"
  have "cmp a c \<le> 0" using cmp_trans [of a b c] ab bc by simp
  moreover have "cmp a c \<noteq> 0"
  proof
    assume "cmp a c = 0"
    then have "cmp c a \<le> 0" using cmp_eq_iff [of a c] by simp
    then have "cmp b a \<le> 0" using cmp_trans [OF bc] by simp
    then show False using ab cmp_less_iff [of a b] by simp
  qed
  ultimately show ?thesis by simp
qed

lemma cmp_le_less_trans: "cmp a b \<le> 0 \<Longrightarrow> cmp b c < 0 \<Longrightarrow> cmp a c < 0"
proof -
  assume ab: "cmp a b \<le> 0" and bc: "cmp b c < 0"
  have "cmp a c \<le> 0" using cmp_trans [of a b c] ab bc by simp
  moreover have "cmp a c \<noteq> 0"
  proof
    assume "cmp a c = 0"
    then have "cmp c a \<le> 0" using cmp_eq_iff [of a c] by simp
    then have "cmp c b \<le> 0" using cmp_trans ab by blast
    then show False using bc cmp_less_iff [of b c] by simp
  qed
  ultimately show ?thesis by simp
qed

lemma mset_qinsert: "mset (c_qinsert cmp x xs) = add_mset x (mset xs)"
  by (induction xs) auto

lemma mset_qsort [simp]: "mset (c_qsort cmp xs) = mset xs"
  by (induction xs) (auto simp: mset_qinsert)

lemma set_qinsert: "set (c_qinsert cmp x xs) = insert x (set xs)"
  using arg_cong [OF mset_qinsert [of x xs], of set_mset] by simp

lemma set_qsort [simp]: "set (c_qsort cmp xs) = set xs"
  using arg_cong [OF mset_qsort [of xs], of set_mset] by (simp only: set_mset_mset)

lemma length_qsort [simp]: "length (c_qsort cmp xs) = length xs"
  using arg_cong [OF mset_qsort [of xs], of size] by (simp only: size_mset)

lemma distinct_qsort [simp]: "distinct (c_qsort cmp xs) \<longleftrightarrow> distinct xs"
  using mset_eq_imp_distinct_iff [OF mset_qsort] .

lemma sorted_qinsert:
  "sorted_wrt (\<lambda>a b. cmp a b \<le> 0) xs \<Longrightarrow> sorted_wrt (\<lambda>a b. cmp a b \<le> 0) (c_qinsert cmp x xs)"
proof (induction xs)
  case (Cons y ys)
  then show ?case
    using cmp_total [of x y] by (auto simp: set_qinsert intro: cmp_trans)
qed simp

lemma sorted_qsort: "sorted_wrt (\<lambda>a b. cmp a b \<le> 0) (c_qsort cmp xs)"
  by (induction xs) (auto simp: sorted_qinsert)

text \<open>
  Whatever the sorting algorithm, a sorted permutation is the one the model computes as soon as
  no two different elements compare equal.
\<close>

lemma sorted_perm_unique:
  assumes "mset xs = mset ys"
    and "sorted_wrt (\<lambda>a b. cmp a b \<le> 0) xs" and "sorted_wrt (\<lambda>a b. cmp a b \<le> 0) ys"
    and "\<And>a b. a \<in> set ys \<Longrightarrow> b \<in> set ys \<Longrightarrow> cmp a b = 0 \<Longrightarrow> a = b"
  shows "xs = ys"
  using assms
proof (induction xs arbitrary: ys)
  case (Cons x xs)
  from Cons.prems(1) obtain y ys' where ys: "ys = y # ys'"
    by (cases ys) auto
  have sets: "insert x (set xs) = insert y (set ys')"
    using arg_cong [OF Cons.prems(1), of set_mset] ys by simp
  have y: "y \<in> insert x (set xs)" and x: "x \<in> insert y (set ys')" using sets by auto
  have "cmp x y \<le> 0" using Cons.prems(2) y cmp_refl [of x] by auto
  moreover have "cmp y x \<le> 0" using Cons.prems(3) ys x cmp_refl [of y] by auto
  ultimately have "cmp x y = 0" using cmp_le_iff [of y x] by simp
  then have xy: "x = y" using Cons.prems(4) [of x y] x ys by simp
  have "xs = ys'"
    by (rule Cons.IH) (use Cons.prems xy ys in auto)
  then show ?case using xy ys by simp
qed simp

lemma qsort_unique:
  assumes "mset ys = mset xs" and "sorted_wrt (\<lambda>a b. cmp a b \<le> 0) ys"
    and "\<And>a b. a \<in> set xs \<Longrightarrow> b \<in> set xs \<Longrightarrow> cmp a b = 0 \<Longrightarrow> a = b"
  shows "ys = c_qsort cmp xs"
  using assms sorted_perm_unique [of ys "c_qsort cmp xs"] sorted_qsort by auto

lemma bsearch_loop_iff:
  assumes "sorted_wrt (\<lambda>a b. cmp a b \<le> 0) xs" and "u \<le> length xs"
  shows "bsearch_loop cmp k xs l u \<noteq> None \<longleftrightarrow> (\<exists>i. l \<le> i \<and> i < u \<and> cmp k (xs ! i) = 0)"
  using assms(2)
proof (induction "u - l" arbitrary: l u rule: less_induct)
  case less
  have sorted: "cmp (xs ! i) (xs ! j) \<le> 0" if "i \<le> j" "j < length xs" for i j
    using that assms(1) cmp_refl by (cases "i = j") (auto simp: sorted_wrt_iff_nth_less)
  show ?case
  proof (cases "l < u")
    case lu: True
    define i where "i = (l + u) div 2"
    have i: "l \<le> i" "i < u" using lu by (auto simp: i_def)
    consider "cmp k (xs ! i) < 0" | "cmp k (xs ! i) > 0" | "cmp k (xs ! i) = 0" by linarith
    then show ?thesis
    proof cases
      case 1
      have out: "cmp k (xs ! j) \<noteq> 0" if "i \<le> j" "j < u" for j
        using cmp_less_le_trans [OF 1 sorted [of i j]] that less.prems by auto
      have "bsearch_loop cmp k xs l i \<noteq> None \<longleftrightarrow> (\<exists>j. l \<le> j \<and> j < i \<and> cmp k (xs ! j) = 0)"
        using less.hyps [of i l] i less.prems by auto
      also have "\<dots> \<longleftrightarrow> (\<exists>j. l \<le> j \<and> j < u \<and> cmp k (xs ! j) = 0)"
        using out i by (meson less_trans linorder_not_le)
      finally show ?thesis
        using 1 lu by (subst bsearch_loop.simps) (simp add: Let_def i_def)
    next
      case 2
      have out: "cmp k (xs ! j) \<noteq> 0" if "l \<le> j" "j \<le> i" for j
      proof -
        have "cmp (xs ! i) k < 0" using 2 cmp_less_iff by blast
        moreover have "cmp (xs ! j) (xs ! i) \<le> 0" using sorted [of j i] that i less.prems by auto
        ultimately have "cmp (xs ! j) k < 0" by (rule cmp_le_less_trans [rotated])
        then show ?thesis using cmp_less_iff [of "xs ! j" k] by simp
      qed
      have "bsearch_loop cmp k xs (Suc i) u \<noteq> None \<longleftrightarrow>
          (\<exists>j. Suc i \<le> j \<and> j < u \<and> cmp k (xs ! j) = 0)"
        using less.hyps [of u "Suc i"] i less.prems by auto
      also have "\<dots> \<longleftrightarrow> (\<exists>j. l \<le> j \<and> j < u \<and> cmp k (xs ! j) = 0)"
        using out i by (meson Suc_leI le_SucI less_or_eq_imp_le linorder_not_le order_trans)
      finally show ?thesis
        using 2 lu by (subst bsearch_loop.simps) (simp add: Let_def i_def)
    next
      case 3
      then have "bsearch_loop cmp k xs l u = Some i"
        using lu by (subst bsearch_loop.simps) (simp add: Let_def i_def)
      then show ?thesis using 3 i by auto
    qed
  qed (subst bsearch_loop.simps, auto)
qed

lemma bsearch_iff:
  assumes "sorted_wrt (\<lambda>a b. cmp a b \<le> 0) xs"
  shows "c_bsearch cmp k xs \<noteq> None \<longleftrightarrow> (\<exists>x \<in> set xs. cmp k x = 0)"
proof -
  have "(\<exists>x \<in> set xs. cmp k x = 0) \<longleftrightarrow> (\<exists>i < length xs. cmp k (xs ! i) = 0)"
    by (metis in_set_conv_nth)
  then show ?thesis
    using bsearch_loop_iff [OF assms, of "length xs" k 0] by (simp add: c_bsearch_def)
qed

end

section \<open>Building comparators\<close>

lemma int_cmp_simps [simp]:
  "int_cmp a b = 0 \<longleftrightarrow> a = b" "int_cmp a b < 0 \<longleftrightarrow> a < b" "0 < int_cmp a b \<longleftrightarrow> b < a"
  "int_cmp a b \<le> 0 \<longleftrightarrow> a \<le> b"
  by (auto simp: int_cmp_def)

lemma comparator_int_cmp [comparator_intros]: "comparator int_cmp"
  by unfold_locales (simp_all, simp add: int_cmp_def)

lemma comparator_on [comparator_intros]: "comparator c \<Longrightarrow> comparator (on_cmp f c)"
  unfolding comparator_def on_cmp_def by blast

lemma comparator_then [comparator_intros]:
  assumes "comparator c1" and "comparator c2"
  shows "comparator (then_cmp c1 c2)"
proof -
  note r1 = comparator.cmp_refl [OF assms(1)] and r2 = comparator.cmp_refl [OF assms(2)]
  note e1 = comparator.cmp_eq_iff [OF assms(1)]
  note s1 = comparator.cmp_sym [OF assms(1)] and s2 = comparator.cmp_sym [OF assms(2)]
  show ?thesis
  proof unfold_locales
    fix a b c
    show "then_cmp c1 c2 a a = 0" by (simp add: then_cmp_def r1 r2)
    show "sgn (then_cmp c1 c2 b a) = - sgn (then_cmp c1 c2 a b)"
      using e1 [of a b] s1 [of a b] s2 [of a b] by (simp add: then_cmp_def)
    assume ab: "then_cmp c1 c2 a b \<le> 0" and bc: "then_cmp c1 c2 b c \<le> 0"
    have le: "c1 a b \<le> 0" "c1 b c \<le> 0"
      using ab bc by (auto simp: then_cmp_def split: if_splits)
    show "then_cmp c1 c2 a c \<le> 0"
    proof (cases "c1 a b = 0 \<and> c1 b c = 0")
      case True
      then show ?thesis
        using ab bc comparator.cmp_eq_trans [OF assms(1), of a b c]
          comparator.cmp_trans [OF assms(2), of a b c] by (simp add: then_cmp_def)
    next
      case False
      then have "c1 a c < 0"
        using le comparator.cmp_less_le_trans [OF assms(1), of a b c]
          comparator.cmp_le_less_trans [OF assms(1), of a b c] by auto
      then show ?thesis by (simp add: then_cmp_def)
    qed
  qed
qed

lemma lex_cmp_refl: "(\<And>a. cmp a a = 0) \<Longrightarrow> lex_cmp cmp xs xs = 0"
  by (induction xs) auto

lemma lex_cmp_eq: "(\<And>a b. cmp a b = 0 \<Longrightarrow> a = b) \<Longrightarrow> lex_cmp cmp xs ys = 0 \<Longrightarrow> xs = ys"
  by (induction cmp xs ys rule: lex_cmp.induct) (auto split: if_splits)

lemma lex_cmp_sgn: "comparator cmp \<Longrightarrow> sgn (lex_cmp cmp ys xs) = - sgn (lex_cmp cmp xs ys)"
proof (induction cmp xs ys rule: lex_cmp.induct)
  case (4 cmp x xs y ys)
  then show ?case
    using comparator.cmp_eq_iff [OF "4.prems", of x y] comparator.cmp_sym [OF "4.prems", of x y]
    by (cases "cmp x y = 0") auto
qed auto

lemma lex_cmp_trans:
  assumes "comparator cmp" and "lex_cmp cmp xs ys \<le> 0" and "lex_cmp cmp ys zs \<le> 0"
  shows "lex_cmp cmp xs zs \<le> 0"
  using assms(2,3)
proof (induction xs arbitrary: ys zs)
  case Nil
  then show ?case by (cases zs) auto
next
  case (Cons x xs)
  obtain y ys' where ys: "ys = y # ys'" using Cons.prems by (cases ys) auto
  obtain z zs' where zs: "zs = z # zs'" using Cons.prems ys by (cases zs) auto
  have le: "cmp x y \<le> 0" "cmp y z \<le> 0"
    using Cons.prems by (auto simp: ys zs split: if_splits)
  show ?case
  proof (cases "cmp x y = 0 \<and> cmp y z = 0")
    case True
    then have "cmp x z = 0" using comparator.cmp_eq_trans [OF assms(1), of x y z] by simp
    moreover have "lex_cmp cmp xs zs' \<le> 0"
      using Cons.IH [of ys' zs'] Cons.prems True by (simp add: ys zs)
    ultimately show ?thesis by (simp add: zs)
  next
    case False
    then have "cmp x z < 0"
      using le comparator.cmp_less_le_trans [OF assms(1), of x y z]
        comparator.cmp_le_less_trans [OF assms(1), of x y z] by auto
    then show ?thesis by (simp add: zs)
  qed
qed

lemma comparator_lex [comparator_intros]: "comparator cmp \<Longrightarrow> comparator (lex_cmp cmp)"
  using lex_cmp_refl [of cmp] lex_cmp_sgn [of cmp] lex_cmp_trans [of cmp]
  by (auto simp: comparator.cmp_refl intro!: comparator.intro)

text \<open>Evaluation compares bytes as integers, which the simplifier keeps in binary.\<close>

lemma byte_int: "int (byte c) = of_char c"
  by (simp add: byte_def of_nat_of_char)

lemma byte_code [code_unfold]:
  "numeral k \<le> byte c \<longleftrightarrow> numeral k \<le> (of_char c :: int)"
  "byte c \<le> numeral k \<longleftrightarrow> (of_char c :: int) \<le> numeral k"
  "int (byte c) = of_char c"
  by (simp_all flip: byte_int)

lemma byte_eq_iff [simp]: "byte c = byte d \<longleftrightarrow> c = d"
  by (simp add: byte_def)

lemma char_cmp_eq [simp]: "char_cmp c d = 0 \<longleftrightarrow> c = d"
  by (simp add: char_cmp_def)

lemma comparator_char_cmp [comparator_intros]: "comparator char_cmp"
  using comparator_on [OF comparator_int_cmp, of "\<lambda>c. int (byte c)"]
  by (simp add: char_cmp_def [abs_def] on_cmp_def [abs_def])

lemma comparator_strcmp [comparator_intros]: "comparator c_strcmp"
  using comparator_lex [OF comparator_char_cmp] by (simp add: c_strcmp_def [abs_def])

lemma c_strcmp_eq [simp]: "c_strcmp s t = 0 \<longleftrightarrow> s = t"
  using lex_cmp_eq [of char_cmp s t] lex_cmp_refl [of char_cmp s] by (auto simp: c_strcmp_def)

interpretation strcmp: comparator c_strcmp
  by (rule comparator_strcmp)

section \<open>Characters and strings\<close>

lemma c_at_less [simp]: "i < length s \<Longrightarrow> c_at s i = s ! i"
  by (simp add: c_at_def)

lemma c_at_simps [simp]: "c_at [] i = NUL" "c_at (c # cs) 0 = c" "c_at (c # cs) (Suc i) = c_at cs i"
  by (auto simp: c_at_def)

lemma c_at_append: "c_at (s @ t) i = (if i < length s then c_at s i else c_at t (i - length s))"
  by (auto simp: c_at_def nth_append)

lemma takeWhile_absent: "x \<notin> set s \<Longrightarrow> takeWhile (\<lambda>c. c \<noteq> x) s = s"
  by (induction s) auto

lemma dropWhile_absent: "x \<notin> set s \<Longrightarrow> dropWhile (\<lambda>c. c \<noteq> x) s = []"
  by (induction s) auto

lemma last_sep_unique:
  "x \<notin> set r \<Longrightarrow> x \<notin> set r' \<Longrightarrow> p @ x # r = p' @ x # r' \<Longrightarrow> p = p' \<and> r = r'"
  by (auto simp: append_eq_append_conv2 Cons_eq_append_conv append_eq_Cons_conv)

lemma ends_with_iff: "ends_with s t \<longleftrightarrow> (\<exists>p. s = p @ t)"
proof
  assume "ends_with s t"
  then have "s = take (length s - length t) s @ t"
    using append_take_drop_id [of "length s - length t" s] by (simp add: ends_with_def)
  then show "\<exists>p. s = p @ t" by blast
qed (auto simp: ends_with_def)

lemma ends_with_append [simp]: "ends_with (p @ t) t"
  by (auto simp: ends_with_iff)

lemma ends_with_cases:
  assumes "ends_with s t" and "ends_with s u"
  shows "ends_with t u \<or> ends_with u t"
proof -
  obtain p where "s = p @ t" using assms(1) by (auto simp: ends_with_iff)
  moreover obtain q where "s = q @ u" using assms(2) by (auto simp: ends_with_iff)
  ultimately have "p @ t = q @ u" by simp
  then obtain r where "p = q @ r \<and> r @ t = u \<or> p @ r = q \<and> t = r @ u"
    by (auto simp: append_eq_append_conv2)
  then show ?thesis by (auto simp: ends_with_iff)
qed

end
