(* ===== verification/Store_Names.thy ===== *)
theory Store_Names
  imports Cix_Prelude
begin

text \<open>
  Artifact names (\<^verbatim>\<open>src/src/store.c\<close>, \<^verbatim>\<open>src/include/store.h\<close>): the suffix table and the
  signature policy it carries, the character whitelist, the architecture and release parsers,
  canonical form and the display split. The setter of the signature policy is in \<^verbatim>\<open>Store_Policy\<close>. Index arithmetic is kept as the C code has it; the
  lemmas relate it to decompositions of the name as a list of characters.
\<close>

section \<open>Constants and the error enumeration\<close>

definition STORE_SHA256_HEX_LEN :: nat where
  "STORE_SHA256_HEX_LEN = 64"

definition STORE_SHA256_MAX :: nat where
  "STORE_SHA256_MAX = 65"

definition STORE_NAME_MAX :: nat where
  "STORE_NAME_MAX = 256"

definition STORE_CANONICAL_GROWTH :: nat where
  "STORE_CANONICAL_GROWTH = 2"

definition STORE_SIG_EXT :: string where
  "STORE_SIG_EXT = ''.minisig''"

definition INT_MAX :: int where
  "INT_MAX = 2147483647"

datatype store_error =
    STORE_OK
  | STORE_ERR_INVALID_NAME
  | STORE_ERR_NOT_FOUND
  | STORE_ERR_CONFLICT
  | STORE_ERR_AMBIGUOUS
  | STORE_ERR_IO

definition store_error_str :: "store_error \<Rightarrow> string" where
  "store_error_str e =
     (case e of
        STORE_OK \<Rightarrow> ''ok''
      | STORE_ERR_INVALID_NAME \<Rightarrow> ''invalid artifact name''
      | STORE_ERR_NOT_FOUND \<Rightarrow> ''not found''
      | STORE_ERR_AMBIGUOUS \<Rightarrow>
          ''that name matches more than one artifact -- name an architecture''
      | STORE_ERR_CONFLICT \<Rightarrow> ''already published with a different digest''
      | STORE_ERR_IO \<Rightarrow> ''store i/o error'')"

section \<open>Digests\<close>

definition hex_lower :: "char \<Rightarrow> bool" where
  "hex_lower c \<longleftrightarrow> c_isdigit c \<or> (97 \<le> byte c \<and> byte c \<le> 102)"

text \<open>
  The loop has seen 64 characters that are not NUL when \<open>s[64]\<close> is compared with NUL, so that
  comparison says that the string ends there.
\<close>

definition store_digest_is_valid :: "string \<Rightarrow> bool" where
  "store_digest_is_valid s \<longleftrightarrow>
     list_all (\<lambda>i. hex_lower (c_at s i)) [0..<STORE_SHA256_HEX_LEN]
     \<and> length s = STORE_SHA256_HEX_LEN"

section \<open>The suffix table\<close>

record suffix_rec =
  sfx_ext :: string
  sfx_installer :: bool
  sfx_require_sig :: bool

type_synonym suffix_table = "suffix_rec list"

definition g_suffixes :: suffix_table where
  "g_suffixes =
     [\<lparr>sfx_ext = ''.tar.gz.minisig'', sfx_installer = False, sfx_require_sig = False\<rparr>,
      \<lparr>sfx_ext = ''.cixpkg.minisig'', sfx_installer = False, sfx_require_sig = False\<rparr>,
      \<lparr>sfx_ext = ''.iso.minisig'', sfx_installer = True, sfx_require_sig = False\<rparr>,
      \<lparr>sfx_ext = ''.tar.gz'', sfx_installer = False, sfx_require_sig = False\<rparr>,
      \<lparr>sfx_ext = ''.cixpkg'', sfx_installer = False, sfx_require_sig = False\<rparr>,
      \<lparr>sfx_ext = ''.iso'', sfx_installer = True, sfx_require_sig = True\<rparr>]"

fun suffix_record :: "suffix_table \<Rightarrow> string \<Rightarrow> suffix_rec option" where
  "suffix_record [] name = None"
| "suffix_record (s # ss) name =
     (let len = length name; slen = length (sfx_ext s)
      in if len > slen \<and> drop (len - slen) name = sfx_ext s then Some s
         else suffix_record ss name)"

text \<open>
  Only the \<open>require_sig\<close> column of the table is ever written, so the suffix of a name is read
  off the initial table; \<open>suffix_ext_policy_independent\<close> below shows that every table the
  policy setter can produce gives the same answer.
\<close>

definition store_suffix_of :: "string \<Rightarrow> string option" where
  "store_suffix_of name = map_option sfx_ext (suffix_record g_suffixes name)"

definition ext_is_signature :: "string \<Rightarrow> bool" where
  "ext_is_signature ext \<longleftrightarrow>
     (let tail = length STORE_SIG_EXT; len = length ext
      in len > tail \<and> drop (len - tail) ext = STORE_SIG_EXT)"

definition store_is_signature :: "string \<Rightarrow> bool" where
  "store_is_signature name =
     (case store_suffix_of name of None \<Rightarrow> False | Some ext \<Rightarrow> ext_is_signature ext)"

definition store_is_installer :: "string \<Rightarrow> bool" where
  "store_is_installer name =
     (case suffix_record g_suffixes name of None \<Rightarrow> False | Some s \<Rightarrow> sfx_installer s)"

definition store_needs_signature :: "suffix_table \<Rightarrow> string \<Rightarrow> bool" where
  "store_needs_signature tbl name =
     (case suffix_record tbl name of None \<Rightarrow> False | Some s \<Rightarrow> sfx_require_sig s)"

section \<open>Stems and the whitelist\<close>

definition stem_len :: "string \<Rightarrow> nat" where
  "stem_len name =
     (case store_suffix_of name of
        Some suffix \<Rightarrow> length name - length suffix
      | None \<Rightarrow> length name)"

definition store_stem_of :: "string \<Rightarrow> nat \<Rightarrow> string" where
  "store_stem_of name out_size =
     (let len = stem_len name
      in take (if len \<ge> out_size then out_size - 1 else len) name)"

definition name_char_ok :: "char \<Rightarrow> bool" where
  "name_char_ok c \<longleftrightarrow>
     (65 \<le> byte c \<and> byte c \<le> 90) \<or> (97 \<le> byte c \<and> byte c \<le> 122) \<or> c_isdigit c
     \<or> c = CHR ''.'' \<or> c = CHR ''_'' \<or> c = CHR ''-''"

definition store_name_is_valid :: "string \<Rightarrow> bool" where
  "store_name_is_valid name \<longleftrightarrow>
     (if name = [] \<or> c_at name 0 = CHR ''.'' then False
      else if length name \<ge> STORE_NAME_MAX then False
      else if \<not> list_all (\<lambda>i. name_char_ok (c_at name i)
                 \<and> \<not> (c_at name i = CHR ''.'' \<and> c_at name (i + 1) = CHR ''.''))
                 [0..<length name] then False
      else store_suffix_of name \<noteq> None)"

definition store_signature_name :: "string \<Rightarrow> nat \<Rightarrow> string option" where
  "store_signature_name name out_size =
     (if \<not> store_name_is_valid name \<or> store_is_signature name then None
      else if snprintf_fits out_size (name @ STORE_SIG_EXT) then Some (name @ STORE_SIG_EXT)
      else None)"

section \<open>Architectures\<close>

definition g_arches :: "string list" where
  "g_arches = [''x86_64'', ''aarch64'', ''armv7l'', ''riscv64'']"

definition store_arches :: "string list" where
  "store_arches = g_arches"

fun arch_offset_loop :: "string list \<Rightarrow> string \<Rightarrow> nat \<Rightarrow> nat" where
  "arch_offset_loop [] name stem = 0"
| "arch_offset_loop (a # as) name stem =
     (let len = length a
      in if stem > len + 1 \<and> c_at name (stem - len - 1) = CHR ''-''
            \<and> c_strncmp (drop (stem - len) name) a len = 0
         then stem - len
         else arch_offset_loop as name stem)"

definition arch_offset :: "string \<Rightarrow> nat \<Rightarrow> nat" where
  "arch_offset name stem = arch_offset_loop g_arches name stem"

text \<open>The architecture as the entry of the table, and the text copied to \<open>out\<close>.\<close>

definition store_arch_of :: "string \<Rightarrow> string option" where
  "store_arch_of name =
     (let stem = stem_len name; at = arch_offset name stem
      in if at = 0 then None
         else find (\<lambda>a. c_strncmp (drop at name) a (stem - at) = 0 \<and> length a = stem - at)
                g_arches)"

section \<open>Releases and canonical form\<close>

text \<open>\<open>for (i = stem; i > 0; i--)\<close> looking for the last hyphen; 0 when there is none.\<close>

fun find_dash :: "string \<Rightarrow> nat \<Rightarrow> nat" where
  "find_dash name 0 = 0"
| "find_dash name (Suc i) = (if c_at name i = CHR ''-'' then i else find_dash name i)"

fun version_before :: "string \<Rightarrow> nat \<Rightarrow> bool" where
  "version_before name 0 = False"
| "version_before name (Suc i) =
     (if c_at name i = CHR ''-'' then False
      else c_isdigit (c_at name i) \<or> version_before name i)"

definition release_offset :: "string \<Rightarrow> nat \<Rightarrow> nat" where
  "release_offset name stem =
     (let dash = find_dash name stem
      in if dash = 0 \<or> dash + 1 \<ge> stem then 0
         else if \<not> list_all (\<lambda>i. c_isdigit (c_at name i)) [dash + 1..<stem] then 0
         else if \<not> version_before name dash then 0
         else dash + 1)"

fun has_version :: "string \<Rightarrow> nat \<Rightarrow> bool" where
  "has_version name 0 = False"
| "has_version name (Suc i) =
     (if c_at name i = CHR ''-'' then False
      else if c_isdigit (c_at name i) then True
      else has_version name i)"

function skip_zeros :: "string \<Rightarrow> nat \<Rightarrow> nat \<Rightarrow> nat" where
  "skip_zeros name z stem =
     (if z + 1 < stem \<and> c_at name z = CHR ''0'' then skip_zeros name (z + 1) stem else z)"
  by pat_completeness auto
termination
  by (relation "measure (\<lambda>(name, z, stem). stem - z)") auto

declare skip_zeros.simps [simp del]

text \<open>The result of \<open>snprintf\<close> into \<open>out\<close> and the code returned: \<open>None\<close> is -1.\<close>

definition canonical_emit :: "nat \<Rightarrow> string \<Rightarrow> string \<Rightarrow> (nat \<times> string) option" where
  "canonical_emit out_size name out =
     (if snprintf_fits out_size out then Some (if out \<noteq> name then 1 else 0, out) else None)"

definition store_canonical_name :: "string \<Rightarrow> nat \<Rightarrow> (nat \<times> string) option" where
  "store_canonical_name name out_size =
     (if \<not> store_name_is_valid name then None
      else case store_suffix_of name of
        None \<Rightarrow> None
      | Some ext \<Rightarrow>
          (let stem0 = length name - length ext;
               arch = arch_offset name stem0;
               suffix = (if arch \<noteq> 0
                         then snprintf 80 (''-'' @ take (stem0 - arch) (drop arch name) @ ext)
                         else snprintf 80 ext);
               stem = (if arch \<noteq> 0 then arch - 1 else stem0);
               rel = release_offset name stem
           in if rel = 0 then
                (if \<not> has_version name stem
                 then canonical_emit out_size name (take stem name @ suffix)
                 else canonical_emit out_size name (take stem name @ ''-1'' @ suffix))
              else
                (let z = skip_zeros name rel stem
                 in canonical_emit out_size name
                      (take (rel - 1) name @ ''-'' @ take (stem - z) (drop z name) @ suffix))))"

section \<open>The display split\<close>

record display =
  d_name :: string
  d_version :: string
  d_release :: int
  d_arch :: string

text \<open>The digit loop, clamped at \<open>INT_MAX\<close> instead of overflowing.\<close>

fun release_value :: "int \<Rightarrow> string \<Rightarrow> int" where
  "release_value v [] = v"
| "release_value v (c # cs) =
     (let d = int (byte c) - 48
      in if v > (INT_MAX - d) div 10 then INT_MAX else release_value (v * 10 + d) cs)"

definition starts_version :: "string \<Rightarrow> nat \<Rightarrow> nat \<Rightarrow> bool" where
  "starts_version name stem i \<longleftrightarrow>
     (let nxt = c_at name (i + 1)
      in c_isdigit nxt \<or> (nxt = CHR ''v'' \<and> i + 2 < stem \<and> c_isdigit (c_at name (i + 2))))"

function display_boundary :: "string \<Rightarrow> nat \<Rightarrow> nat \<Rightarrow> nat option" where
  "display_boundary name stem i =
     (if i + 1 < stem then
        (if c_at name i = CHR ''-'' \<and> starts_version name stem i then Some i
         else display_boundary name stem (i + 1))
      else None)"
  by pat_completeness auto
termination
  by (relation "measure (\<lambda>(name, stem, i). stem - i)") auto

declare display_boundary.simps [simp del]

definition store_split_display :: "string \<Rightarrow> nat \<Rightarrow> nat \<Rightarrow> nat \<Rightarrow> display" where
  "store_split_display name out_name_size out_version_size out_arch_size =
     (let stem0 = stem_len name;
          arch = arch_offset name stem0;
          arch_text = (if arch \<noteq> 0
                       then snprintf out_arch_size (take (stem0 - arch) (drop arch name)) else []);
          stem1 = (if arch \<noteq> 0 then arch - 1 else stem0);
          rel = release_offset name stem1;
          release = (if rel \<noteq> 0 then release_value 0 (take (stem1 - rel) (drop rel name)) else 1);
          stem = (if rel \<noteq> 0 then rel - 1 else stem1)
      in case display_boundary name stem 0 of
           Some i \<Rightarrow>
             \<lparr>d_name = snprintf out_name_size (take i name),
              d_version = snprintf out_version_size (take (stem - i - 1) (drop (i + 1) name)),
              d_release = release, d_arch = arch_text\<rparr>
         | None \<Rightarrow>
             \<lparr>d_name = snprintf out_name_size (take stem name), d_version = [],
              d_release = release, d_arch = arch_text\<rparr>)"

section \<open>Suffixes\<close>

lemmas store_consts = STORE_NAME_MAX_def STORE_SHA256_MAX_def STORE_SHA256_HEX_LEN_def
  STORE_CANONICAL_GROWTH_def STORE_SIG_EXT_def INT_MAX_def

definition known_exts :: "string list" where
  "known_exts = map sfx_ext g_suffixes"

lemma known_exts_code:
  "known_exts = [''.tar.gz.minisig'', ''.cixpkg.minisig'', ''.iso.minisig'',
     ''.tar.gz'', ''.cixpkg'', ''.iso'']"
  by (simp add: known_exts_def g_suffixes_def)

lemma suffix_record_Some:
  "suffix_record tbl name = Some s \<Longrightarrow>
   s \<in> set tbl \<and> (\<exists>stem. name = stem @ sfx_ext s \<and> stem \<noteq> [])"
proof (induction tbl)
  case (Cons t tbl)
  show ?case
  proof (cases "length name > length (sfx_ext t) \<and>
      drop (length name - length (sfx_ext t)) name = sfx_ext t")
    case True
    then have "name = take (length name - length (sfx_ext t)) name @ sfx_ext t"
      using append_take_drop_id [of "length name - length (sfx_ext t)" name] by simp
    moreover have "take (length name - length (sfx_ext t)) name \<noteq> []" using True by auto
    ultimately show ?thesis using Cons.prems True by (auto simp: Let_def)
  next
    case False
    then show ?thesis using Cons by (auto simp: Let_def)
  qed
qed simp

text \<open>No recognised suffix ends in another one, so the first match is the only match.\<close>

lemma known_exts_antichain:
  "e \<in> set known_exts \<Longrightarrow> f \<in> set known_exts \<Longrightarrow> ends_with e f \<Longrightarrow> e = f"
proof -
  have "list_all (\<lambda>e. list_all (\<lambda>f. ends_with e f \<longrightarrow> e = f) known_exts) known_exts"
    by code_simp
  then show "e \<in> set known_exts \<Longrightarrow> f \<in> set known_exts \<Longrightarrow> ends_with e f \<Longrightarrow> e = f"
    by (auto simp: list_all_iff)
qed

lemma suffix_record_None:
  "suffix_record tbl name = None \<longleftrightarrow>
   (\<forall>s \<in> set tbl. \<forall>stem. stem \<noteq> [] \<longrightarrow> name \<noteq> stem @ sfx_ext s)"
proof (induction tbl)
  case (Cons t tbl)
  have "length name > length (sfx_ext t) \<and> drop (length name - length (sfx_ext t)) name = sfx_ext t
    \<longleftrightarrow> (\<exists>stem. stem \<noteq> [] \<and> name = stem @ sfx_ext t)"
  proof
    assume a: "length name > length (sfx_ext t) \<and>
      drop (length name - length (sfx_ext t)) name = sfx_ext t"
    then have "name = take (length name - length (sfx_ext t)) name @ sfx_ext t"
      using append_take_drop_id [of "length name - length (sfx_ext t)" name] by simp
    moreover have "take (length name - length (sfx_ext t)) name \<noteq> []" using a by auto
    ultimately show "\<exists>stem. stem \<noteq> [] \<and> name = stem @ sfx_ext t" by blast
  qed auto
  then show ?case using Cons by (auto simp: Let_def)
qed simp

lemma store_suffix_of_Some_iff:
  "store_suffix_of name = Some ext \<longleftrightarrow>
   ext \<in> set known_exts \<and> (\<exists>stem. stem \<noteq> [] \<and> name = stem @ ext)"
proof
  assume "store_suffix_of name = Some ext"
  then obtain s where "suffix_record g_suffixes name = Some s" "ext = sfx_ext s"
    by (auto simp: store_suffix_of_def)
  then show "ext \<in> set known_exts \<and> (\<exists>stem. stem \<noteq> [] \<and> name = stem @ ext)"
    using suffix_record_Some by (fastforce simp: known_exts_def)
next
  assume r: "ext \<in> set known_exts \<and> (\<exists>stem. stem \<noteq> [] \<and> name = stem @ ext)"
  then obtain t where t: "t \<in> set g_suffixes" "ext = sfx_ext t"
    by (auto simp: known_exts_def)
  have "suffix_record g_suffixes name \<noteq> None"
    using r t by (auto simp: suffix_record_None)
  then obtain s where s: "suffix_record g_suffixes name = Some s" by blast
  note s' = suffix_record_Some [OF s]
  have "ends_with name (sfx_ext s)" using s' by (auto simp: ends_with_iff)
  moreover have "ends_with name ext" using r by (auto simp: ends_with_iff)
  ultimately have "sfx_ext s = ext"
    using ends_with_cases [of name "sfx_ext s" ext] known_exts_antichain [of "sfx_ext s" ext]
      known_exts_antichain [of ext "sfx_ext s"] s' r by (auto simp: known_exts_def)
  then show "store_suffix_of name = Some ext" using s by (simp add: store_suffix_of_def)
qed

lemma store_suffix_of_append:
  "ext \<in> set known_exts \<Longrightarrow> stem \<noteq> [] \<Longrightarrow> store_suffix_of (stem @ ext) = Some ext"
  by (auto simp: store_suffix_of_Some_iff)

lemma store_suffix_of_cases:
  assumes "store_suffix_of name \<noteq> None"
  obtains stem ext where "ext \<in> set known_exts" "stem \<noteq> []" "name = stem @ ext"
    "store_suffix_of name = Some ext" "stem_len name = length stem"
proof -
  obtain ext where e: "store_suffix_of name = Some ext" using assms by blast
  then obtain stem where "ext \<in> set known_exts" "stem \<noteq> []" "name = stem @ ext"
    by (auto simp: store_suffix_of_Some_iff)
  then show thesis using that [of ext stem] e by (simp add: stem_len_def)
qed

lemma suffix_ext_policy_independent:
  "map sfx_ext tbl = map sfx_ext tbl' \<Longrightarrow>
   map_option sfx_ext (suffix_record tbl name) = map_option sfx_ext (suffix_record tbl' name)"
proof (induction tbl arbitrary: tbl')
  case (Cons s tbl)
  then show ?case by (cases tbl') (auto simp: Let_def)
qed simp

section \<open>The whitelist\<close>

fun no_dotdot :: "string \<Rightarrow> bool" where
  "no_dotdot (c # d # cs) \<longleftrightarrow> \<not> (c = CHR ''.'' \<and> d = CHR ''.'') \<and> no_dotdot (d # cs)"
| "no_dotdot cs \<longleftrightarrow> True"

lemma no_dotdot_nth:
  "no_dotdot s \<longleftrightarrow> (\<forall>i < length s. \<not> (c_at s i = CHR ''.'' \<and> c_at s (i + 1) = CHR ''.''))"
proof (induction s rule: no_dotdot.induct)
  case (1 c d cs)
  then show ?case by (simp add: All_less_Suc2)
qed simp_all

lemma no_dotdot_append:
  "no_dotdot (s @ t) \<longleftrightarrow> no_dotdot s \<and> no_dotdot t
     \<and> (s \<noteq> [] \<and> t \<noteq> [] \<longrightarrow> \<not> (last s = CHR ''.'' \<and> hd t = CHR ''.''))"
proof (induction s rule: no_dotdot.induct, goal_cases)
  case (3 c)
  then show ?case by (cases t) auto
qed auto

lemma no_dotdot_iff: "no_dotdot s \<longleftrightarrow> (\<nexists>p q. s = p @ ''..'' @ q)"
proof (induction s rule: no_dotdot.induct)
  case (1 c d cs)
  show ?case
  proof
    assume "no_dotdot (c # d # cs)"
    then show "\<nexists>p q. c # d # cs = p @ ''..'' @ q"
      using 1 by (auto simp: Cons_eq_append_conv)
  next
    assume a: "\<nexists>p q. c # d # cs = p @ ''..'' @ q"
    then have "\<not> (c = CHR ''.'' \<and> d = CHR ''.'')" by fastforce
    moreover have "\<nexists>p q. d # cs = p @ ''..'' @ q"
      using a by (metis append_Cons)
    ultimately show "no_dotdot (c # d # cs)" using 1 by simp
  qed
qed (auto simp: Cons_eq_append_conv)

lemma store_name_is_valid_iff [code]:
  "store_name_is_valid name \<longleftrightarrow>
     name \<noteq> [] \<and> hd name \<noteq> CHR ''.'' \<and> length name < STORE_NAME_MAX
     \<and> list_all name_char_ok name \<and> no_dotdot name \<and> store_suffix_of name \<noteq> None"
  by (auto simp: store_name_is_valid_def no_dotdot_nth list_all_length list_all_iff c_at_def
      hd_conv_nth)

section \<open>Architectures\<close>

lemma c_strncmp_take: "length a = n \<Longrightarrow> c_strncmp s a n = 0 \<longleftrightarrow> take n s = a"
  by (simp add: c_strncmp_def)

lemma g_arches_no_dash: "a \<in> set g_arches \<Longrightarrow> CHR ''-'' \<notin> set a"
  by (auto simp: g_arches_def)

lemma g_arches_letter: "a \<in> set g_arches \<Longrightarrow> a \<noteq> [] \<and> \<not> list_all c_isdigit a"
  by (auto simp: g_arches_def c_isdigit_def byte_def)

lemma g_arches_antichain:
  "a \<in> set g_arches \<Longrightarrow> b \<in> set g_arches \<Longrightarrow> ends_with (CHR ''-'' # a) (CHR ''-'' # b) \<Longrightarrow> a = b"
proof -
  have "list_all (\<lambda>a. list_all (\<lambda>b. ends_with (CHR ''-'' # a) (CHR ''-'' # b) \<longrightarrow> a = b) g_arches) g_arches"
    by code_simp
  then show "a \<in> set g_arches \<Longrightarrow> b \<in> set g_arches \<Longrightarrow>
      ends_with (CHR ''-'' # a) (CHR ''-'' # b) \<Longrightarrow> a = b"
    by (auto simp: list_all_iff)
qed

lemma arch_match_iff:
  assumes "stem \<le> length name"
  shows "stem > length a + 1 \<and> c_at name (stem - length a - 1) = CHR ''-''
      \<and> c_strncmp (drop (stem - length a) name) a (length a) = 0
    \<longleftrightarrow> (\<exists>b. b \<noteq> [] \<and> take stem name = b @ CHR ''-'' # a)"
    (is "?l \<longleftrightarrow> ?r")
proof
  assume l: ?l
  define k where "k = stem - length a - 1"
  have k: "stem = k + Suc (length a)" "0 < k" using l by (auto simp: k_def)
  have "take stem name = take k name @ take (Suc (length a)) (drop k name)"
    unfolding k(1) by (rule take_add)
  also have "drop k name = CHR ''-'' # drop (Suc k) name"
    using l k assms by (simp add: k_def [symmetric] Cons_nth_drop_Suc [symmetric])
  also have "take (Suc (length a)) (CHR ''-'' # drop (Suc k) name) = CHR ''-'' # a"
    using l k by (simp add: c_strncmp_take)
  finally show ?r using k assms by (intro exI [of _ "take k name"]) auto
next
  assume ?r
  then obtain b where b: "b \<noteq> []" "take stem name = b @ CHR ''-'' # a" by blast
  have len: "stem = length b + Suc (length a)"
    using arg_cong [OF b(2), of length] assms by simp
  have name: "name = b @ CHR ''-'' # a @ drop stem name"
    using append_take_drop_id [of stem name] b(2) by simp
  have "c_at name (length b) = CHR ''-''"
    by (subst name) (simp add: c_at_append)
  moreover have "take (length a) (drop (Suc (length b)) name) = a"
    by (subst name) simp
  ultimately show ?l using b(1) len by (simp add: c_strncmp_take)
qed

lemma arch_offset_loop_Some:
  assumes "stem \<le> length name" and "arch_offset_loop as name stem \<noteq> 0"
  shows "\<exists>a b. a \<in> set as \<and> b \<noteq> [] \<and> take stem name = b @ CHR ''-'' # a
    \<and> arch_offset_loop as name stem = length b + 1"
  using assms(2)
proof (induction as)
  case (Cons a as)
  show ?case
  proof (cases "\<exists>b. b \<noteq> [] \<and> take stem name = b @ CHR ''-'' # a")
    case True
    then obtain b where b: "b \<noteq> []" "take stem name = b @ CHR ''-'' # a" by blast
    have "stem = length b + Suc (length a)"
      using arg_cong [OF b(2), of length] assms(1) by simp
    then show ?thesis
      using arch_match_iff [OF assms(1), of a] b by (auto simp: Let_def)
  next
    case False
    then have eq: "arch_offset_loop (a # as) name stem = arch_offset_loop as name stem"
      using arch_match_iff [OF assms(1), of a] by (auto simp: Let_def)
    show ?thesis using Cons.IH Cons.prems unfolding eq by auto
  qed
qed simp

lemma arch_offset_loop_0:
  assumes "stem \<le> length name"
  shows "arch_offset_loop as name stem = 0 \<longleftrightarrow>
    (\<nexists>a b. a \<in> set as \<and> b \<noteq> [] \<and> take stem name = b @ CHR ''-'' # a)"
proof (induction as)
  case (Cons a as)
  show ?case
  proof (cases "\<exists>b. b \<noteq> [] \<and> take stem name = b @ CHR ''-'' # a")
    case True
    then have "stem > length a + 1 \<and> c_at name (stem - length a - 1) = CHR ''-''
      \<and> c_strncmp (drop (stem - length a) name) a (length a) = 0"
      using arch_match_iff [OF assms, of a] by simp
    then have "arch_offset_loop (a # as) name stem \<noteq> 0" by (simp add: Let_def)
    then show ?thesis using True by auto
  next
    case False
    then show ?thesis
      using arch_match_iff [OF assms, of a] Cons by (auto simp: Let_def)
  qed
qed simp

text \<open>The architecture part of a stem is determined by the text: offset and table order do not matter.\<close>

lemma arch_offset_iff:
  assumes "a \<in> set g_arches" and "b \<noteq> []" and "stem \<le> length name"
    and "take stem name = b @ CHR ''-'' # a"
  shows "arch_offset name stem = length b + 1"
proof -
  have "arch_offset name stem \<noteq> 0"
    using assms arch_offset_loop_0 [OF assms(3), of g_arches] by (auto simp: arch_offset_def)
  then obtain a' b' where ab: "a' \<in> set g_arches" "take stem name = b' @ CHR ''-'' # a'"
    "arch_offset name stem = length b' + 1"
    using arch_offset_loop_Some [OF assms(3)] unfolding arch_offset_def by blast
  have "ends_with (take stem name) (CHR ''-'' # a')" using ab by simp
  moreover have "ends_with (take stem name) (CHR ''-'' # a)" using assms by simp
  ultimately have "a = a'"
    using ends_with_cases [of "take stem name" "CHR ''-'' # a'" "CHR ''-'' # a"]
      g_arches_antichain [OF ab(1) assms(1)] g_arches_antichain [OF assms(1) ab(1)] by auto
  then show ?thesis using ab assms(4) by simp
qed

lemma arch_offset_cases:
  assumes "stem \<le> length name"
  obtains (none) "arch_offset name stem = 0"
      "\<nexists>a b. a \<in> set g_arches \<and> b \<noteq> [] \<and> take stem name = b @ CHR ''-'' # a"
    | (some) a b where "a \<in> set g_arches" "b \<noteq> []" "take stem name = b @ CHR ''-'' # a"
      "arch_offset name stem = length b + 1"
proof (cases "arch_offset name stem = 0")
  case True
  then show thesis
    using none arch_offset_loop_0 [OF assms, of g_arches] by (auto simp: arch_offset_def)
next
  case False
  then show thesis
    using some arch_offset_loop_Some [OF assms, of g_arches] unfolding arch_offset_def by blast
qed

section \<open>Releases\<close>

text \<open>The parsers read nothing at or beyond the stem.\<close>

lemma find_dash_append: "i \<le> length s \<Longrightarrow> find_dash (s @ t) i = find_dash s i"
  by (induction i) (auto simp: c_at_append)

lemma version_before_append: "i \<le> length s \<Longrightarrow> version_before (s @ t) i = version_before s i"
  by (induction i) (auto simp: c_at_append)

lemma has_version_append: "i \<le> length s \<Longrightarrow> has_version (s @ t) i = has_version s i"
  by (induction i) (auto simp: c_at_append)

lemma find_dash_le: "find_dash s i \<le> i"
  by (induction i) auto

lemma release_offset_append: "release_offset (s @ t) (length s) = release_offset s (length s)"
proof -
  have "list_all (\<lambda>i. c_isdigit (c_at (s @ t) i)) [n..<length s] =
      list_all (\<lambda>i. c_isdigit (c_at s i)) [n..<length s]" for n
    by (auto simp: list_all_iff c_at_append)
  then show ?thesis
    using find_dash_le [of s "length s"]
    by (simp add: release_offset_def find_dash_append version_before_append Let_def)
qed

lemma skip_zeros_append:
  "stem \<le> length s \<Longrightarrow> skip_zeros (s @ t) z stem = skip_zeros s z stem"
proof (induction s z stem rule: skip_zeros.induct)
  case (1 s z stem)
  then show ?case
    by (subst skip_zeros.simps, subst (2) skip_zeros.simps) (auto simp: c_at_append)
qed

lemma version_before_has_version: "version_before s i = has_version s i"
  by (induction i) auto

text \<open>\<open>find_dash\<close> finds the last hyphen.\<close>

lemma find_dash_snoc:
  "find_dash (s @ [c]) (Suc (length s)) = (if c = CHR ''-'' then length s else find_dash s (length s))"
  by (simp add: c_at_append find_dash_append)

lemma find_dash_split:
  "CHR ''-'' \<notin> set r \<Longrightarrow> find_dash (p @ CHR ''-'' # r) (Suc (length p + length r)) = length p"
proof (induction r rule: rev_induct)
  case Nil
  then show ?case by (simp add: c_at_append)
next
  case (snoc c r)
  then show ?case
    using find_dash_snoc [of "p @ CHR ''-'' # r" c] by (auto simp del: find_dash.simps)
qed

lemma find_dash_none: "CHR ''-'' \<notin> set s \<Longrightarrow> find_dash s (length s) = 0"
proof (induction s rule: rev_induct)
  case (snoc c s)
  then show ?case using find_dash_snoc [of s c] by (auto simp del: find_dash.simps)
qed simp

lemma last_dash_cases:
  obtains (none) "CHR ''-'' \<notin> set s"
    | (split) p r where "s = p @ CHR ''-'' # r" "CHR ''-'' \<notin> set r"
  using split_list_last [of "CHR ''-''" s] by blast

lemma digit_not_dash: "c_isdigit c \<Longrightarrow> c \<noteq> CHR ''-''"
  by (auto simp: c_isdigit_def byte_def)

lemma digits_no_dash: "list_all c_isdigit r \<Longrightarrow> CHR ''-'' \<notin> set r"
  using digit_not_dash by (auto simp: list_all_iff)

definition is_release :: "string \<Rightarrow> string \<Rightarrow> bool" where
  "is_release p r \<longleftrightarrow> p \<noteq> [] \<and> r \<noteq> [] \<and> list_all c_isdigit r \<and> has_version p (length p)"

lemma digits_loop:
  "list_all (\<lambda>i. c_isdigit (c_at (p @ CHR ''-'' # r) i)) [Suc (length p)..<Suc (length p + length r)]
   \<longleftrightarrow> list_all c_isdigit r"
proof -
  have "[Suc (length p)..<Suc (length p + length r)] = map ((+) (Suc (length p))) [0..<length r]"
    by (rule nth_equalityI) (auto simp del: upt_Suc)
  then show ?thesis
    by (simp only: list_all_length length_map nth_map length_upt nth_upt) (simp add: c_at_append)
qed

text \<open>
  A release is the text after the last hyphen of the stem when it is all digits and the
  component before it carries a digit.
\<close>

lemma release_offset_split:
  assumes "CHR ''-'' \<notin> set r"
  shows "release_offset (p @ CHR ''-'' # r) (Suc (length p + length r)) =
    (if is_release p r then Suc (length p) else 0)"
proof -
  have "version_before (p @ CHR ''-'' # r) (length p) = has_version p (length p)"
    by (simp add: version_before_has_version has_version_append)
  then show ?thesis
    using digits_loop [of p r]
    by (auto simp: release_offset_def Let_def find_dash_split [OF assms] is_release_def
        simp del: find_dash.simps upt_Suc)
qed

lemma release_offset_cases:
  obtains (none) "release_offset s (length s) = 0" "\<nexists>p r. s = p @ CHR ''-'' # r \<and> is_release p r"
    | (some) p r where "s = p @ CHR ''-'' # r" "is_release p r"
        "release_offset s (length s) = length p + 1"
proof (cases s rule: last_dash_cases)
  case none
  then have "release_offset s (length s) = 0"
    by (simp add: release_offset_def find_dash_none)
  moreover have "\<nexists>p r. s = p @ CHR ''-'' # r \<and> is_release p r" using none by auto
  ultimately show thesis by (rule that(1))
next
  case (split p r)
  note ro = release_offset_split [OF split(2), of p]
  show thesis
  proof (cases "is_release p r")
    case True
    then show thesis using that(2) [of p r] split ro by simp
  next
    case False
    have "\<not> is_release p' r'" if "s = p' @ CHR ''-'' # r'" for p' r'
    proof
      assume rel: "is_release p' r'"
      then have "CHR ''-'' \<notin> set r'" by (simp add: is_release_def digits_no_dash)
      then have "p = p' \<and> r = r'"
        using last_sep_unique [OF split(2)] split(1) that by blast
      then show False using rel False by simp
    qed
    then show thesis using that(1) split ro False by auto
  qed
qed

end
