(* ===== verification/Store_Canonical.thy ===== *)
theory Store_Canonical
  imports Store_Names
begin

text \<open>
  Canonical form of artifact names and the display split (\<^verbatim>\<open>store_canonical_name\<close>,
  \<^verbatim>\<open>store_signature_name\<close>, \<^verbatim>\<open>store_split_display\<close> in \<^verbatim>\<open>src/src/store.c\<close>): a reference
  reading of a stem, the proof that the index arithmetic of the code computes it, and what
  follows for closure, idempotence, signatures and the listing.
\<close>

section \<open>Canonical form\<close>

text \<open>
  The reference reading of a stem: the part before and after the last hyphen, whether its last
  component carries a digit, and the stem in canonical form.
\<close>

definition last_component :: "string \<Rightarrow> string" where
  "last_component s = rev (takeWhile (\<lambda>c. c \<noteq> CHR ''-'') (rev s))"

definition before_last_dash :: "string \<Rightarrow> string option" where
  "before_last_dash s =
     (case dropWhile (\<lambda>c. c \<noteq> CHR ''-'') (rev s) of [] \<Rightarrow> None | _ # p \<Rightarrow> Some (rev p))"

definition carries_version :: "string \<Rightarrow> bool" where
  "carries_version s \<longleftrightarrow> list_ex c_isdigit (last_component s)"

fun strip_zeros :: "string \<Rightarrow> string" where
  "strip_zeros (c # d # cs) = (if c = CHR ''0'' then strip_zeros (d # cs) else c # d # cs)"
| "strip_zeros cs = cs"

definition carries_release :: "string \<Rightarrow> bool" where
  "carries_release s \<longleftrightarrow>
     (case before_last_dash s of
        None \<Rightarrow> False
      | Some p \<Rightarrow> last_component s \<noteq> [] \<and> list_all c_isdigit (last_component s)
          \<and> carries_version p)"

definition canon_base :: "string \<Rightarrow> string" where
  "canon_base s =
     (if carries_release s
      then (case before_last_dash s of
              None \<Rightarrow> s
            | Some p \<Rightarrow> p @ ''-'' @ strip_zeros (last_component s))
      else if carries_version s then s @ ''-1'' else s)"

lemma last_component_no_dash [simp]: "CHR ''-'' \<notin> set s \<Longrightarrow> last_component s = s"
  by (simp add: last_component_def takeWhile_absent)

lemma last_component_split [simp]:
  "CHR ''-'' \<notin> set r \<Longrightarrow> last_component (p @ CHR ''-'' # r) = r"
  by (simp add: last_component_def takeWhile_append)

lemma before_last_dash_none [simp]: "CHR ''-'' \<notin> set s \<Longrightarrow> before_last_dash s = None"
  by (simp add: before_last_dash_def dropWhile_absent)

lemma before_last_dash_split [simp]:
  "CHR ''-'' \<notin> set r \<Longrightarrow> before_last_dash (p @ CHR ''-'' # r) = Some p"
  by (simp add: before_last_dash_def dropWhile_append)

lemma has_version_snoc:
  "has_version (s @ [c]) (Suc (length s)) =
   (if c = CHR ''-'' then False else if c_isdigit c then True else has_version s (length s))"
  by (simp add: c_at_append has_version_append)

lemma has_version_iff: "has_version s (length s) \<longleftrightarrow> carries_version s"
proof (induction s rule: rev_induct)
  case Nil
  then show ?case by (simp add: carries_version_def last_component_def)
next
  case (snoc c s)
  then show ?case
    using has_version_snoc [of s c]
    by (auto simp: carries_version_def last_component_def simp del: has_version.simps)
qed

lemma carries_version_nonempty: "carries_version p \<Longrightarrow> p \<noteq> []"
  by (auto simp: carries_version_def last_component_def)

lemma is_release_iff:
  "is_release p r \<longleftrightarrow> r \<noteq> [] \<and> list_all c_isdigit r \<and> carries_version p"
  by (auto simp: is_release_def has_version_iff dest: carries_version_nonempty)

lemma carries_release_split:
  "CHR ''-'' \<notin> set r \<Longrightarrow> carries_release (p @ CHR ''-'' # r) \<longleftrightarrow> is_release p r"
  by (simp add: carries_release_def is_release_iff)

lemma carries_release_cases:
  assumes "carries_release s"
  obtains p r where "s = p @ CHR ''-'' # r" "is_release p r" "CHR ''-'' \<notin> set r"
proof (cases s rule: last_dash_cases)
  case none
  then show thesis using assms by (simp add: carries_release_def)
next
  case (split p r)
  then show thesis using that assms carries_release_split by blast
qed

lemma canon_base_release:
  assumes "is_release p r"
  shows "canon_base (p @ CHR ''-'' # r) = p @ CHR ''-'' # strip_zeros r"
proof -
  have "CHR ''-'' \<notin> set r" using assms by (simp add: is_release_def digits_no_dash)
  then show ?thesis using assms by (simp add: canon_base_def carries_release_split)
qed

lemma canon_base_version:
  "\<not> carries_release s \<Longrightarrow> carries_version s \<Longrightarrow> canon_base s = s @ ''-1''"
  by (simp add: canon_base_def)

lemma canon_base_bare:
  "\<not> carries_release s \<Longrightarrow> \<not> carries_version s \<Longrightarrow> canon_base s = s"
  by (simp add: canon_base_def)

lemma canon_base_cases:
  obtains (release) p r where "s = p @ CHR ''-'' # r" "is_release p r"
      "canon_base s = p @ CHR ''-'' # strip_zeros r"
    | (version) "\<not> carries_release s" "carries_version s" "canon_base s = s @ ''-1''"
    | (bare) "\<not> carries_release s" "\<not> carries_version s" "canon_base s = s"
proof (cases "carries_release s")
  case True
  then obtain p r where "s = p @ CHR ''-'' # r" "is_release p r" by (rule carries_release_cases)
  then show thesis using release canon_base_release by blast
next
  case False
  then show thesis using version bare canon_base_version canon_base_bare by blast
qed

subsection \<open>Leading zeros\<close>

lemma strip_zeros_set: "set (strip_zeros r) \<subseteq> set r"
  by (induction r rule: strip_zeros.induct) auto

lemma strip_zeros_nonempty: "r \<noteq> [] \<Longrightarrow> strip_zeros r \<noteq> []"
  by (induction r rule: strip_zeros.induct) auto

lemma strip_zeros_idem: "strip_zeros (strip_zeros r) = strip_zeros r"
  by (induction r rule: strip_zeros.induct) auto

lemma strip_zeros_length: "length (strip_zeros r) \<le> length r"
  by (induction r rule: strip_zeros.induct) auto

lemma skip_zeros_drop:
  "drop (skip_zeros (p @ r) (length p) (length p + length r)) (p @ r) = strip_zeros r"
proof (induction r arbitrary: p rule: strip_zeros.induct)
  case (1 c d cs)
  show ?case
  proof (cases "c = CHR ''0''")
    case True
    then show ?thesis
      using "1.IH" [OF True, of "p @ [c]"]
      by (subst skip_zeros.simps) (simp add: c_at_append)
  next
    case False
    then show ?thesis by (subst skip_zeros.simps) (simp add: c_at_append)
  qed
qed (subst skip_zeros.simps; simp)+

lemma is_release_strip: "is_release p r \<Longrightarrow> is_release p (strip_zeros r)"
  using strip_zeros_set [of r] strip_zeros_nonempty [of r] by (auto simp: is_release_def list_all_iff)

lemma carries_version_release: "is_release p r \<Longrightarrow> carries_version (p @ CHR ''-'' # r)"
  using digits_no_dash [of r]
  by (cases r) (auto simp: is_release_def carries_version_def)

lemma canon_base_idem: "canon_base (canon_base s) = canon_base s"
proof (cases s rule: canon_base_cases)
  case (release p r)
  then show ?thesis
    using canon_base_release [OF is_release_strip [OF release(2)]] strip_zeros_idem [of r]
    by simp
next
  case version
  have "is_release s ''1''"
    using version(2) by (simp add: is_release_iff c_isdigit_def byte_def)
  then show ?thesis using canon_base_release [of s "''1''"] version(3) by simp
next
  case bare
  then show ?thesis by simp
qed

lemma canon_base_hd: "s \<noteq> [] \<Longrightarrow> canon_base s \<noteq> [] \<and> hd (canon_base s) = hd s"
proof (cases s rule: canon_base_cases)
  case (release p r)
  then show ?thesis by (auto simp: is_release_def)
qed auto

lemma canon_base_length: "length (canon_base s) \<le> length s + 2"
proof (cases s rule: canon_base_cases)
  case (release p r)
  then show ?thesis using strip_zeros_length [of r] by simp
qed auto

lemma canon_base_chars:
  "list_all name_char_ok s \<Longrightarrow> list_all name_char_ok (canon_base s)"
proof (cases s rule: canon_base_cases)
  case (release p r)
  then show "list_all name_char_ok s \<Longrightarrow> ?thesis"
    using strip_zeros_set [of r] by (auto simp: list_all_iff)
qed (auto simp: name_char_ok_def c_isdigit_def byte_def)

lemma digits_last: "list_all c_isdigit r \<Longrightarrow> r \<noteq> [] \<Longrightarrow> c_isdigit (last r)"
  by (simp add: list_all_iff)

lemma digits_no_dotdot: "list_all c_isdigit r \<Longrightarrow> no_dotdot r"
  by (induction r rule: no_dotdot.induct) (auto simp: c_isdigit_def byte_def)

lemma no_dotdot_dash_Cons [simp]: "no_dotdot (CHR ''-'' # r) = no_dotdot r"
  by (cases r) auto

lemma no_dotdot_dash:
  "no_dotdot (p @ CHR ''-'' # r) \<longleftrightarrow> no_dotdot p \<and> no_dotdot r"
  by (simp add: no_dotdot_append)

lemma canon_base_no_dotdot:
  assumes "no_dotdot (s @ t)" and "s \<noteq> []"
  shows "no_dotdot (canon_base s @ t)"
proof (cases s rule: canon_base_cases)
  case (release p r)
  have d: "list_all c_isdigit (strip_zeros r)" "strip_zeros r \<noteq> []"
    using is_release_strip [OF release(2)] by (auto simp: is_release_def)
  then have "last (strip_zeros r) \<noteq> CHR ''.''"
    using digits_last by (fastforce simp: c_isdigit_def byte_def)
  then show ?thesis
    using assms release d digits_no_dotdot [of "strip_zeros r"]
    by (simp add: no_dotdot_append no_dotdot_dash)
next
  case version
  then show ?thesis using assms by (cases t) (simp_all add: no_dotdot_append)
next
  case bare
  then show ?thesis using assms by simp
qed

text \<open>Canonicalising a base that ends in no architecture does not make one appear.\<close>

definition ends_in_arch :: "string \<Rightarrow> bool" where
  "ends_in_arch s \<longleftrightarrow> (\<exists>a b. a \<in> set g_arches \<and> b \<noteq> [] \<and> s = b @ CHR ''-'' # a)"

lemma ends_in_arch_digits:
  assumes "list_all c_isdigit r"
  shows "\<not> ends_in_arch (p @ CHR ''-'' # r)"
proof
  assume "ends_in_arch (p @ CHR ''-'' # r)"
  then obtain a b where a: "a \<in> set g_arches" "p @ CHR ''-'' # r = b @ CHR ''-'' # a"
    by (auto simp: ends_in_arch_def)
  then have "r = a"
    using last_sep_unique [of "CHR ''-''" r a p b] g_arches_no_dash digits_no_dash [OF assms] by blast
  then show False using g_arches_letter a(1) assms by blast
qed

lemma canon_base_no_arch: "\<not> ends_in_arch s \<Longrightarrow> \<not> ends_in_arch (canon_base s)"
proof (cases s rule: canon_base_cases)
  case (release p r)
  then show ?thesis
    using ends_in_arch_digits [of "strip_zeros r" p] is_release_strip [OF release(2)]
    by (simp add: is_release_def)
next
  case version
  then show ?thesis using ends_in_arch_digits [of "''1''" s] by (simp add: c_isdigit_def byte_def)
qed auto

section \<open>The parts of a name\<close>

definition name_parts :: "string \<Rightarrow> string \<Rightarrow> string \<Rightarrow> bool" where
  "name_parts base ap ext \<longleftrightarrow>
     base \<noteq> [] \<and> ext \<in> set known_exts
     \<and> (ap = [] \<and> \<not> ends_in_arch base \<or> (\<exists>a \<in> set g_arches. ap = CHR ''-'' # a))"

lemma name_parts_suffix:
  "name_parts base ap ext \<Longrightarrow> store_suffix_of (base @ ap @ ext) = Some ext"
  using store_suffix_of_append [of ext "base @ ap"] by (auto simp: name_parts_def)

lemma name_parts_stem:
  "name_parts base ap ext \<Longrightarrow> stem_len (base @ ap @ ext) = length base + length ap"
  by (simp add: stem_len_def name_parts_suffix)

lemma name_parts_arch_offset:
  assumes "name_parts base ap ext"
  shows "arch_offset (base @ ap @ ext) (length base + length ap) =
    (if ap = [] then 0 else length base + 1)"
proof -
  let ?name = "base @ ap @ ext" and ?stem = "length base + length ap"
  have le: "?stem \<le> length ?name" and tk: "take ?stem ?name = base @ ap" by simp_all
  show ?thesis
  proof (cases "ap = []")
    case True
    then have "\<not> ends_in_arch base" using assms by (auto simp: name_parts_def)
    with le show ?thesis
      by (cases rule: arch_offset_cases) (use tk True in \<open>auto simp: ends_in_arch_def\<close>)
  next
    case False
    then obtain a where "a \<in> set g_arches" "ap = CHR ''-'' # a"
      using assms by (auto simp: name_parts_def)
    then show ?thesis
      using arch_offset_iff [of a base ?stem ?name] le tk assms by (simp add: name_parts_def)
  qed
qed

lemma name_parts_arch_of:
  assumes "name_parts base ap ext"
  shows "store_arch_of (base @ ap @ ext) = (if ap = [] then None else Some (tl ap))"
proof (cases "ap = []")
  case True
  then show ?thesis
    using name_parts_arch_offset [OF assms] name_parts_stem [OF assms]
    by (simp add: store_arch_of_def)
next
  case False
  then obtain a where a: "a \<in> set g_arches" "ap = CHR ''-'' # a"
    using assms by (auto simp: name_parts_def)
  have "find (\<lambda>x. x = a) g_arches = Some a"
    using a(1) by (auto simp: g_arches_def)
  moreover have "(c_strncmp (a @ ext) x (length a) = 0 \<and> length x = length a) \<longleftrightarrow> x = a" for x
    by (auto simp: c_strncmp_take)
  ultimately show ?thesis
    using name_parts_arch_offset [OF assms] name_parts_stem [OF assms] a(2)
    by (simp add: store_arch_of_def Let_def)
qed

lemma name_parts_exist:
  assumes "store_suffix_of name \<noteq> None"
  obtains base ap ext where "name_parts base ap ext" "name = base @ ap @ ext"
proof -
  obtain stem ext where s: "ext \<in> set known_exts" "stem \<noteq> []" "name = stem @ ext"
    by (rule store_suffix_of_cases [OF assms])
  show thesis
  proof (cases "ends_in_arch stem")
    case True
    then obtain a b where "a \<in> set g_arches" "b \<noteq> []" "stem = b @ CHR ''-'' # a"
      by (auto simp: ends_in_arch_def)
    then show thesis using that [of b "CHR ''-'' # a" ext] s by (auto simp: name_parts_def)
  next
    case False
    then show thesis using that [of stem "[]" ext] s by (auto simp: name_parts_def)
  qed
qed

section \<open>Canonical names\<close>

lemma skip_zeros_le: "z \<le> stem \<Longrightarrow> skip_zeros s z stem \<le> stem"
proof (induction s z stem rule: skip_zeros.induct)
  case (1 s z stem)
  then show ?case by (subst skip_zeros.simps) auto
qed

lemma known_exts_length: "ext \<in> set known_exts \<Longrightarrow> length ext \<le> 15"
  by (auto simp: known_exts_code)

lemma g_arches_length: "a \<in> set g_arches \<Longrightarrow> length a \<le> 7"
  by (auto simp: g_arches_def)

text \<open>The three branches of the code compute the canonical base.\<close>

lemma canonical_branch_release:
  assumes "release_offset b (length b) \<noteq> 0"
  shows "take (release_offset b (length b) - 1) (b @ t) @ ''-''
      @ take (length b - skip_zeros (b @ t) (release_offset b (length b)) (length b))
          (drop (skip_zeros (b @ t) (release_offset b (length b)) (length b)) (b @ t)) @ u
    = canon_base b @ u"
proof (cases b rule: release_offset_cases)
  case (some p r)
  let ?z = "skip_zeros b (Suc (length p)) (length b)"
  have "drop ?z b = strip_zeros r"
    using skip_zeros_drop [of "p @ ''-''" r] some(1) by simp
  moreover have "?z \<le> length b" by (rule skip_zeros_le) (simp add: some(1))
  then have "take (length b - ?z) (drop ?z (b @ t)) = drop ?z b" by simp
  moreover have "take (length p) (b @ t) = p" by (simp add: some(1))
  ultimately show ?thesis
    using some(3) canon_base_release [OF some(2)]
    by (simp add: skip_zeros_append some(1) [symmetric])
qed (use assms in simp)

lemma release_offset_0_iff: "release_offset s (length s) = 0 \<longleftrightarrow> \<not> carries_release s"
proof (cases s rule: release_offset_cases)
  case none
  then show ?thesis using carries_release_cases [of s] by metis
next
  case (some p r)
  then show ?thesis
    using carries_release_split [of r p] digits_no_dash [of r] by (simp add: is_release_def)
qed

lemma canonical_name_parts:
  assumes np: "name_parts base ap ext" and valid: "store_name_is_valid (base @ ap @ ext)"
  shows "store_canonical_name (base @ ap @ ext) n =
    canonical_emit n (base @ ap @ ext) (canon_base base @ ap @ ext)"
proof -
  let ?name = "base @ ap @ ext"
  note arch = name_parts_arch_offset [OF np]
  have len: "length (ap @ ext) < 80"
    using np known_exts_length [of ext] g_arches_length by (fastforce simp: name_parts_def)
  have stem: "(if arch_offset ?name (length base + length ap) \<noteq> 0
      then arch_offset ?name (length base + length ap) - 1 else length base + length ap) = length base"
    by (simp add: arch)
  have suffix: "(if arch_offset ?name (length base + length ap) \<noteq> 0
      then snprintf 80 (''-'' @ take (length base + length ap
          - arch_offset ?name (length base + length ap))
          (drop (arch_offset ?name (length base + length ap)) ?name) @ ext)
      else snprintf 80 ext) = ap @ ext"
    using np len by (auto simp: arch snprintf_def name_parts_def)
  have hv: "has_version ?name (length base) = carries_version base"
    by (simp add: has_version_append has_version_iff)
  have ro: "release_offset ?name (length base) = release_offset base (length base)"
    by (rule release_offset_append)
  have e: "length ?name - length ext = length base + length ap" by simp
  show ?thesis
    unfolding store_canonical_name_def Let_def name_parts_suffix [OF np] option.case e stem suffix hv ro
    using valid canonical_branch_release [of base "ap @ ext" "ap @ ext"] release_offset_0_iff [of base]
      canon_base_version [of base] canon_base_bare [of base]
    by (cases "carries_release base"; cases "carries_version base")
      (simp_all only: if_True if_False simp_thms append_assoc, simp_all)
qed

lemma name_parts_canon:
  "name_parts base ap ext \<Longrightarrow> name_parts (canon_base base) ap ext"
  using canon_base_hd [of base] canon_base_no_arch [of base] by (auto simp: name_parts_def)

lemma canonical_valid_parts:
  assumes np: "name_parts base ap ext" and valid: "store_name_is_valid (base @ ap @ ext)"
    and len: "length (canon_base base @ ap @ ext) < STORE_NAME_MAX"
  shows "store_name_is_valid (canon_base base @ ap @ ext)"
proof -
  have ne: "base \<noteq> []" using np by (simp add: name_parts_def)
  then have "canon_base base \<noteq> []" "hd (canon_base base) = hd base"
    using canon_base_hd by auto
  then show ?thesis
    using valid ne len canon_base_chars [of base] canon_base_no_dotdot [of base "ap @ ext"]
      name_parts_suffix [OF name_parts_canon [OF np]]
    by (auto simp: store_name_is_valid_iff)
qed

lemma canonical_cases:
  assumes "store_canonical_name name n = Some (k, out)"
  obtains base ap ext where "store_name_is_valid name" "name_parts base ap ext"
    "name = base @ ap @ ext" "out = canon_base base @ ap @ ext" "length out < n"
    "k = (if out \<noteq> name then 1 else 0)"
proof -
  have v: "store_name_is_valid name"
    using assms by (auto simp: store_canonical_name_def split: if_splits)
  then have "store_suffix_of name \<noteq> None" by (simp add: store_name_is_valid_iff)
  then obtain base ap ext where p: "name_parts base ap ext" "name = base @ ap @ ext"
    by (rule name_parts_exist)
  then show thesis
    using that [of base ap ext] assms v canonical_name_parts [OF p(1), of n]
    by (auto simp: canonical_emit_def snprintf_fits_def split: if_splits)
qed

text \<open>
  Fixed point and closure: what canonicalisation produces is a name the whitelist accepts, and
  canonicalising it again changes nothing.
\<close>

lemma canonical_closed:
  assumes "store_canonical_name name n = Some (k, out)" and "n \<le> STORE_NAME_MAX"
  shows "store_name_is_valid out \<and> store_canonical_name out n = Some (0, out)"
proof -
  obtain base ap ext where c: "store_name_is_valid name" "name_parts base ap ext"
    "name = base @ ap @ ext" "out = canon_base base @ ap @ ext" "length out < n"
    by (rule canonical_cases [OF assms(1)])
  have v: "store_name_is_valid (canon_base base @ ap @ ext)"
    using canonical_valid_parts [OF c(2)] c assms(2) by simp
  then show ?thesis
    using canonical_name_parts [OF name_parts_canon [OF c(2)] v, of n] c(4,5)
    by (simp add: canon_base_idem canonical_emit_def snprintf_fits_def)
qed

lemma canonical_total:
  assumes "store_name_is_valid name" and "length name + STORE_CANONICAL_GROWTH < n"
  shows "\<exists>k out. store_canonical_name name n = Some (k, out)"
proof -
  have "store_suffix_of name \<noteq> None" using assms(1) by (simp add: store_name_is_valid_iff)
  then obtain base ap ext where p: "name_parts base ap ext" "name = base @ ap @ ext"
    by (rule name_parts_exist)
  then show ?thesis
    using canonical_name_parts [OF p(1), of n] assms canon_base_length [of base]
    by (auto simp: canonical_emit_def snprintf_fits_def STORE_CANONICAL_GROWTH_def)
qed

lemma canonical_preserves_parts:
  assumes "store_canonical_name name n = Some (k, out)"
  shows "store_suffix_of out = store_suffix_of name \<and> store_arch_of out = store_arch_of name"
proof -
  obtain base ap ext where c: "name_parts base ap ext"
    "name = base @ ap @ ext" "out = canon_base base @ ap @ ext"
    by (rule canonical_cases [OF assms])
  note np = c(1) and np' = name_parts_canon [OF c(1)]
  show ?thesis
    unfolding c(2,3) name_parts_suffix [OF np] name_parts_suffix [OF np']
      name_parts_arch_of [OF np] name_parts_arch_of [OF np'] by simp
qed

section \<open>Signatures of names\<close>

lemma ext_is_signature_known:
  "ext \<in> set known_exts \<Longrightarrow> \<not> ext_is_signature ext \<Longrightarrow> ext @ STORE_SIG_EXT \<in> set known_exts"
proof -
  have "list_all (\<lambda>e. ext_is_signature e \<or> e @ STORE_SIG_EXT \<in> set known_exts) known_exts"
    by code_simp
  then show "ext \<in> set known_exts \<Longrightarrow> \<not> ext_is_signature ext \<Longrightarrow> ext @ STORE_SIG_EXT \<in> set known_exts"
    by (auto simp: list_all_iff)
qed

lemma store_is_signature_parts:
  "name_parts base ap ext \<Longrightarrow> store_is_signature (base @ ap @ ext) = ext_is_signature ext"
  by (simp add: store_is_signature_def name_parts_suffix)

lemma name_parts_signature:
  "name_parts base ap ext \<Longrightarrow> \<not> ext_is_signature ext \<Longrightarrow> name_parts base ap (ext @ STORE_SIG_EXT)"
  using ext_is_signature_known by (auto simp: name_parts_def)

lemma signature_valid_parts:
  assumes "name_parts base ap ext" and "\<not> ext_is_signature ext"
    and "store_name_is_valid (base @ ap @ ext)"
    and "length (base @ ap @ ext @ STORE_SIG_EXT) < STORE_NAME_MAX"
  shows "store_name_is_valid (base @ ap @ ext @ STORE_SIG_EXT)"
proof -
  have e: "ext \<noteq> []" "last ext \<noteq> CHR ''.''"
    using assms(1) by (auto simp: name_parts_def known_exts_code)
  have "no_dotdot ((base @ ap @ ext) @ STORE_SIG_EXT)"
    using assms(3) e by (subst no_dotdot_append)
      (auto simp: store_name_is_valid_iff STORE_SIG_EXT_def)
  moreover have "list_all name_char_ok STORE_SIG_EXT"
    by (simp add: STORE_SIG_EXT_def name_char_ok_def byte_def)
  moreover have "hd (base @ ap @ ext @ STORE_SIG_EXT) = hd (base @ ap @ ext)"
    using assms(1) by (simp add: name_parts_def)
  ultimately show ?thesis
    using assms(3,4) name_parts_suffix [OF name_parts_signature [OF assms(1,2)]]
    by (auto simp: store_name_is_valid_iff)
qed

text \<open>
  The signature of an artifact and the artifact of a signature canonicalise alike: a signature
  name derived from any spelling reaches the entry derived from the canonical one.
\<close>

lemma signature_canonical_commute:
  assumes "store_canonical_name name STORE_NAME_MAX = Some (k, out)"
    and "store_signature_name name STORE_NAME_MAX = Some sig"
    and "length out + length STORE_SIG_EXT < STORE_NAME_MAX"
  shows "\<exists>k'. store_canonical_name sig STORE_NAME_MAX = Some (k', out @ STORE_SIG_EXT)
    \<and> store_signature_name out STORE_NAME_MAX = Some (out @ STORE_SIG_EXT)"
proof -
  obtain base ap ext where c: "store_name_is_valid name" "name_parts base ap ext"
    "name = base @ ap @ ext" "out = canon_base base @ ap @ ext"
    by (rule canonical_cases [OF assms(1)])
  have ns: "\<not> ext_is_signature ext" and sig: "sig = base @ ap @ ext @ STORE_SIG_EXT"
    and len: "length sig < STORE_NAME_MAX"
    using assms(2) c(3) store_is_signature_parts [OF c(2)]
    by (auto simp: store_signature_name_def snprintf_fits_def split: if_splits)
  note nps = name_parts_signature [OF c(2) ns]
  have "store_name_is_valid sig"
    using signature_valid_parts [OF c(2) ns] c(1,3) sig len by simp
  then have "store_canonical_name sig STORE_NAME_MAX =
      canonical_emit STORE_NAME_MAX sig (out @ STORE_SIG_EXT)"
    using canonical_name_parts [OF nps] sig c(4) by simp
  moreover have "store_name_is_valid out"
    using canonical_closed [OF assms(1)] by simp
  moreover have "\<not> store_is_signature out"
    using store_is_signature_parts [OF name_parts_canon [OF c(2)]] ns c(4) by simp
  ultimately show ?thesis
    using assms(3)
    by (simp add: canonical_emit_def snprintf_fits_def store_signature_name_def)
qed

section \<open>Digests\<close>

lemma store_digest_is_valid_iff [code]:
  "store_digest_is_valid s \<longleftrightarrow> length s = STORE_SHA256_HEX_LEN \<and> list_all hex_lower s"
  by (auto simp: store_digest_is_valid_def list_all_length)

lemma hex_lower_no_slash: "hex_lower c \<Longrightarrow> c \<noteq> CHR ''/''"
  by (auto simp: hex_lower_def c_isdigit_def byte_def)

lemma digest_no_slash: "store_digest_is_valid d \<Longrightarrow> CHR ''/'' \<notin> set d"
  using hex_lower_no_slash by (auto simp: store_digest_is_valid_iff list_all_iff)

section \<open>The display split\<close>

text \<open>The number a run of digits writes, without any bound.\<close>

fun dec_value :: "int \<Rightarrow> string \<Rightarrow> int" where
  "dec_value v [] = v"
| "dec_value v (c # cs) = dec_value (v * 10 + (int (byte c) - 48)) cs"

lemma dec_value_mono: "list_all c_isdigit ds \<Longrightarrow> 0 \<le> v \<Longrightarrow> v \<le> dec_value v ds"
proof (induction ds arbitrary: v)
  case (Cons c ds)
  then have "v * 10 + (int (byte c) - 48) \<le> dec_value (v * 10 + (int (byte c) - 48)) ds"
    by (simp add: c_isdigit_def)
  then show ?case using Cons.prems by (simp add: c_isdigit_def)
qed simp

lemma release_value_eq:
  "list_all c_isdigit ds \<Longrightarrow> 0 \<le> v \<Longrightarrow> v \<le> INT_MAX \<Longrightarrow>
   release_value v ds = min INT_MAX (dec_value v ds)"
proof (induction ds arbitrary: v)
  case (Cons c ds)
  define d where "d = int (byte c) - 48"
  have d: "0 \<le> d" "d \<le> 9" using Cons.prems by (auto simp: d_def c_isdigit_def)
  show ?case
  proof (cases "v > (INT_MAX - d) div 10")
    case True
    then have "INT_MAX < v * 10 + d" by (simp add: INT_MAX_def)
    moreover have "v * 10 + d \<le> dec_value (v * 10 + d) ds"
      using dec_value_mono Cons.prems d by simp
    ultimately show ?thesis using True by (simp add: d_def [symmetric])
  next
    case False
    then have "v * 10 + d \<le> INT_MAX" by (simp add: INT_MAX_def)
    then show ?thesis using Cons d False by (simp add: d_def [symmetric])
  qed
qed (simp add: INT_MAX_def)

lemma dec_value_strip_zeros: "dec_value 0 (strip_zeros r) = dec_value 0 r"
  by (induction r rule: strip_zeros.induct) (auto simp: byte_def)

lemma release_value_strip_zeros:
  "list_all c_isdigit r \<Longrightarrow> release_value 0 (strip_zeros r) = release_value 0 r"
  using strip_zeros_set [of r] release_value_eq [of r 0] release_value_eq [of "strip_zeros r" 0]
  by (auto simp: dec_value_strip_zeros INT_MAX_def list_all_iff)

text \<open>The stem without its release, and the release as a number.\<close>

definition base_version :: "string \<Rightarrow> string" where
  "base_version s = (if carries_release s then the (before_last_dash s) else s)"

definition base_release :: "string \<Rightarrow> int" where
  "base_release s = (if carries_release s then release_value 0 (last_component s) else 1)"

lemma base_release_split:
  "is_release p r \<Longrightarrow> base_version (p @ CHR ''-'' # r) = p
    \<and> base_release (p @ CHR ''-'' # r) = release_value 0 r"
  using digits_no_dash [of r] carries_release_split [of r p]
  by (simp add: base_version_def base_release_def is_release_def)

lemma base_canon: "base_version (canon_base s) = base_version s \<and> base_release (canon_base s) = base_release s"
proof (cases s rule: canon_base_cases)
  case (release p r)
  then show ?thesis
    using base_release_split [OF release(2)] base_release_split [OF is_release_strip [OF release(2)]]
      release_value_strip_zeros [of r] by (simp add: is_release_def)
next
  case version
  have "is_release s ''1''" using version(2) by (simp add: is_release_iff c_isdigit_def byte_def)
  then show ?thesis
    using base_release_split [of s "''1''"] version
    by (simp add: base_version_def base_release_def INT_MAX_def byte_def)
qed simp

lemma starts_version_append:
  "i + 1 < length s \<Longrightarrow> starts_version (s @ t) (length s) i = starts_version s (length s) i"
  by (simp add: starts_version_def c_at_append Let_def)

lemma display_boundary_append:
  "display_boundary (s @ t) (length s) i = display_boundary s (length s) i"
proof (induction "length s - i" arbitrary: i rule: less_induct)
  case less
  show ?case
    using less.hyps [of "i + 1"]
    by (subst (1 2) display_boundary.simps) (simp add: starts_version_append c_at_append)
qed

lemma display_boundary_Some:
  "display_boundary s n j = Some i \<Longrightarrow> j \<le> i \<and> i + 1 < n \<and> c_at s i = CHR ''-''"
proof (induction s n j rule: display_boundary.induct)
  case (1 s n j)
  show ?case
    using "1.prems" "1.IH" by (subst (asm) display_boundary.simps) (auto split: if_splits)
qed

text \<open>What the display of a stem is, given the buffer sizes.\<close>

definition display_of :: "nat \<Rightarrow> nat \<Rightarrow> string \<Rightarrow> int \<Rightarrow> string \<Rightarrow> display" where
  "display_of nsz vsz b rel arch =
     (case display_boundary b (length b) 0 of
        Some i \<Rightarrow> \<lparr>d_name = snprintf nsz (take i b), d_version = snprintf vsz (drop (i + 1) b),
                   d_release = rel, d_arch = arch\<rparr>
      | None \<Rightarrow> \<lparr>d_name = snprintf nsz b, d_version = [], d_release = rel, d_arch = arch\<rparr>)"

lemma split_display_aux:
  assumes "rel = release_offset (b @ t) (length b)"
  shows "(if rel \<noteq> 0 then rel - 1 else length b) = length (base_version b)
    \<and> b @ t = base_version b @ drop (length (base_version b)) (b @ t)
    \<and> (if rel \<noteq> 0 then release_value 0 (take (length b - rel) (drop rel (b @ t))) else 1)
      = base_release b"
proof (cases b rule: release_offset_cases)
  case none
  then show ?thesis
    using assms by (simp add: release_offset_append release_offset_0_iff base_version_def base_release_def)
next
  case (some p r)
  have "rel = Suc (length p)" using assms some(3) by (simp add: release_offset_append)
  then show ?thesis
    using base_release_split [OF some(2)] by (simp add: some(1))
qed

lemma display_boundary_case:
  assumes "name = b @ t"
  shows "(case display_boundary name (length b) 0 of
      Some i \<Rightarrow> \<lparr>d_name = snprintf nsz (take i name),
        d_version = snprintf vsz (take (length b - i - 1) (drop (i + 1) name)),
        d_release = rel, d_arch = arch\<rparr>
    | None \<Rightarrow> \<lparr>d_name = snprintf nsz (take (length b) name), d_version = [],
        d_release = rel, d_arch = arch\<rparr>) = display_of nsz vsz b rel arch"
proof (cases "display_boundary b (length b) 0")
  case None
  then show ?thesis by (simp add: assms display_of_def display_boundary_append)
next
  case (Some i)
  then have "i + 1 < length b" using display_boundary_Some by blast
  then show ?thesis using Some by (simp add: assms display_of_def display_boundary_append)
qed

lemma split_display_parts:
  assumes np: "name_parts base ap ext"
  shows "store_split_display (base @ ap @ ext) nsz vsz asz =
    display_of nsz vsz (base_version base) (base_release base) (snprintf asz (tl ap))"
proof -
  let ?name = "base @ ap @ ext" and ?stem0 = "length base + length ap"
  define arch where "arch = arch_offset ?name ?stem0"
  have arch: "arch = (if ap = [] then 0 else length base + 1)"
    by (simp add: arch_def name_parts_arch_offset [OF np])
  have stem1: "(if arch \<noteq> 0 then arch - 1 else ?stem0) = length base"
    by (simp add: arch)
  have atext: "(if arch \<noteq> 0 then snprintf asz (take (?stem0 - arch) (drop arch ?name)) else []) =
      snprintf asz (tl ap)"
    using np by (auto simp: arch name_parts_def snprintf_def)
  note aux = split_display_aux [OF refl, of base "ap @ ext"]
  show ?thesis
    unfolding store_split_display_def Let_def name_parts_stem [OF np] arch_def [symmetric] stem1 atext
      aux [THEN conjunct1] aux [THEN conjunct2, THEN conjunct2]
    by (rule display_boundary_case [OF aux [THEN conjunct2, THEN conjunct1]])
qed

section \<open>Aliases\<close>

text \<open>
  What the store's entry points rely on: every accepted spelling has one canonical spelling,
  which is its own. Two spellings with the same canonical form are aliases of one entry.
\<close>

locale canonicalizer =
  fixes canon :: "'a \<Rightarrow> 'a option"
  assumes canon_fixed: "canon a = Some b \<Longrightarrow> canon b = Some b"
begin

lemma canon_idem: "Option.bind (canon a) canon = canon a"
  by (cases "canon a") (auto dest: canon_fixed)

lemma canon_alias: "canon a = Some b \<Longrightarrow> f (canon a) = f (canon b)"
  by (simp add: canon_fixed)

lemma canon_representative:
  assumes "canon a = Some c" and "canon c' = Some c'" and "canon a = canon c'"
  shows "c' = c"
  using assms by simp

lemma canon_image_iff: "(\<exists>a. canon a = Some b) \<longleftrightarrow> canon b = Some b"
  by (auto dest: canon_fixed)

end

text \<open>The canonical spelling as the store's entry points compute it, in a \<open>STORE_NAME_MAX\<close> buffer.\<close>

definition canon_of :: "string \<Rightarrow> string option" where
  "canon_of name = map_option snd (store_canonical_name name STORE_NAME_MAX)"

interpretation artifact: canonicalizer canon_of
  by unfold_locales (auto simp: canon_of_def dest: canonical_closed)

lemma canon_of_valid: "canon_of name = Some c \<Longrightarrow> store_name_is_valid name \<and> store_name_is_valid c"
  using canonical_closed [of name STORE_NAME_MAX]
  by (auto simp: canon_of_def elim: canonical_cases)

lemma split_display_canonical:
  assumes "store_canonical_name name n = Some (k, out)"
  shows "store_split_display out nsz vsz asz = store_split_display name nsz vsz asz"
proof -
  obtain base ap ext where c: "name_parts base ap ext" "name = base @ ap @ ext"
    "out = canon_base base @ ap @ ext" by (rule canonical_cases [OF assms])
  show ?thesis
    unfolding c(2,3) split_display_parts [OF c(1)] split_display_parts [OF name_parts_canon [OF c(1)]]
    by (simp add: base_canon)
qed

lemma name_char_ok_confined: "name_char_ok c \<Longrightarrow> c \<noteq> CHR ''/'' \<and> c \<noteq> NUL \<and> c \<noteq> CHR 0x0A"
  by (auto simp: name_char_ok_def c_isdigit_def byte_def)

section \<open>Properties of names\<close>

text \<open>
  A canonical name is a fixed point the whitelist accepts: whatever spelling
  \<^verbatim>\<open>store_canonical_name\<close> is given, what it writes is a valid name, canonicalises to itself with
  code 0, and has the suffix and the architecture of the spelling it came from. This is what
  makes a non-canonical request an alias of exactly one entry.
\<close>

theorem canonical_name_fixed_point:
  assumes "store_canonical_name name STORE_NAME_MAX = Some (k, out)"
  shows "store_name_is_valid out \<and> store_canonical_name out STORE_NAME_MAX = Some (0, out)
    \<and> store_suffix_of out = store_suffix_of name \<and> store_arch_of out = store_arch_of name
    \<and> (k = 0 \<longleftrightarrow> out = name)"
proof -
  have "k = 0 \<longleftrightarrow> out = name" by (rule canonical_cases [OF assms]) auto
  then show ?thesis
    using canonical_closed [OF assms] canonical_preserves_parts [OF assms] by simp
qed

theorem canonical_name_fixed_point_witness:
  "store_canonical_name ''zlib-1.3.1-007-x86_64.tar.gz'' STORE_NAME_MAX
      = Some (1, ''zlib-1.3.1-7-x86_64.tar.gz'')
   \<and> store_canonical_name ''zlib-1.3.1-7-x86_64.tar.gz'' STORE_NAME_MAX
      = Some (0, ''zlib-1.3.1-7-x86_64.tar.gz'')"
proof -
  have run: "store_canonical_name ''zlib-1.3.1-007-x86_64.tar.gz'' STORE_NAME_MAX
      = Some (1, ''zlib-1.3.1-7-x86_64.tar.gz'')" by code_simp
  show ?thesis using run canonical_name_fixed_point [OF run] by simp
qed

text \<open>
  C27. The index arithmetic of \<^verbatim>\<open>store_canonical_name\<close> (stem, architecture, release and zero
  offsets, and the copy through the 80-byte suffix buffer) computes the reference reading: the
  name falls into a base, an optional architecture and a suffix, and the result is the base in
  canonical form followed by the other two unchanged, or -1 exactly when that does not fit.
\<close>

theorem canonical_name_reference:
  assumes "store_name_is_valid name"
  shows "\<exists>base ap ext. name_parts base ap ext \<and> name = base @ ap @ ext
    \<and> store_canonical_name name n =
      (let out = canon_base base @ ap @ ext
       in if length out < n then Some (if out = name then 0 else 1, out) else None)"
proof -
  have "store_suffix_of name \<noteq> None" using assms by (simp add: store_name_is_valid_iff)
  then obtain base ap ext where p: "name_parts base ap ext" "name = base @ ap @ ext"
    by (rule name_parts_exist)
  then show ?thesis
    using canonical_name_parts [OF p(1), of n] assms
    by (intro exI [of _ base] exI [of _ ap] exI [of _ ext])
      (simp add: canonical_emit_def snprintf_fits_def Let_def)
qed

theorem canonical_name_reference_witness:
  "\<exists>base ap ext. name_parts base ap ext \<and> ''gcc-14.2.tar.gz'' = base @ ap @ ext
    \<and> store_canonical_name ''gcc-14.2.tar.gz'' 64 =
      (let out = canon_base base @ ap @ ext
       in if length out < 64 then Some (if out = ''gcc-14.2.tar.gz'' then 0 else 1, out) else None)"
proof -
  have "store_name_is_valid ''gcc-14.2.tar.gz''" by code_simp
  then show ?thesis by (rule canonical_name_reference)
qed

text \<open>
  \<^verbatim>\<open>STORE_CANONICAL_GROWTH\<close> is enough: a valid name always has a canonical form in a buffer
  with that much room beyond the name and its terminator, so -1 on a valid name means only
  that the buffer was too small.
\<close>

theorem canonical_name_growth:
  assumes "store_name_is_valid name" and "length name + STORE_CANONICAL_GROWTH < n"
  shows "\<exists>k out. store_canonical_name name n = Some (k, out)
    \<and> length out \<le> length name + STORE_CANONICAL_GROWTH"
proof -
  obtain k out where r: "store_canonical_name name n = Some (k, out)"
    using canonical_total [OF assms] by blast
  obtain base ap ext where "name = base @ ap @ ext" "out = canon_base base @ ap @ ext"
    by (rule canonical_cases [OF r])
  then have "length out \<le> length name + STORE_CANONICAL_GROWTH"
    using canon_base_length [of base] by (simp add: STORE_CANONICAL_GROWTH_def)
  then show ?thesis using r by blast
qed

theorem canonical_name_growth_witness:
  "\<exists>k out. store_canonical_name ''a1.iso'' 10 = Some (k, out)
    \<and> length out \<le> length ''a1.iso'' + STORE_CANONICAL_GROWTH"
proof -
  have "store_name_is_valid ''a1.iso''" and "length ''a1.iso'' + STORE_CANONICAL_GROWTH < 10"
    by code_simp+
  then show ?thesis by (rule canonical_name_growth)
qed

text \<open>
  The whitelist confines a name to one directory entry: a name \<^verbatim>\<open>store_name_is_valid\<close> accepts
  has no slash, no NUL, no newline and no two dots in a row, does not start with a dot, fits a
  \<^verbatim>\<open>STORE_NAME_MAX\<close> buffer and carries a recognised suffix after a non-empty stem.
\<close>

theorem valid_name_confined:
  assumes "store_name_is_valid name"
  shows "CHR ''/'' \<notin> set name \<and> NUL \<notin> set name \<and> CHR 0x0A \<notin> set name
    \<and> (\<nexists>p q. name = p @ ''..'' @ q) \<and> (\<nexists>q. name = CHR ''.'' # q)
    \<and> 0 < length name \<and> length name < STORE_NAME_MAX
    \<and> (\<exists>stem ext. stem \<noteq> [] \<and> ext \<in> set (map sfx_ext g_suffixes) \<and> name = stem @ ext)"
proof -
  have v: "name \<noteq> []" "hd name \<noteq> CHR ''.''" "length name < STORE_NAME_MAX" "list_all name_char_ok name"
    "no_dotdot name" "store_suffix_of name \<noteq> None"
    using assms by (auto simp: store_name_is_valid_iff)
  have chars: "CHR ''/'' \<notin> set name" "NUL \<notin> set name" "CHR 0x0A \<notin> set name"
    using v(4) name_char_ok_confined by (auto simp: list_all_iff)
  have dots: "\<nexists>p q. name = p @ ''..'' @ q" "\<nexists>q. name = CHR ''.'' # q"
    using v(2,5) no_dotdot_iff [of name] by auto
  obtain stem ext where "ext \<in> set known_exts" "stem \<noteq> []" "name = stem @ ext"
    by (rule store_suffix_of_cases [OF v(6)])
  then have "\<exists>stem ext. stem \<noteq> [] \<and> ext \<in> set (map sfx_ext g_suffixes) \<and> name = stem @ ext"
    unfolding known_exts_def by blast
  then show ?thesis using chars dots v(1,3) by (intro conjI) simp_all
qed

theorem valid_name_confined_witness:
  "CHR ''/'' \<notin> set ''bash-5.2-1-aarch64.cixpkg'' \<and> length ''bash-5.2-1-aarch64.cixpkg'' < STORE_NAME_MAX"
proof -
  have "store_name_is_valid ''bash-5.2-1-aarch64.cixpkg''" by code_simp
  note c = valid_name_confined [OF this]
  show ?thesis
    using c [THEN conjunct1] c [THEN conjunct2, THEN conjunct2, THEN conjunct2, THEN conjunct2,
      THEN conjunct2, THEN conjunct2, THEN conjunct1] by (rule conjI)
qed

text \<open>
  A signature belongs to an artifact whatever the spelling: when an artifact name and its
  canonical form both leave room for the signature suffix, the signature of the name
  canonicalises to the signature of the canonical name. \<^verbatim>\<open>store_unpublish\<close> and the signature gate of
  the server rest on this when they look a signature up from the caller's spelling.
\<close>

theorem signature_of_alias:
  assumes "canon_of name = Some out"
    and "store_signature_name name STORE_NAME_MAX = Some sig"
    and "length out + length STORE_SIG_EXT < STORE_NAME_MAX"
  shows "canon_of sig = store_signature_name out STORE_NAME_MAX
    \<and> canon_of sig = Some (out @ STORE_SIG_EXT)"
proof -
  obtain k where "store_canonical_name name STORE_NAME_MAX = Some (k, out)"
    using assms(1) by (auto simp: canon_of_def)
  from signature_canonical_commute [OF this assms(2,3)] show ?thesis
    by (auto simp: canon_of_def)
qed

theorem signature_of_alias_witness:
  "canon_of ''cix-1.0.iso.minisig'' = Some (''cix-1.0-1.iso'' @ STORE_SIG_EXT)"
proof -
  have "canon_of ''cix-1.0.iso'' = Some ''cix-1.0-1.iso''"
    and "store_signature_name ''cix-1.0.iso'' STORE_NAME_MAX = Some ''cix-1.0.iso.minisig''"
    and "length ''cix-1.0-1.iso'' + length STORE_SIG_EXT < STORE_NAME_MAX"
    by code_simp+
  from signature_of_alias [OF this] show ?thesis by (rule conjunct2)
qed

text \<open>
  Canonicalising a name does not change how it is displayed: package name, version, release
  and architecture come out the same for every spelling of an artifact, whatever buffer sizes
  the caller passes. In particular a missing release and release 1 are displayed alike.
\<close>

theorem display_alias_invariant:
  assumes "store_canonical_name name n = Some (k, out)"
  shows "store_split_display out nsz vsz asz = store_split_display name nsz vsz asz"
  by (rule split_display_canonical [OF assms])

theorem display_alias_invariant_witness:
  "store_split_display ''zlib-1.3.1-7.tar.gz'' 64 64 16 = store_split_display ''zlib-1.3.1-007.tar.gz'' 64 64 16
   \<and> d_release (store_split_display ''zlib-1.3.1-7.tar.gz'' 64 64 16) = 7
   \<and> d_version (store_split_display ''zlib-1.3.1-7.tar.gz'' 64 64 16) = ''1.3.1''"
proof -
  have run: "store_canonical_name ''zlib-1.3.1-007.tar.gz'' 64 = Some (1, ''zlib-1.3.1-7.tar.gz'')"
    by code_simp
  have "d_release (store_split_display ''zlib-1.3.1-7.tar.gz'' 64 64 16) = 7"
    and "d_version (store_split_display ''zlib-1.3.1-7.tar.gz'' 64 64 16) = ''1.3.1''" by code_simp+
  then show ?thesis using display_alias_invariant [OF run, of 64 64 16] by simp
qed

text \<open>
  The release number never overflows an \<^verbatim>\<open>int\<close>: for any run of digits, however long, the digit
  loop of \<^verbatim>\<open>store_split_display\<close> yields the number the digits write, or \<^verbatim>\<open>INT_MAX\<close> when that number
  is larger, and so always a value an \<^verbatim>\<open>int\<close> can hold.
\<close>

theorem release_clamped:
  assumes "list_all c_isdigit ds"
  shows "release_value 0 ds = min INT_MAX (dec_value 0 ds)
    \<and> 0 \<le> release_value 0 ds \<and> release_value 0 ds \<le> INT_MAX"
  using release_value_eq [OF assms, of 0] dec_value_mono [OF assms, of 0]
  by (simp add: INT_MAX_def)

theorem release_clamped_witness:
  "release_value 0 ''2147483648'' = INT_MAX \<and> release_value 0 ''2147483646'' = 2147483646"
proof -
  have "list_all c_isdigit ''2147483648''" and "list_all c_isdigit ''2147483646''" by code_simp+
  note r = release_clamped [OF this(1)] release_clamped [OF this(2)]
  have "dec_value 0 ''2147483648'' = 2147483648" and "dec_value 0 ''2147483646'' = 2147483646"
    by code_simp+
  then show ?thesis using r by (simp add: INT_MAX_def del: release_value.simps dec_value.simps)
qed

end
