(* ===== verification/Store_Policy.thy ===== *)
theory Store_Policy
  imports Store_Names
begin

text \<open>
  The signature policy (\<^verbatim>\<open>store_set_signature_policy\<close> in \<^verbatim>\<open>src/src/store.c\<close>): which suffixes
  may not be published unsigned. The loop over the operator's list is modelled as written and
  related to a split of the list at its commas.
\<close>

section \<open>The signature policy setter\<close>

definition policy_blank :: "char \<Rightarrow> bool" where
  "policy_blank c \<longleftrightarrow> c = CHR '' '' \<or> c = CHR 0x09"

definition policy_sep :: "char \<Rightarrow> bool" where
  "policy_sep c \<longleftrightarrow> c = CHR '','' \<or> policy_blank c"

definition policy_rtrim :: "string \<Rightarrow> string" where
  "policy_rtrim s = rev (dropWhile policy_blank (rev s))"

text \<open>
  The inner loop over the table: the first row the entry names, with or without the leading
  dot, has its \<open>require_sig\<close> set, unless it is a signature's row; \<open>None\<close> is \<open>found = 0\<close>.
\<close>

fun policy_mark :: "string \<Rightarrow> suffix_table \<Rightarrow> suffix_table option" where
  "policy_mark entry [] = None"
| "policy_mark entry (s # ss) =
     (if entry = sfx_ext s \<or> entry = tl (sfx_ext s)
      then (if ext_is_signature (sfx_ext s) then None else Some (s\<lparr>sfx_require_sig := True\<rparr> # ss))
      else map_option ((#) s) (policy_mark entry ss))"

lemma policy_rest_shorter:
  "dropWhile policy_sep p \<noteq> [] \<Longrightarrow>
   length (dropWhile (\<lambda>c. c \<noteq> CHR '','') (dropWhile policy_sep p)) < length p"
proof -
  assume ne: "dropWhile policy_sep p \<noteq> []"
  then obtain c cs where d: "dropWhile policy_sep p = c # cs" by (cases "dropWhile policy_sep p") auto
  then have "c \<noteq> CHR '',''"
    using hd_dropWhile [OF ne] by (auto simp: policy_sep_def)
  then have "length (dropWhile (\<lambda>c. c \<noteq> CHR '','') (dropWhile policy_sep p)) \<le> length cs"
    by (simp add: d length_dropWhile_le)
  also have "\<dots> < length p"
    using d length_dropWhile_le [of policy_sep p] by simp
  finally show ?thesis .
qed

text \<open>
  The outer loop: \<open>p\<close> is the rest of the list, \<open>bad\<close> the buffer of size \<open>bad_size\<close> (0 when the
  caller passes none), \<open>rc\<close> the code so far. An entry of 64 characters or more does not fit
  the local buffer and is passed over.
\<close>

function policy_loop ::
  "nat \<Rightarrow> string \<Rightarrow> int \<Rightarrow> string \<Rightarrow> suffix_table \<Rightarrow> int \<times> string \<times> suffix_table" where
  "policy_loop bad_size p rc bad tbl =
     (let start = dropWhile policy_sep p
      in if start = [] then (rc, bad, tbl)
         else
           (let entry = policy_rtrim (takeWhile (\<lambda>c. c \<noteq> CHR '','') start);
                rest = dropWhile (\<lambda>c. c \<noteq> CHR '','') start
            in if entry = [] \<or> length entry \<ge> 64 then policy_loop bad_size rest rc bad tbl
               else
                 (case policy_mark entry tbl of
                    Some tbl' \<Rightarrow> policy_loop bad_size rest rc bad tbl'
                  | None \<Rightarrow>
                      policy_loop bad_size rest (- 1)
                        (if bad_size \<noteq> 0 \<and> bad = [] then snprintf bad_size entry else bad) tbl)))"
  by pat_completeness auto
termination
  by (relation "measure (\<lambda>(bad_size, p, rc, bad, tbl). length p)")
    (auto intro: policy_rest_shorter)

declare policy_loop.simps [simp del]

definition store_set_signature_policy ::
  "string option \<Rightarrow> nat \<Rightarrow> suffix_table \<Rightarrow> int \<times> string \<times> suffix_table" where
  "store_set_signature_policy list bad_size tbl =
     (let cleared = map (\<lambda>s. s\<lparr>sfx_require_sig := False\<rparr>) tbl
      in case list of
           None \<Rightarrow> (0, [], cleared)
         | Some p \<Rightarrow> policy_loop bad_size p 0 [] cleared)"


section \<open>The signature policy\<close>

text \<open>
  The reference reading of the list: comma separated, blanks around an entry dropped, empty
  entries dropped.
\<close>

fun split_commas :: "string \<Rightarrow> string list" where
  "split_commas [] = [[]]"
| "split_commas (c # s) =
     (if c = CHR '','' then [] # split_commas s
      else (c # hd (split_commas s)) # tl (split_commas s))"

definition policy_trim :: "string \<Rightarrow> string" where
  "policy_trim s = policy_rtrim (dropWhile policy_blank s)"

definition policy_entries :: "string \<Rightarrow> string list" where
  "policy_entries s = filter (\<lambda>e. e \<noteq> []) (map policy_trim (split_commas s))"

lemma split_commas_nonempty: "split_commas s \<noteq> []"
  by (cases s) auto

lemma split_commas_takeWhile:
  "split_commas s = takeWhile (\<lambda>c. c \<noteq> CHR '','') s #
     (case dropWhile (\<lambda>c. c \<noteq> CHR '','') s of [] \<Rightarrow> [] | _ # r \<Rightarrow> split_commas r)"
  by (induction s) auto

lemma policy_entries_Nil [simp]: "policy_entries [] = []"
  by (simp add: policy_entries_def policy_trim_def policy_rtrim_def)

lemma policy_entries_comma [simp]: "policy_entries (CHR '','' # s) = policy_entries s"
  by (simp add: policy_entries_def policy_trim_def policy_rtrim_def)

lemma policy_blank_not_comma: "policy_blank c \<Longrightarrow> c \<noteq> CHR '',''"
  by (auto simp: policy_blank_def)

lemma policy_entries_blank: "policy_blank c \<Longrightarrow> policy_entries (c # s) = policy_entries s"
  using split_commas_nonempty [of s] policy_blank_not_comma [of c]
  by (cases "split_commas s") (auto simp: policy_entries_def policy_trim_def)

lemma policy_entries_sep: "policy_entries (dropWhile policy_sep s) = policy_entries s"
  by (induction s) (auto simp: policy_sep_def policy_entries_blank)

lemma policy_rtrim_nonempty:
  assumes "s \<noteq> []" and "\<not> policy_blank (hd s)"
  shows "policy_rtrim s \<noteq> []"
proof
  assume "policy_rtrim s = []"
  then have "\<forall>c \<in> set (rev s). policy_blank c" by (simp add: policy_rtrim_def)
  then show False using assms by (cases s) auto
qed

lemma policy_entries_step:
  assumes "dropWhile policy_sep p = start" and "start \<noteq> []"
  shows "policy_entries p = policy_rtrim (takeWhile (\<lambda>c. c \<noteq> CHR '','') start)
    # policy_entries (dropWhile (\<lambda>c. c \<noteq> CHR '','') start)"
proof -
  have hd: "\<not> policy_sep (hd start)" using hd_dropWhile [of policy_sep p] assms by simp
  then have blank: "\<not> policy_blank (hd start)" and comma: "hd start \<noteq> CHR '',''"
    by (auto simp: policy_sep_def)
  define e where "e = takeWhile (\<lambda>c. c \<noteq> CHR '','') start"
  have e: "e \<noteq> []" "hd e = hd start" using comma assms(2) by (cases start; simp add: e_def)+
  have trim: "policy_trim e = policy_rtrim e"
    using e blank by (cases e) (auto simp: policy_trim_def)
  have ne: "policy_rtrim e \<noteq> []" using policy_rtrim_nonempty e blank by simp
  have rest: "policy_entries (dropWhile (\<lambda>c. c \<noteq> CHR '','') start) =
      filter (\<lambda>e. e \<noteq> []) (map policy_trim
        (case dropWhile (\<lambda>c. c \<noteq> CHR '','') start of [] \<Rightarrow> [] | _ # r \<Rightarrow> split_commas r))"
  proof (cases "dropWhile (\<lambda>c. c \<noteq> CHR '','') start")
    case (Cons c r)
    then have "c = CHR '',''" using hd_dropWhile [of "\<lambda>c. c \<noteq> CHR '',''" start] by simp
    then show ?thesis using Cons by simp (simp add: policy_entries_def)
  next
    case Nil
    show ?thesis unfolding Nil by simp
  qed
  have "policy_entries p = policy_entries start"
    using policy_entries_sep [of p] assms(1) by simp
  also have "\<dots> = policy_rtrim e # filter (\<lambda>e. e \<noteq> []) (map policy_trim
        (case dropWhile (\<lambda>c. c \<noteq> CHR '','') start of [] \<Rightarrow> [] | _ # r \<Rightarrow> split_commas r))"
    unfolding policy_entries_def [of start] split_commas_takeWhile [of start]
    by (simp add: e_def [symmetric] trim ne)
  finally show ?thesis by (simp add: rest e_def)
qed

text \<open>One entry of the list, and the loop as a fold over the entries.\<close>

definition policy_step ::
  "nat \<Rightarrow> int \<times> string \<times> suffix_table \<Rightarrow> string \<Rightarrow> int \<times> string \<times> suffix_table" where
  "policy_step bad_size st entry =
     (case st of (rc, bad, tbl) \<Rightarrow>
        if length entry \<ge> 64 then (rc, bad, tbl)
        else (case policy_mark entry tbl of
                Some tbl' \<Rightarrow> (rc, bad, tbl')
              | None \<Rightarrow> (- 1, if bad_size \<noteq> 0 \<and> bad = [] then snprintf bad_size entry else bad, tbl)))"

lemma policy_loop_fold:
  "policy_loop bs p rc bad tbl = foldl (policy_step bs) (rc, bad, tbl) (policy_entries p)"
proof (induction bs p rc bad tbl rule: policy_loop.induct)
  case (1 bs p rc bad tbl)
  define start where "start = dropWhile policy_sep p"
  define entry where "entry = policy_rtrim (takeWhile (\<lambda>c. c \<noteq> CHR '','') start)"
  define rest where "rest = dropWhile (\<lambda>c. c \<noteq> CHR '','') start"
  show ?case
  proof (cases "start = []")
    case True
    then have "policy_entries p = []"
      using policy_entries_sep [of p] unfolding start_def by (metis policy_entries_Nil)
    then show ?thesis using True by (subst policy_loop.simps) (simp add: start_def)
  next
    case False
    have step: "policy_entries p = entry # policy_entries rest"
      using policy_entries_step [OF _ False] by (simp add: start_def entry_def rest_def)
    then have ne: "entry \<noteq> []" by (auto simp: policy_entries_def dest: filter_eq_ConsD)
    note IH = "1.IH" [OF start_def _ entry_def rest_def]
    show ?thesis
    proof (cases "length entry \<ge> 64")
      case True
      then have "policy_loop bs p rc bad tbl = policy_loop bs rest rc bad tbl"
        using False by (subst policy_loop.simps) (simp add: Let_def flip: start_def entry_def rest_def)
      then show ?thesis using IH(1) [OF False] True by (simp add: step policy_step_def)
    next
      case short: False
      show ?thesis
      proof (cases "policy_mark entry tbl")
        case None
        then have "policy_loop bs p rc bad tbl =
          policy_loop bs rest (- 1) (if bs \<noteq> 0 \<and> bad = [] then snprintf bs entry else bad) tbl"
          using False short ne
          by (subst policy_loop.simps) (simp add: Let_def flip: start_def entry_def rest_def)
        then show ?thesis using IH(2) [OF False _ None] None short ne by (simp add: step policy_step_def)
      next
        case (Some tbl')
        then have "policy_loop bs p rc bad tbl = policy_loop bs rest rc bad tbl'"
          using False short ne
          by (subst policy_loop.simps) (simp add: Let_def flip: start_def entry_def rest_def)
        then show ?thesis using IH(3) [OF False _ Some] Some short ne by (simp add: step policy_step_def)
      qed
    qed
  qed
qed

lemma policy_mark_columns:
  "policy_mark e tbl = Some tbl' \<Longrightarrow>
   map sfx_ext tbl' = map sfx_ext tbl \<and> map sfx_installer tbl' = map sfx_installer tbl"
  by (induction tbl arbitrary: tbl') (auto split: if_splits)

lemma policy_fold_columns:
  "map sfx_ext (snd (snd (foldl (policy_step bs) (rc, bad, tbl) es))) = map sfx_ext tbl
   \<and> map sfx_installer (snd (snd (foldl (policy_step bs) (rc, bad, tbl) es))) = map sfx_installer tbl"
proof (induction es arbitrary: rc bad tbl)
  case (Cons e es)
  then show ?case
    using policy_mark_columns [of e tbl] by (auto simp: policy_step_def split: option.splits)
qed simp

text \<open>An entry names a row when it is the row's suffix, with or without the leading dot.\<close>

definition names_ext :: "string \<Rightarrow> string \<Rightarrow> bool" where
  "names_ext e ext \<longleftrightarrow> length e < 64 \<and> (e = ext \<or> e = tl ext) \<and> \<not> ext_is_signature ext"

lemma known_exts_unique:
  assumes "e = x \<or> e = tl x" and "e = y \<or> e = tl y" and "x \<in> set known_exts" and "y \<in> set known_exts"
  shows "x = y"
proof -
  have "list_all (\<lambda>x. list_all (\<lambda>y. x = y \<or> (x \<noteq> tl y \<and> tl x \<noteq> y \<and> tl x \<noteq> tl y)) known_exts) known_exts"
    by code_simp
  then show ?thesis using assms by (auto simp: list_all_iff)
qed

lemma policy_mark_None:
  assumes "set (map sfx_ext tbl) \<subseteq> set known_exts" and "length e < 64"
  shows "policy_mark e tbl = None \<longleftrightarrow> (\<nexists>s. s \<in> set tbl \<and> names_ext e (sfx_ext s))"
  using assms(1)
proof (induction tbl)
  case (Cons t tbl)
  show ?case
  proof (cases "e = sfx_ext t \<or> e = tl (sfx_ext t)")
    case True
    have "sfx_ext s = sfx_ext t" if "s \<in> set tbl" "names_ext e (sfx_ext s)" for s
      by (rule known_exts_unique [of e]) (use that True Cons.prems in \<open>auto simp: names_ext_def\<close>)
    then have "(\<exists>s. s \<in> set (t # tbl) \<and> names_ext e (sfx_ext s)) \<longleftrightarrow> names_ext e (sfx_ext t)"
      by auto
    moreover have "policy_mark e (t # tbl) = None \<longleftrightarrow> \<not> names_ext e (sfx_ext t)"
      using True assms(2) by (simp add: names_ext_def)
    ultimately show ?thesis by simp
  next
    case False
    then show ?thesis using Cons by (auto simp: names_ext_def)
  qed
qed simp

definition required_exts :: "suffix_table \<Rightarrow> string set" where
  "required_exts tbl = sfx_ext ` {s \<in> set tbl. sfx_require_sig s}"

lemma required_exts_simps [simp]:
  "required_exts [] = {}"
  "required_exts (s # tbl) = (if sfx_require_sig s then insert (sfx_ext s) (required_exts tbl)
     else required_exts tbl)"
  by (auto simp: required_exts_def)

lemma policy_mark_require:
  assumes "set (map sfx_ext tbl) \<subseteq> set known_exts" and "distinct (map sfx_ext tbl)"
    and "length e < 64" and "policy_mark e tbl = Some tbl'"
  shows "required_exts tbl' = required_exts tbl \<union> {x \<in> set (map sfx_ext tbl). names_ext e x}"
  using assms(1,2,4)
proof (induction tbl arbitrary: tbl')
  case (Cons t tbl)
  show ?case
  proof (cases "e = sfx_ext t \<or> e = tl (sfx_ext t)")
    case True
    have other: "\<not> names_ext e x" if "x \<in> set (map sfx_ext tbl)" for x
    proof
      assume "names_ext e x"
      then have "x = sfx_ext t"
        by (intro known_exts_unique [of e]) (use True that Cons.prems(1) in \<open>auto simp: names_ext_def\<close>)
      then show False using that Cons.prems(2) by auto
    qed
    have "tbl' = t\<lparr>sfx_require_sig := True\<rparr> # tbl" "names_ext e (sfx_ext t)"
      using True Cons.prems(3) assms(3) by (auto simp: names_ext_def split: if_splits)
    then show ?thesis using other by auto
  next
    case False
    then obtain u where u: "policy_mark e tbl = Some u" "tbl' = t # u" using Cons.prems(3) by auto
    have "required_exts u = required_exts tbl \<union> {x \<in> set (map sfx_ext tbl). names_ext e x}"
      using Cons.IH [OF _ _ u(1)] Cons.prems by simp
    moreover have "\<not> names_ext e (sfx_ext t)" using False by (simp add: names_ext_def)
    ultimately show ?thesis using u(2) by auto
  qed
qed simp

lemma policy_step_require:
  assumes "map sfx_ext tbl = known_exts"
  shows "required_exts (snd (snd (policy_step bs (rc, bad, tbl) e))) =
      required_exts tbl \<union> {x \<in> set known_exts. names_ext e x}
    \<and> map sfx_ext (snd (snd (policy_step bs (rc, bad, tbl) e))) = known_exts
    \<and> (fst (policy_step bs (rc, bad, tbl) e) =
        (if length e < 64 \<and> \<not> (\<exists>x \<in> set known_exts. names_ext e x) then - 1 else rc))"
proof -
  have d: "distinct known_exts" by code_simp
  have sets: "set (map sfx_ext tbl) \<subseteq> set known_exts" using assms by simp
  have img: "set known_exts = sfx_ext ` set tbl" using assms by (metis set_map)
  show ?thesis
  proof (cases "length e < 64")
    case True
    show ?thesis
    proof (cases "policy_mark e tbl")
      case None
      then have "\<not> names_ext e x" if "x \<in> set known_exts" for x
        using policy_mark_None [OF sets True] that img by auto
      then show ?thesis using None True assms by (auto simp: policy_step_def)
    next
      case (Some t)
      then have "\<exists>x \<in> set known_exts. names_ext e x"
        using policy_mark_None [OF sets True] img by auto
      then show ?thesis
        using policy_mark_require [OF sets _ True Some] policy_mark_columns [OF Some] d Some True assms
        by (simp add: policy_step_def)
    qed
  next
    case False
    then show ?thesis using assms by (auto simp: policy_step_def names_ext_def)
  qed
qed

lemma policy_fold_require:
  assumes "map sfx_ext tbl = known_exts"
  shows "required_exts (snd (snd (foldl (policy_step bs) (rc, bad, tbl) es))) =
      required_exts tbl \<union> {x \<in> set known_exts. \<exists>e \<in> set es. names_ext e x}
    \<and> fst (foldl (policy_step bs) (rc, bad, tbl) es) =
      (if \<exists>e \<in> set es. length e < 64 \<and> \<not> (\<exists>x \<in> set known_exts. names_ext e x) then - 1 else rc)"
  using assms
proof (induction es arbitrary: rc bad tbl)
  case (Cons e es)
  obtain rc' bad' tbl' where st: "policy_step bs (rc, bad, tbl) e = (rc', bad', tbl')"
    by (metis prod.exhaust)
  note s = policy_step_require [OF Cons.prems, of bs rc bad e, unfolded st fst_conv snd_conv]
  note IH = Cons.IH [of tbl' rc' bad', OF s [THEN conjunct2, THEN conjunct1]]
  show ?case
    using s IH by (auto simp: st)
qed simp

text \<open>
  The policy setter: the suffixes that require a signature are exactly those the list names,
  and the code is -1 exactly when an entry short enough to be looked up names none.
\<close>

lemma set_signature_policy_require:
  assumes "map sfx_ext tbl = known_exts"
    and "store_set_signature_policy (Some list) bs tbl = (rc, bad, tbl')"
  shows "required_exts tbl' = {x \<in> set known_exts. \<exists>e \<in> set (policy_entries list). names_ext e x}
    \<and> rc = (if \<exists>e \<in> set (policy_entries list). length e < 64
               \<and> \<not> (\<exists>x \<in> set known_exts. names_ext e x) then - 1 else 0)
    \<and> map sfx_ext tbl' = known_exts \<and> map sfx_installer tbl' = map sfx_installer tbl"
proof -
  define t0 where "t0 = map (\<lambda>s. s\<lparr>sfx_require_sig := False\<rparr>) tbl"
  have t0: "map sfx_ext t0 = known_exts" "map sfx_installer t0 = map sfx_installer tbl"
    "required_exts t0 = {}"
    using assms(1) by (auto simp: t0_def required_exts_def comp_def)
  have "foldl (policy_step bs) (0, [], t0) (policy_entries list) = (rc, bad, tbl')"
    using assms(2) by (simp add: store_set_signature_policy_def policy_loop_fold t0_def)
  then show ?thesis
    using policy_fold_require [OF t0(1), of bs 0 "[]" "policy_entries list"]
      policy_fold_columns [of bs 0 "[]" t0 "policy_entries list"] t0 by simp
qed

lemma store_needs_signature_iff:
  assumes "map sfx_ext tbl = known_exts"
  shows "store_needs_signature tbl name \<longleftrightarrow>
    (case store_suffix_of name of None \<Rightarrow> False | Some ext \<Rightarrow> ext \<in> required_exts tbl)"
proof -
  have eq: "map_option sfx_ext (suffix_record tbl name) = store_suffix_of name"
    using suffix_ext_policy_independent [of tbl g_suffixes name] assms
    by (simp add: store_suffix_of_def known_exts_def)
  show ?thesis
  proof (cases "suffix_record tbl name")
    case None
    then show ?thesis using eq by (simp add: store_needs_signature_def flip: eq)
  next
    case (Some s)
    have inj: "t = s" if "t \<in> set tbl" "sfx_ext t = sfx_ext s" for t
    proof -
      have "distinct (map sfx_ext tbl)" unfolding assms by code_simp
      then show ?thesis
        using that suffix_record_Some [OF Some] by (auto simp: distinct_map dest: inj_onD)
    qed
    then have "sfx_ext s \<in> required_exts tbl \<longleftrightarrow> sfx_require_sig s"
      using suffix_record_Some [OF Some] by (auto simp: required_exts_def)
    then show ?thesis using Some by (simp add: store_needs_signature_def flip: eq)
  qed
qed

section \<open>Properties of the policy\<close>

text \<open>
  The signature policy is exactly the list: after \<^verbatim>\<open>store_set_signature_policy\<close> a name needs a
  signature if and only if its suffix is one the list names (with or without its dot, trimmed,
  and never a signature suffix); whatever policy was set before is gone; the suffix and
  installer columns are untouched; and the code is -1 exactly when some entry of fewer than 64
  characters names no suffix.
\<close>

theorem signature_policy_exact:
  assumes "map sfx_ext tbl = map sfx_ext g_suffixes"
    and "store_set_signature_policy (Some list) bs tbl = (rc, bad, tbl')"
  shows "store_needs_signature tbl' name =
      (case store_suffix_of name of None \<Rightarrow> False
       | Some ext \<Rightarrow> \<exists>e \<in> set (policy_entries list). names_ext e ext)
    \<and> map sfx_ext tbl' = map sfx_ext tbl \<and> map sfx_installer tbl' = map sfx_installer tbl
    \<and> rc = (if \<exists>e \<in> set (policy_entries list). length e < 64
               \<and> (\<nexists>x. x \<in> set known_exts \<and> names_ext e x) then - 1 else 0)"
proof -
  have k: "map sfx_ext tbl = known_exts" using assms(1) by (simp add: known_exts_def)
  note r = set_signature_policy_require [OF k assms(2)]
  have "ext \<in> set known_exts" if "store_suffix_of name = Some ext" for ext
    using that by (simp add: store_suffix_of_Some_iff)
  then show ?thesis
    using r k store_needs_signature_iff [of tbl' name] by (auto split: option.splits)
qed

theorem signature_policy_exact_witness:
  "\<exists>rc bad tbl. store_set_signature_policy (Some '' cixpkg, .tar.gz'') 64 g_suffixes = (rc, bad, tbl)
    \<and> rc = 0 \<and> store_needs_signature tbl ''a-1.tar.gz'' \<and> \<not> store_needs_signature tbl ''a-1.iso''"
proof -
  obtain rc bad tbl where run: "store_set_signature_policy (Some '' cixpkg, .tar.gz'') 64 g_suffixes = (rc, bad, tbl)"
    by (metis prod.exhaust)
  have e: "policy_entries '' cixpkg, .tar.gz'' = [''cixpkg'', ''.tar.gz'']" by code_simp
  have s: "store_suffix_of ''a-1.tar.gz'' = Some ''.tar.gz''" "store_suffix_of ''a-1.iso'' = Some ''.iso''"
    by code_simp+
  have n: "names_ext ''.tar.gz'' ''.tar.gz''" "\<not> names_ext ''.tar.gz'' ''.iso''" "\<not> names_ext ''cixpkg'' ''.iso''"
    "names_ext ''cixpkg'' ''.cixpkg''" "''.cixpkg'' \<in> set known_exts" "''.tar.gz'' \<in> set known_exts"
    by code_simp+
  note r = signature_policy_exact [OF refl run]
  show ?thesis
    using run r [of "''a-1.tar.gz''"] r [of "''a-1.iso''"] n by (auto simp: e s)
qed

end
