(* ===== verification/Store_Version.thy ===== *)
theory Store_Version
  imports Store_Canonical
begin

text \<open>
  Version order (\<^verbatim>\<open>part_cmp\<close>, \<^verbatim>\<open>store_version_cmp\<close>, \<^verbatim>\<open>cmp_by_version\<close>, \<^verbatim>\<open>store_rank_versions\<close> and the
  listing comparators of \<^verbatim>\<open>src/src/store.c\<close>). A pointer into a string is the rest of the string
  it points at. The reference is a comparison of token lists; the lemmas show that the pointer
  code computes it, that every comparator handed to \<^verbatim>\<open>qsort\<close> is one, and what the ranks are.
\<close>

section \<open>Entries\<close>

record store_entry =
  e_name :: string
  e_digest :: string
  e_size :: int
  e_mtime :: int
  e_version_rank :: int

section \<open>Comparing versions\<close>

definition vdigit :: "char \<Rightarrow> bool" where
  "vdigit c \<longleftrightarrow> 48 \<le> byte c \<and> byte c \<le> 57"

definition vsep :: "char \<Rightarrow> bool" where
  "vsep c \<longleftrightarrow> c = CHR ''.'' \<or> c = CHR ''_'' \<or> c = CHR ''+'' \<or> c = CHR ''~'' \<or> c = CHR ''-''"

text \<open>\<open>while (sa + 1 < a && *sa == '0') sa++\<close> on the run between \<open>sa\<close> and \<open>a\<close>.\<close>

fun skip_lead_zeros :: "string \<Rightarrow> string" where
  "skip_lead_zeros (c # d # cs) = (if c = CHR ''0'' then skip_lead_zeros (d # cs) else c # d # cs)"
| "skip_lead_zeros cs = cs"

text \<open>The run of text or the single separator a pointer is at.\<close>

definition text_run :: "string \<Rightarrow> string" where
  "text_run s =
     (case s of [] \<Rightarrow> []
      | c # cs \<Rightarrow> if vsep c then [c] else takeWhile (\<lambda>x. \<not> vdigit x \<and> \<not> vsep x) s)"

lemma text_run_pos: "\<not> vdigit a \<Longrightarrow> 0 < length (text_run (a # as))"
  by (auto simp: text_run_def)

function part_cmp :: "string \<Rightarrow> string \<Rightarrow> int" where
  "part_cmp [] [] = 0"
| "part_cmp [] (b # bs) = - 1"
| "part_cmp (a # as) [] = 1"
| "part_cmp (a # as) (b # bs) =
     (let da = vdigit a; db = vdigit b
      in if da \<and> db then
           (let ra = takeWhile vdigit (a # as); rb = takeWhile vdigit (b # bs);
                sa = skip_lead_zeros ra; sb = skip_lead_zeros rb
            in if length sa \<noteq> length sb then (if length sa < length sb then - 1 else 1)
               else let r = c_strncmp sa sb (length sa)
                    in if r \<noteq> 0 then (if r < 0 then - 1 else 1)
                       else part_cmp (dropWhile vdigit (a # as)) (dropWhile vdigit (b # bs)))
         else if da \<noteq> db then (if da then 1 else - 1)
         else
           (let la = length (text_run (a # as)); lb = length (text_run (b # bs));
                r = c_strncmp (a # as) (b # bs) (min la lb)
            in if r \<noteq> 0 then (if r < 0 then - 1 else 1)
               else if la \<noteq> lb then (if la < lb then - 1 else 1)
               else part_cmp (drop la (a # as)) (drop lb (b # bs))))"
  by pat_completeness auto
termination
proof (relation "measure (\<lambda>(a, b). length a)", simp, goal_cases)
  case (1 a as b bs)
  then show ?case using length_dropWhile_le [of vdigit as] by simp
next
  case (2 a as b bs)
  then show ?case using text_run_pos [of a as] text_run_pos [of b bs] by simp
qed

declare part_cmp.simps(4) [simp del]

definition skip_v :: "string \<Rightarrow> string" where
  "skip_v a = (if c_at a 0 = CHR ''v'' \<and> vdigit (c_at a 1) then tl a else a)"

text \<open>The text before the first hyphen, and the pointer behind it (\<open>None\<close> is NULL).\<close>

definition split_pre :: "string \<Rightarrow> string \<times> string option" where
  "split_pre a =
     (snprintf STORE_NAME_MAX (takeWhile (\<lambda>c. c \<noteq> CHR ''-'') a),
      case dropWhile (\<lambda>c. c \<noteq> CHR ''-'') a of [] \<Rightarrow> None | _ # p \<Rightarrow> Some p)"

definition store_version_cmp :: "string \<Rightarrow> string \<Rightarrow> int" where
  "store_version_cmp a b =
     (let (amain, apre) = split_pre (skip_v a);
          (bmain, bpre) = split_pre (skip_v b);
          r = part_cmp amain bmain
      in if r \<noteq> 0 then r
         else case (apre, bpre) of
           (None, None) \<Rightarrow> 0
         | (None, Some _) \<Rightarrow> 1
         | (Some _, None) \<Rightarrow> - 1
         | (Some p, Some q) \<Rightarrow> part_cmp p q)"

definition cmp_by_version :: "store_entry \<Rightarrow> store_entry \<Rightarrow> int" where
  "cmp_by_version x y =
     (let dx = store_split_display (e_name x) STORE_NAME_MAX STORE_NAME_MAX 0;
          dy = store_split_display (e_name y) STORE_NAME_MAX STORE_NAME_MAX 0;
          r = store_version_cmp (d_version dx) (d_version dy)
      in if r \<noteq> 0 then r
         else if d_release dx \<noteq> d_release dy then (if d_release dx < d_release dy then - 1 else 1)
         else c_strcmp (e_name x) (e_name y))"

text \<open>
  The array of pointers is the list of indices it points at; \<open>nomem\<close> says whether \<open>malloc\<close>
  fails.
\<close>

definition rank_order :: "store_entry list \<Rightarrow> nat list" where
  "rank_order v = c_qsort (\<lambda>i j. cmp_by_version (v ! i) (v ! j)) [0..<length v]"

fun write_ranks :: "store_entry list \<Rightarrow> nat list \<Rightarrow> nat \<Rightarrow> store_entry list" where
  "write_ranks v [] i = v"
| "write_ranks v (p # ps) i = write_ranks (v[p := (v ! p)\<lparr>e_version_rank := int i\<rparr>]) ps (i + 1)"

definition store_rank_versions :: "bool \<Rightarrow> store_entry list \<Rightarrow> store_entry list" where
  "store_rank_versions nomem v =
     (if v = [] then v
      else if nomem then map (\<lambda>e. e\<lparr>e_version_rank := 0\<rparr>) v
      else write_ranks v (rank_order v) 0)"

definition store_cmp_newest :: "store_entry \<Rightarrow> store_entry \<Rightarrow> int" where
  "store_cmp_newest x y =
     (if e_mtime x \<noteq> e_mtime y then (if e_mtime x < e_mtime y then 1 else - 1)
      else c_strcmp (e_name x) (e_name y))"

definition store_cmp_name :: "store_entry \<Rightarrow> store_entry \<Rightarrow> int" where
  "store_cmp_name x y = c_strcmp (e_name x) (e_name y)"

section \<open>Token lists\<close>

text \<open>The reference: a version is a list of numbers and texts, and a number outranks a text.\<close>

datatype vtoken = VText string | VNum int

fun vtoken_cmp :: "vtoken \<Rightarrow> vtoken \<Rightarrow> int" where
  "vtoken_cmp (VNum m) (VNum n) = int_cmp m n"
| "vtoken_cmp (VText s) (VText t) = c_strcmp s t"
| "vtoken_cmp (VNum m) (VText t) = 1"
| "vtoken_cmp (VText s) (VNum n) = - 1"

function vtokens :: "string \<Rightarrow> vtoken list" where
  "vtokens [] = []"
| "vtokens (a # as) =
     (if vdigit a
      then VNum (dec_value 0 (takeWhile vdigit (a # as))) # vtokens (dropWhile vdigit (a # as))
      else VText (text_run (a # as)) # vtokens (drop (length (text_run (a # as))) (a # as)))"
  by pat_completeness auto
termination
proof (relation "measure length", simp, goal_cases)
  case (1 a as)
  then show ?case using length_dropWhile_le [of vdigit as] by simp
next
  case (2 a as)
  then show ?case using text_run_pos [of a as] by auto
qed

declare vtokens.simps(2) [simp del]

subsection \<open>Numbers\<close>

lemma vdigit_isdigit: "vdigit = c_isdigit"
  by (auto simp: vdigit_def c_isdigit_def fun_eq_iff)

lemma skip_lead_zeros_strip: "skip_lead_zeros = strip_zeros"
proof
  show "skip_lead_zeros r = strip_zeros r" for r
    by (induction r rule: skip_lead_zeros.induct) auto
qed

lemma dec_value_split: "dec_value v ds = v * 10 ^ length ds + dec_value 0 ds"
proof (induction ds arbitrary: v)
  case (Cons c ds)
  show ?case
    using Cons.IH [of "v * 10 + (int (byte c) - 48)"] Cons.IH [of "int (byte c) - 48"]
    by (simp add: algebra_simps)
qed simp

lemma dec_value_bounds: "list_all c_isdigit ds \<Longrightarrow> 0 \<le> dec_value 0 ds \<and> dec_value 0 ds < 10 ^ length ds"
proof (induction ds)
  case (Cons c ds)
  define d where "d = int (byte c) - 48"
  have d: "0 \<le> d" "d \<le> 9" using Cons.prems by (auto simp: d_def c_isdigit_def)
  have le: "d * 10 ^ length ds \<le> 9 * 10 ^ length ds" using d by (intro mult_right_mono) auto
  have "0 \<le> d * 10 ^ length ds" using d by simp
  moreover have "0 \<le> dec_value 0 ds" "dec_value 0 ds < 10 ^ length ds" using Cons by auto
  moreover have "dec_value 0 (c # ds) = d * 10 ^ length ds + dec_value 0 ds"
    using dec_value_split [of d ds] by (simp add: d_def)
  moreover have "(10::int) ^ length (c # ds) = 10 * 10 ^ length ds" by simp
  ultimately show ?case using le by linarith
qed simp

lemma dec_value_same_length:
  "list_all c_isdigit xs \<Longrightarrow> list_all c_isdigit ys \<Longrightarrow> length xs = length ys \<Longrightarrow>
   int_cmp (dec_value 0 xs) (dec_value 0 ys) = c_strcmp xs ys"
proof (induction xs ys rule: list_induct2')
  case (4 x xs y ys)
  define dx where "dx = int (byte x) - 48"
  define dy where "dy = int (byte y) - 48"
  let ?p = "10 ^ length xs :: int"
  have b: "0 \<le> dec_value 0 xs" "dec_value 0 xs < ?p" "0 \<le> dec_value 0 ys" "dec_value 0 ys < ?p"
    using dec_value_bounds [of xs] dec_value_bounds [of ys] "4.prems" by auto
  have v: "dec_value 0 (x # xs) = dx * ?p + dec_value 0 xs" "dec_value 0 (y # ys) = dy * ?p + dec_value 0 ys"
    using dec_value_split [of dx xs] dec_value_split [of dy ys] "4.prems"(3) by (simp_all add: dx_def dy_def)
  consider "dx < dy" | "dx = dy" | "dx > dy" by linarith
  then show ?case
  proof cases
    case 1
    then have "(dx + 1) * ?p \<le> dy * ?p" by (intro mult_right_mono) auto
    then have "dec_value 0 (x # xs) < dec_value 0 (y # ys)" unfolding v using b by (simp add: algebra_simps)
    then show ?thesis using 1
      by (simp add: int_cmp_def c_strcmp_def char_cmp_def dx_def dy_def)
  next
    case 2
    then have "x = y" by (simp add: dx_def dy_def)
    have "int_cmp (dec_value 0 (x # xs)) (dec_value 0 (y # ys)) = int_cmp (dec_value 0 xs) (dec_value 0 ys)"
      unfolding v 2 by (simp add: int_cmp_def)
    then show ?thesis using "4.IH" "4.prems" \<open>x = y\<close>
      by (simp add: c_strcmp_def del: dec_value.simps)
  next
    case 3
    then have "(dy + 1) * ?p \<le> dx * ?p" by (intro mult_right_mono) auto
    then have "dec_value 0 (y # ys) < dec_value 0 (x # xs)" unfolding v using b by (simp add: algebra_simps)
    then show ?thesis using 3
      by (simp add: int_cmp_def c_strcmp_def char_cmp_def dx_def dy_def)
  qed
qed (auto simp: int_cmp_def c_strcmp_def)

lemma strip_zeros_hd: "1 < length (strip_zeros r) \<Longrightarrow> hd (strip_zeros r) \<noteq> CHR ''0''"
  by (induction r rule: strip_zeros.induct) auto

lemma strip_zeros_digits: "list_all c_isdigit r \<Longrightarrow> list_all c_isdigit (strip_zeros r)"
  using strip_zeros_set [of r] by (auto simp: list_all_iff)

lemma dec_value_longer:
  assumes "list_all c_isdigit xs" and "list_all c_isdigit ys" and "length xs < length ys"
    and "xs \<noteq> []" and "hd ys \<noteq> CHR ''0''"
  shows "dec_value 0 xs < dec_value 0 ys"
proof -
  obtain y ys' where ys: "ys = y # ys'" using assms(3) by (cases ys) auto
  have "48 < byte y"
  proof -
    have "byte y \<noteq> byte (CHR ''0'')" using assms(5) ys by (simp only: byte_eq_iff list.sel) simp
    moreover have "48 \<le> byte y" using assms(2) ys by (simp add: c_isdigit_def)
    ultimately show ?thesis by (simp add: byte_def)
  qed
  then have "1 * 10 ^ length ys' \<le> (int (byte y) - 48) * 10 ^ length ys'" by (intro mult_right_mono) auto
  moreover have "dec_value 0 ys = (int (byte y) - 48) * 10 ^ length ys' + dec_value 0 ys'"
    using dec_value_split [of "int (byte y) - 48" ys'] ys by simp
  moreover have "0 \<le> dec_value 0 ys'" using dec_value_bounds [of ys'] assms(2) ys by simp
  moreover have "dec_value 0 xs < 10 ^ length xs" using dec_value_bounds assms(1) by blast
  moreover have "(10::int) ^ length xs \<le> 10 ^ length ys'" using assms(3) ys by (intro power_increasing) auto
  ultimately show ?thesis by linarith
qed

text \<open>Comparing lengths and then digits of zero-stripped runs compares the numbers.\<close>

lemma digit_runs_compare:
  assumes "list_all c_isdigit ra" and "list_all c_isdigit rb" and "ra \<noteq> []" and "rb \<noteq> []"
  shows "int_cmp (dec_value 0 ra) (dec_value 0 rb) =
    (let sa = strip_zeros ra; sb = strip_zeros rb
     in if length sa \<noteq> length sb then (if length sa < length sb then - 1 else 1)
        else c_strcmp sa sb)"
proof -
  let ?sa = "strip_zeros ra" and ?sb = "strip_zeros rb"
  have d: "list_all c_isdigit ?sa" "list_all c_isdigit ?sb" using assms strip_zeros_digits by auto
  have ne: "?sa \<noteq> []" "?sb \<noteq> []" using assms strip_zeros_nonempty by auto
  consider "length ?sa < length ?sb" | "length ?sb < length ?sa" | "length ?sa = length ?sb" by linarith
  then show ?thesis
  proof cases
    case 1
    then have "hd ?sb \<noteq> CHR ''0''" using strip_zeros_hd [of rb] ne(1) by (cases ?sa) auto
    then show ?thesis
      using dec_value_longer [OF d 1 ne(1)] 1 by (simp add: dec_value_strip_zeros int_cmp_def)
  next
    case 2
    then have "hd ?sa \<noteq> CHR ''0''" using strip_zeros_hd [of ra] ne(2) by (cases ?sb) auto
    then show ?thesis
      using dec_value_longer [OF d(2,1) 2 ne(2)] 2 by (simp add: dec_value_strip_zeros int_cmp_def)
  next
    case 3
    then show ?thesis using dec_value_same_length [OF d 3] by (simp add: dec_value_strip_zeros)
  qed
qed

subsection \<open>The pointer code compares token lists\<close>

lemma c_strcmp_range: "c_strcmp s t = - 1 \<or> c_strcmp s t = 0 \<or> c_strcmp s t = 1"
proof -
  have "lex_cmp char_cmp s t \<in> {- 1, 0, 1}"
    by (induction char_cmp s t rule: lex_cmp.induct) (auto simp: char_cmp_def int_cmp_def)
  then show ?thesis by (simp add: c_strcmp_def)
qed

lemma c_strcmp_self [simp]: "c_strcmp s s = 0"
  by simp

lemma c_strcmp_sign: "(if c_strcmp s t < 0 then - 1 else 1) = (c_strcmp s t :: int) \<or> c_strcmp s t = 0"
  using c_strcmp_range [of s t] by auto

lemma c_strcmp_prefix:
  "c_strcmp xs ys =
     (let r = c_strncmp xs ys (min (length xs) (length ys))
      in if r \<noteq> 0 then r
         else if length xs \<noteq> length ys then (if length xs < length ys then - 1 else 1) else 0)"
proof (induction xs ys rule: list_induct2')
  case (4 x xs y ys)
  then show ?case
    by (cases "x = y") (auto simp: c_strcmp_def c_strncmp_def Let_def)
qed (auto simp: c_strcmp_def c_strncmp_def)

lemma text_run_take: "text_run s = take (length (text_run s)) s"
  by (auto simp: text_run_def takeWhile_eq_take [symmetric] split: list.splits)

lemma text_run_le: "length (text_run s) \<le> length s"
  by (metis length_take min.cobounded2 nat_le_linear take_all text_run_take)

lemma text_runs_compare:
  "c_strcmp (text_run s) (text_run t) =
     (let la = length (text_run s); lb = length (text_run t); r = c_strncmp s t (min la lb)
      in if r \<noteq> 0 then r else if la \<noteq> lb then (if la < lb then - 1 else 1) else 0)"
proof -
  have "c_strncmp (text_run s) (text_run t) (min (length (text_run s)) (length (text_run t)))
      = c_strncmp s t (min (length (text_run s)) (length (text_run t)))"
    unfolding c_strncmp_def by (metis min.cobounded1 min.cobounded2 min_def take_take text_run_take)
  then show ?thesis by (subst c_strcmp_prefix) (simp add: Let_def)
qed

lemma digit_run: "vdigit a \<Longrightarrow> list_all c_isdigit (takeWhile vdigit (a # as)) \<and> takeWhile vdigit (a # as) \<noteq> []"
  by (auto simp: list_all_iff vdigit_isdigit dest: set_takeWhileD)

lemma part_cmp_tokens: "part_cmp a b = lex_cmp vtoken_cmp (vtokens a) (vtokens b)"
proof (induction a b rule: part_cmp.induct)
  case (2 b bs)
  then show ?case by (simp add: vtokens.simps(2))
next
  case (3 a as)
  then show ?case by (simp add: vtokens.simps(2))
next
  case (4 a as b bs)
  consider (num) "vdigit a" "vdigit b" | (mixed) "vdigit a \<noteq> vdigit b" | (texts) "\<not> vdigit a" "\<not> vdigit b"
    by blast
  then show ?case
  proof cases
    case num
    define ra where "ra = takeWhile vdigit (a # as)"
    define rb where "rb = takeWhile vdigit (b # bs)"
    define sa where "sa = strip_zeros ra"
    define sb where "sb = strip_zeros rb"
    have runs: "int_cmp (dec_value 0 ra) (dec_value 0 rb) =
        (if length sa \<noteq> length sb then (if length sa < length sb then - 1 else 1) else c_strcmp sa sb)"
      using digit_runs_compare [of ra rb] digit_run [of a as] digit_run [of b bs] num
      by (simp add: ra_def rb_def sa_def sb_def)
    have eq: "part_cmp (a # as) (b # bs) =
      (if length sa \<noteq> length sb then (if length sa < length sb then - 1 else 1)
       else let r = c_strncmp sa sb (length sa)
            in if r \<noteq> 0 then (if r < 0 then - 1 else 1)
               else part_cmp (dropWhile vdigit (a # as)) (dropWhile vdigit (b # bs)))"
      using num by (simp add: part_cmp.simps(4) Let_def sa_def sb_def ra_def rb_def skip_lead_zeros_strip)
    have IH: "part_cmp (dropWhile vdigit (a # as)) (dropWhile vdigit (b # bs)) =
        lex_cmp vtoken_cmp (vtokens (dropWhile vdigit (a # as))) (vtokens (dropWhile vdigit (b # bs)))"
      if "length sa = length sb" "c_strncmp sa sb (length sa) = 0"
      by (rule "4.IH"(1) [OF refl refl _ refl refl refl refl _ refl]) (use num that in \<open>simp_all add: sa_def sb_def ra_def rb_def skip_lead_zeros_strip\<close>)
    have toks: "lex_cmp vtoken_cmp (vtokens (a # as)) (vtokens (b # bs)) =
      (if int_cmp (dec_value 0 ra) (dec_value 0 rb) \<noteq> 0 then int_cmp (dec_value 0 ra) (dec_value 0 rb)
       else lex_cmp vtoken_cmp (vtokens (dropWhile vdigit (a # as))) (vtokens (dropWhile vdigit (b # bs))))"
      using num by (simp add: vtokens.simps(2) ra_def rb_def del: dec_value.simps)
    have len: "length sa = length sb \<Longrightarrow> c_strncmp sa sb (length sa) = c_strcmp sa sb"
      by (simp add: c_strncmp_def)
    show ?thesis
    proof (cases "length sa = length sb \<and> c_strcmp sa sb = 0")
      case True
      then show ?thesis unfolding eq toks runs using IH len by (simp add: Let_def)
    next
      case False
      then show ?thesis
        unfolding eq toks runs using len c_strcmp_sign [of sa sb] by (auto simp: Let_def simp del: c_strcmp_eq)
    qed
  next
    case mixed
    then show ?thesis by (auto simp: part_cmp.simps(4) vtokens.simps(2) Let_def)
  next
    case texts
    define la where "la = length (text_run (a # as))"
    define lb where "lb = length (text_run (b # bs))"
    define r where "r = c_strncmp (a # as) (b # bs) (min la lb)"
    have runs: "c_strcmp (text_run (a # as)) (text_run (b # bs)) =
        (if r \<noteq> 0 then r else if la \<noteq> lb then (if la < lb then - 1 else 1) else 0)"
      by (simp add: text_runs_compare la_def lb_def r_def Let_def)
    have eq: "part_cmp (a # as) (b # bs) =
      (if r \<noteq> 0 then (if r < 0 then - 1 else 1)
       else if la \<noteq> lb then (if la < lb then - 1 else 1)
       else part_cmp (drop la (a # as)) (drop lb (b # bs)))"
      using texts by (simp add: part_cmp.simps(4) Let_def la_def lb_def r_def)
    have IH: "part_cmp (drop la (a # as)) (drop lb (b # bs)) =
        lex_cmp vtoken_cmp (vtokens (drop la (a # as))) (vtokens (drop lb (b # bs)))"
      if "r = 0" "la = lb"
      unfolding la_def lb_def
      by (rule "4.IH"(2) [OF refl refl _ _ refl refl refl]) (use texts that in \<open>simp_all add: la_def lb_def r_def\<close>)
    have toks: "lex_cmp vtoken_cmp (vtokens (a # as)) (vtokens (b # bs)) =
      (if c_strcmp (text_run (a # as)) (text_run (b # bs)) \<noteq> 0
       then c_strcmp (text_run (a # as)) (text_run (b # bs))
       else lex_cmp vtoken_cmp (vtokens (drop la (a # as))) (vtokens (drop lb (b # bs))))"
      using texts by (simp add: vtokens.simps(2) la_def lb_def)
    have "(if r < 0 then - 1 else 1) = r \<or> r = 0"
      using c_strcmp_sign [of "take (min la lb) (a # as)" "take (min la lb) (b # bs)"]
      by (simp add: r_def c_strncmp_def)
    then show ?thesis
      unfolding eq toks runs using IH by auto
  qed
qed simp

section \<open>The comparators of the listing\<close>

lemma comparator_vtoken [comparator_intros]: "comparator vtoken_cmp"
proof (unfold_locales)
  fix a b c :: vtoken
  show "vtoken_cmp a a = 0" by (cases a) auto
  show "sgn (vtoken_cmp b a) = - sgn (vtoken_cmp a b)"
    by (cases a; cases b) (simp_all, (rule strcmp.cmp_sym comparator.cmp_sym [OF comparator_int_cmp])+)
  show "vtoken_cmp a b \<le> 0 \<Longrightarrow> vtoken_cmp b c \<le> 0 \<Longrightarrow> vtoken_cmp a c \<le> 0"
    by (cases a; cases b; cases c) (simp_all, erule (1) strcmp.cmp_trans)
qed

lemma comparator_part_cmp [comparator_intros]: "comparator part_cmp"
proof -
  have eq: "part_cmp = on_cmp vtokens (lex_cmp vtoken_cmp)"
    by (simp add: fun_eq_iff on_cmp_def part_cmp_tokens)
  show ?thesis unfolding eq by (intro comparator_intros)
qed

text \<open>A prerelease is older than its absence.\<close>

fun pre_cmp :: "string option \<Rightarrow> string option \<Rightarrow> int" where
  "pre_cmp None None = 0"
| "pre_cmp None (Some q) = 1"
| "pre_cmp (Some p) None = - 1"
| "pre_cmp (Some p) (Some q) = part_cmp p q"

lemma comparator_pre_cmp [comparator_intros]: "comparator pre_cmp"
proof (unfold_locales)
  fix a b c :: "string option"
  show "pre_cmp a a = 0" by (cases a) (auto simp: comparator.cmp_refl [OF comparator_part_cmp])
  show "sgn (pre_cmp b a) = - sgn (pre_cmp a b)"
    by (cases a; cases b) (simp_all, rule comparator.cmp_sym [OF comparator_part_cmp])
  show "pre_cmp a b \<le> 0 \<Longrightarrow> pre_cmp b c \<le> 0 \<Longrightarrow> pre_cmp a c \<le> 0"
    by (cases a; cases b; cases c) (auto intro: comparator.cmp_trans [OF comparator_part_cmp])
qed

lemma store_version_cmp_split:
  "store_version_cmp = on_cmp (\<lambda>v. split_pre (skip_v v)) (then_cmp (on_cmp fst part_cmp) (on_cmp snd pre_cmp))"
  by (auto simp: fun_eq_iff store_version_cmp_def on_cmp_def then_cmp_def Let_def
      split: prod.splits option.splits)

interpretation version: comparator store_version_cmp
  unfolding store_version_cmp_split by (intro comparator_intros)

definition version_of :: "store_entry \<Rightarrow> string" where
  "version_of e = d_version (store_split_display (e_name e) STORE_NAME_MAX STORE_NAME_MAX 0)"

definition release_of :: "store_entry \<Rightarrow> int" where
  "release_of e = d_release (store_split_display (e_name e) STORE_NAME_MAX STORE_NAME_MAX 0)"

lemma cmp_by_version_split:
  "cmp_by_version = then_cmp (on_cmp version_of store_version_cmp)
     (then_cmp (on_cmp release_of int_cmp) (on_cmp e_name c_strcmp))"
  by (auto simp: fun_eq_iff cmp_by_version_def on_cmp_def then_cmp_def Let_def version_of_def
      release_of_def int_cmp_def)

interpretation rank: comparator cmp_by_version
  unfolding cmp_by_version_split by (intro comparator_intros version.comparator_axioms)

lemma store_cmp_newest_split:
  "store_cmp_newest = then_cmp (on_cmp (\<lambda>e. - e_mtime e) int_cmp) (on_cmp e_name c_strcmp)"
  by (auto simp: fun_eq_iff store_cmp_newest_def on_cmp_def then_cmp_def int_cmp_def)

interpretation newest: comparator store_cmp_newest
  unfolding store_cmp_newest_split by (intro comparator_intros)

interpretation by_name: comparator store_cmp_name
  using comparator_on [OF comparator_strcmp, of e_name]
  by (simp add: store_cmp_name_def [abs_def] on_cmp_def [abs_def])

lemma comparator_eq_name:
  "cmp_by_version x y = 0 \<Longrightarrow> e_name x = e_name y"
  "store_cmp_newest x y = 0 \<Longrightarrow> e_name x = e_name y"
  "store_cmp_name x y = 0 \<longleftrightarrow> e_name x = e_name y"
  by (auto simp: cmp_by_version_split store_cmp_newest_split store_cmp_name_def then_cmp_def on_cmp_def
      split: if_splits)

section \<open>Ranks\<close>

lemma comparator_ranked: "comparator (\<lambda>i j. cmp_by_version (v ! i) (v ! j))"
  using comparator_on [OF rank.comparator_axioms, of "nth v"] by (simp add: on_cmp_def [abs_def])

lemma rank_order_perm: "distinct (rank_order v) \<and> set (rank_order v) = {..<length v} \<and> length (rank_order v) = length v"
  using comparator.distinct_qsort [OF comparator_ranked] comparator.set_qsort [OF comparator_ranked]
    comparator.length_qsort [OF comparator_ranked]
  by (simp add: rank_order_def atLeast0LessThan)

lemma write_ranks_nth:
  "distinct ps \<Longrightarrow> set ps \<subseteq> {..<length v} \<Longrightarrow>
   length (write_ranks v ps i) = length v
   \<and> (\<forall>k. k \<notin> set ps \<longrightarrow> write_ranks v ps i ! k = v ! k)
   \<and> (\<forall>t < length ps. write_ranks v ps i ! (ps ! t) = (v ! (ps ! t))\<lparr>e_version_rank := int (i + t)\<rparr>)"
proof (induction ps arbitrary: v i)
  case (Cons p ps)
  let ?v = "v[p := (v ! p)\<lparr>e_version_rank := int i\<rparr>]"
  have IH: "length (write_ranks ?v ps (i + 1)) = length ?v"
    "\<forall>k. k \<notin> set ps \<longrightarrow> write_ranks ?v ps (i + 1) ! k = ?v ! k"
    "\<forall>t < length ps. write_ranks ?v ps (i + 1) ! (ps ! t) = (?v ! (ps ! t))\<lparr>e_version_rank := int (i + 1 + t)\<rparr>"
    using Cons.IH [of ?v "i + 1"] Cons.prems by auto
  have p: "p \<notin> set ps" "p < length v" using Cons.prems by auto
  have "write_ranks ?v ps (i + 1) ! ((p # ps) ! t) =
      (v ! ((p # ps) ! t))\<lparr>e_version_rank := int (i + t)\<rparr>" if t: "t < length (p # ps)" for t
  proof (cases t)
    case 0
    then show ?thesis using IH(2) p by simp
  next
    case (Suc u)
    then have "ps ! u \<noteq> p" using t p by (auto simp: in_set_conv_nth)
    then show ?thesis using IH(3) Suc t by simp
  qed
  then show ?case using IH p by simp
qed simp

text \<open>The position of an index in the rank order.\<close>

lemma rank_position:
  assumes "k < length v"
  obtains t where "t < length v" "rank_order v ! t = k"
    "write_ranks v (rank_order v) 0 ! k = (v ! k)\<lparr>e_version_rank := int t\<rparr>"
proof -
  have "k \<in> set (rank_order v)" using assms rank_order_perm by auto
  then obtain t where t: "t < length (rank_order v)" "rank_order v ! t = k" by (auto simp: in_set_conv_nth)
  then show thesis
    using that [of t] write_ranks_nth [of "rank_order v" v 0] rank_order_perm [of v] by auto
qed

lemma rank_order_sorted:
  "s < t \<Longrightarrow> t < length v \<Longrightarrow> cmp_by_version (v ! (rank_order v ! s)) (v ! (rank_order v ! t)) \<le> 0"
  using comparator.sorted_qsort [OF comparator_ranked, of v "[0..<length v]"] rank_order_perm [of v]
  by (auto simp: sorted_wrt_iff_nth_less rank_order_def)

lemma rank_less_iff:
  assumes "distinct (map e_name v)" and "i < length v" and "j < length v"
    and "rank_order v ! s = i" "s < length v" and "rank_order v ! t = j" "t < length v"
  shows "s < t \<longleftrightarrow> cmp_by_version (v ! i) (v ! j) < 0"
proof -
  have inj: "cmp_by_version (v ! i) (v ! j) \<noteq> 0" if "i \<noteq> j"
    using that assms(1-3) comparator_eq_name(1) [of "v ! i" "v ! j"]
    by (auto simp: distinct_conv_nth)
  consider "s < t" | "s = t" | "t < s" by linarith
  then show ?thesis
  proof cases
    case 1
    then have "i \<noteq> j" using assms(4-7) rank_order_perm [of v] by (auto simp: distinct_conv_nth)
    then show ?thesis using 1 inj rank_order_sorted [of s t v] assms(4,6,7) by simp
  next
    case 2
    then show ?thesis using assms(4,6) rank.cmp_refl by simp
  next
    case 3
    then have "cmp_by_version (v ! j) (v ! i) \<le> 0" using rank_order_sorted [of t s v] assms(4-6) by simp
    then show ?thesis using 3 rank.cmp_less_iff [of "v ! i" "v ! j"] by auto
  qed
qed

lemma rank_versions_entry:
  assumes "k < length v"
  obtains t where "t < length v" "rank_order v ! t = k"
    "store_rank_versions False v ! k = (v ! k)\<lparr>e_version_rank := int t\<rparr>"
proof -
  obtain t where "t < length v" "rank_order v ! t = k"
    "write_ranks v (rank_order v) 0 ! k = (v ! k)\<lparr>e_version_rank := int t\<rparr>"
    by (rule rank_position [OF assms])
  moreover have "v \<noteq> []" using assms by auto
  ultimately show thesis using that [of t] by (simp add: store_rank_versions_def)
qed

lemma rank_versions_length [simp]: "length (store_rank_versions nomem v) = length v"
  using write_ranks_nth [of "rank_order v" v 0] rank_order_perm [of v]
  by (auto simp: store_rank_versions_def)

section \<open>Properties of the version order\<close>

text \<open>
  \<^verbatim>\<open>store_version_cmp\<close> is a total preorder on arbitrary strings, as \<^verbatim>\<open>qsort\<close> requires of what it
  is handed: reflexive, antisymmetric in sign, and transitive, prereleases, separators and
  unbounded numbers included.
\<close>

theorem version_cmp_total_preorder:
  "store_version_cmp a a = 0 \<and> sgn (store_version_cmp b a) = - sgn (store_version_cmp a b)
   \<and> (store_version_cmp a b \<le> 0 \<longrightarrow> store_version_cmp b c \<le> 0 \<longrightarrow> store_version_cmp a c \<le> 0)"
  using version.cmp_refl version.cmp_sym version.cmp_trans by blast

theorem version_cmp_total_preorder_witness:
  "store_version_cmp ''1.2'' ''1.10'' \<le> 0 \<and> store_version_cmp ''1.10'' ''v2-rc1'' \<le> 0
   \<and> store_version_cmp ''1.2'' ''v2-rc1'' \<le> 0"
proof -
  have "store_version_cmp ''1.2'' ''1.10'' \<le> 0" and "store_version_cmp ''1.10'' ''v2-rc1'' \<le> 0"
    by code_simp+
  then show ?thesis
    using version_cmp_total_preorder [of "''1.2''" "''1.10''" "''v2-rc1''"] by blast
qed

text \<open>
  The pointer loop of \<^verbatim>\<open>part_cmp\<close> compares token lists: both strings are read as numbers (of any
  length, leading zeros ignored), single separators and runs of text; the lists are compared
  lexicographically, a number by its value, text by \<^verbatim>\<open>strcmp\<close>, and a number outranks text.
\<close>

theorem part_cmp_compares_tokens:
  "part_cmp a b = lex_cmp vtoken_cmp (vtokens a) (vtokens b)"
  by (rule part_cmp_tokens)

text \<open>
  A prerelease sorts below the version it precedes, and above every older version: appending
  a hyphen and any text to a version without one makes it strictly older, and it stays
  strictly newer than whatever main version compares below.
\<close>

theorem prerelease_is_older:
  assumes "CHR ''-'' \<notin> set v" and "CHR ''-'' \<notin> set u"
  shows "store_version_cmp (v @ CHR ''-'' # pre) v = - 1
    \<and> (store_version_cmp u v < 0 \<longrightarrow> store_version_cmp u (v @ CHR ''-'' # pre) < 0)"
proof -
  have skip: "skip_v (v @ CHR ''-'' # pre) = skip_v v @ CHR ''-'' # pre"
    by (cases v; cases "tl v") (auto simp: skip_v_def c_at_append vdigit_def byte_def)
  have nd: "CHR ''-'' \<notin> set (skip_v v)" "CHR ''-'' \<notin> set (skip_v u)"
    using assms by (auto simp: skip_v_def dest: list.set_sel(2) split: if_splits)
      (metis list.set_sel(2) tl_Nil)+
  let ?m = "\<lambda>s. snprintf STORE_NAME_MAX (skip_v s)"
  have sp: "split_pre (skip_v (v @ CHR ''-'' # pre)) = (?m v, Some pre)"
    "split_pre (skip_v v) = (?m v, None)" "split_pre (skip_v u) = (?m u, None)"
    using nd by (simp_all add: skip split_pre_def takeWhile_absent dropWhile_absent takeWhile_append
        dropWhile_append)
  have refl: "part_cmp (?m v) (?m v) = 0" using comparator.cmp_refl [OF comparator_part_cmp] .
  show ?thesis
    using refl by (auto simp: store_version_cmp_def sp Let_def split: if_splits)
qed

theorem prerelease_is_older_witness:
  "store_version_cmp (''14.2'' @ CHR ''-'' # ''rc1'') ''14.2'' = - 1
   \<and> store_version_cmp ''14.1'' (''14.2'' @ CHR ''-'' # ''rc1'') < 0"
proof -
  have "CHR ''-'' \<notin> set ''14.2''" and "CHR ''-'' \<notin> set ''14.1''" and "store_version_cmp ''14.1'' ''14.2'' < 0"
    by code_simp+
  then show ?thesis using prerelease_is_older [of "''14.2''" "''14.1''" "''rc1''"] by blast
qed

text \<open>
  C28. \<^verbatim>\<open>store_rank_versions\<close> ranks: when the names of the listing are distinct, the ranks written
  back are a permutation of \<open>0 .. n - 1\<close>, an entry is ranked below another exactly when
  \<^verbatim>\<open>cmp_by_version\<close> puts it below, and nothing but the rank of an entry changes.
\<close>

theorem rank_versions_correct:
  assumes "distinct (map e_name v)"
  shows "length (store_rank_versions False v) = length v
    \<and> (\<forall>i < length v. \<forall>j < length v.
         (e_version_rank (store_rank_versions False v ! i) < e_version_rank (store_rank_versions False v ! j)
          \<longleftrightarrow> cmp_by_version (v ! i) (v ! j) < 0))
    \<and> e_version_rank ` set (store_rank_versions False v) = {0..<int (length v)}
    \<and> (\<forall>i < length v. (store_rank_versions False v ! i)\<lparr>e_version_rank := e_version_rank (v ! i)\<rparr> = v ! i)"
proof -
  let ?out = "store_rank_versions False v"
  have less: "e_version_rank (?out ! i) < e_version_rank (?out ! j) \<longleftrightarrow> cmp_by_version (v ! i) (v ! j) < 0"
    if ij: "i < length v" "j < length v" for i j
    by (rule rank_versions_entry [OF ij(1)], rule rank_versions_entry [OF ij(2)])
      (use rank_less_iff [OF assms ij] in simp)
  have keep: "(?out ! i)\<lparr>e_version_rank := e_version_rank (v ! i)\<rparr> = v ! i" if "i < length v" for i
    by (rule rank_versions_entry [OF that]) simp
  have into: "e_version_rank (?out ! i) \<in> {0..<int (length v)}" if "i < length v" for i
    by (rule rank_versions_entry [OF that]) simp
  have onto: "\<exists>i < length v. e_version_rank (?out ! i) = int t" if "t < length v" for t
  proof -
    have "rank_order v ! t < length v" using that rank_order_perm [of v] nth_mem by fastforce
    moreover have "?out ! (rank_order v ! t) = (v ! (rank_order v ! t))\<lparr>e_version_rank := int t\<rparr>"
      using that write_ranks_nth [of "rank_order v" v 0] rank_order_perm [of v]
      by (auto simp: store_rank_versions_def)
    ultimately show ?thesis by auto
  qed
  have "e_version_rank ` set ?out = {0..<int (length v)}"
  proof
    show "e_version_rank ` set ?out \<subseteq> {0..<int (length v)}"
      using into by (auto simp: set_conv_nth)
    show "{0..<int (length v)} \<subseteq> e_version_rank ` set ?out"
    proof
      fix r assume r: "r \<in> {0..<int (length v)}"
      then have "nat r < length v" by auto
      then obtain i where "i < length v" "e_version_rank (?out ! i) = int (nat r)" using onto by blast
      then show "r \<in> e_version_rank ` set ?out" using r by (force simp: set_conv_nth)
    qed
  qed
  then show ?thesis using less keep by simp
qed

definition sample_entry :: "string \<Rightarrow> store_entry" where
  "sample_entry n = \<lparr>e_name = n, e_digest = [], e_size = 0, e_mtime = 0, e_version_rank = 0\<rparr>"

theorem rank_versions_correct_witness:
  "e_version_rank ` set (store_rank_versions False
     (map sample_entry [''z-1-10.iso'', ''z-1-2.iso'', ''z-1.iso''])) = {0..<3}"
proof -
  let ?v = "map sample_entry [''z-1-10.iso'', ''z-1-2.iso'', ''z-1.iso'']"
  have "distinct (map e_name ?v)" by code_simp
  from rank_versions_correct [OF this] show ?thesis by (simp del: set_map list.map)
qed

text \<open>
  A listing does not depend on the order \<^verbatim>\<open>readdir\<close> reports entries in: for entries with
  distinct names, any array that is a permutation of them and in order under the newest-first or
  the by-name comparator is the one array the model's sort computes.
\<close>

theorem listing_order_determined:
  assumes "mset ys = mset xs" and "distinct (map e_name xs)"
  shows "(sorted_wrt (\<lambda>a b. store_cmp_newest a b \<le> 0) ys \<longleftrightarrow> ys = c_qsort store_cmp_newest xs)
    \<and> (sorted_wrt (\<lambda>a b. store_cmp_name a b \<le> 0) ys \<longleftrightarrow> ys = c_qsort store_cmp_name xs)"
proof -
  have inj: "a = b" if "a \<in> set xs" "b \<in> set xs" "e_name a = e_name b" for a b
    using that assms(2) by (auto simp: distinct_map dest: inj_onD)
  show ?thesis
    using newest.qsort_unique [OF assms(1)] by_name.qsort_unique [OF assms(1)] newest.sorted_qsort
      by_name.sorted_qsort comparator_eq_name inj by blast
qed

theorem listing_order_determined_witness:
  "sorted_wrt (\<lambda>a b. store_cmp_name a b \<le> 0) (map sample_entry [''a.iso'', ''b.iso''])
   \<and> map sample_entry [''a.iso'', ''b.iso''] = c_qsort store_cmp_name (map sample_entry [''b.iso'', ''a.iso''])"
proof -
  have "sorted_wrt (\<lambda>a b. store_cmp_name a b \<le> 0) (map sample_entry [''a.iso'', ''b.iso''])" by code_simp
  moreover have "mset (map sample_entry [''a.iso'', ''b.iso'']) = mset (map sample_entry [''b.iso'', ''a.iso''])"
    by (simp add: add_mset_commute)
  moreover have "distinct (map e_name (map sample_entry [''b.iso'', ''a.iso'']))" by code_simp
  ultimately show ?thesis using listing_order_determined by blast
qed

end
