(* ===== verification/Posix.thy ===== *)
theory Posix
  imports Cix_Prelude
begin

text \<open>
  The part of the operating system the store runs on: a file system as a finite map from path
  strings to nodes, and the system calls the sources make, each with the failures it reports.
  An environment decides which calls fail for reasons outside the model (permissions, a full or
  broken disk, memory); every theorem holds for every such environment unless it says otherwise.

  Paths are the strings the program builds; two spellings of one directory are not identified.
  A symbolic link is followed at the last component of a path, with leading \<^verbatim>\<open>../\<close> in its
  target, which is what the store's links use.
\<close>

type_synonym path = string

datatype node = Dir | Reg bytes nat int | Lnk string int

type_synonym fs = "(path \<times> node) list"

datatype errno = ENOENT | EEXIST | ENOTDIR | EISDIR | EINVAL | ELOOP | EIO

datatype syscall =
    SYS_readlink | SYS_unlink | SYS_rename | SYS_symlink | SYS_mkdir | SYS_open | SYS_fstat | SYS_stat
  | SYS_lstat | SYS_access | SYS_opendir | SYS_chmod

text \<open>\<open>ev_nomem n\<close>: an allocation of \<open>n\<close> bytes fails. \<open>ev_dirsize\<close>: what \<open>stat\<close> reports for a directory.\<close>

record env =
  ev_fails :: "syscall \<Rightarrow> path \<Rightarrow> bool"
  ev_nomem :: "nat \<Rightarrow> bool"
  ev_pid :: nat
  ev_now :: int
  ev_dirsize :: int

definition PATH_MAX :: nat where
  "PATH_MAX = 4096"

section \<open>The map interface\<close>

text \<open>What the calls need of the map from paths to nodes.\<close>

locale path_map =
  fixes lookup :: "'f \<Rightarrow> 'p \<Rightarrow> 'n option"
    and put :: "'p \<Rightarrow> 'n \<Rightarrow> 'f \<Rightarrow> 'f"
    and del :: "'p \<Rightarrow> 'f \<Rightarrow> 'f"
  assumes lookup_put: "lookup (put p n f) q = (if q = p then Some n else lookup f q)"
    and lookup_del: "lookup (del p f) q = (if q = p then None else lookup f q)"
begin

lemma lookup_move:
  "lookup (put b n (del a f)) q = (if q = b then Some n else if q = a then None else lookup f q)"
  by (simp add: lookup_put lookup_del)

lemma lookup_put_other: "q \<noteq> p \<Longrightarrow> lookup (put p n f) q = lookup f q"
  by (simp add: lookup_put)

lemma lookup_put_del_put:
  "lookup (put b n (del a (put a m f))) q = (if q = b then Some n else if q = a then None else lookup f q)"
  by (simp add: lookup_put lookup_del)

end

interpretation fsmap: path_map "map_of" "AList.update" "AList.delete"
  by unfold_locales (simp_all add: update_conv' delete_conv')

lemmas fsmap_simps [fs_simps] = fsmap.lookup_put fsmap.lookup_del

section \<open>Paths\<close>

definition parent :: "path \<Rightarrow> path" where
  "parent p = rev (tl (dropWhile (\<lambda>c. c \<noteq> CHR ''/'') (rev p)))"

definition basename :: "path \<Rightarrow> string" where
  "basename p = rev (takeWhile (\<lambda>c. c \<noteq> CHR ''/'') (rev p))"

lemma parent_child [simp]: "CHR ''/'' \<notin> set n \<Longrightarrow> parent (d @ CHR ''/'' # n) = d"
  by (simp add: parent_def dropWhile_append dropWhile_absent)

lemma basename_child [simp]: "CHR ''/'' \<notin> set n \<Longrightarrow> basename (d @ CHR ''/'' # n) = n"
  by (simp add: basename_def takeWhile_append takeWhile_absent)

lemma basename_plain [simp]: "CHR ''/'' \<notin> set n \<Longrightarrow> basename n = n"
  by (simp add: basename_def takeWhile_absent)

lemma basename_no_slash: "CHR ''/'' \<notin> set (basename p)"
  by (auto simp: basename_def dest: set_takeWhileD)

function join_path :: "path \<Rightarrow> string \<Rightarrow> path" where
  "join_path d t =
     (if take 3 t = ''../'' then join_path (parent d) (drop 3 t) else d @ CHR ''/'' # t)"
  by pat_completeness auto
termination
proof (relation "measure (\<lambda>(d, t). length t)", simp, goal_cases)
  case (1 d t)
  then have "t \<noteq> []" by auto
  then show ?case by (cases t) auto
qed

declare join_path.simps [simp del]

definition link_path :: "path \<Rightarrow> string \<Rightarrow> path" where
  "link_path p t = (if c_at t 0 = CHR ''/'' then t else join_path (parent p) t)"

section \<open>Following links\<close>

fun follow_links :: "nat \<Rightarrow> fs \<Rightarrow> path \<Rightarrow> path option" where
  "follow_links 0 fs p = None"
| "follow_links (Suc n) fs p =
     (case map_of fs p of
        Some (Lnk t _) \<Rightarrow> follow_links n fs (link_path p t)
      | _ \<Rightarrow> Some p)"

text \<open>Linux gives up after 40 links.\<close>

definition namei :: "fs \<Rightarrow> path \<Rightarrow> path option" where
  "namei fs p = follow_links 41 fs p"

definition is_dir :: "fs \<Rightarrow> path \<Rightarrow> bool" where
  "is_dir fs p \<longleftrightarrow> p = [] \<or> map_of fs p = Some Dir"

lemma namei_plain: "\<nexists>t m. map_of fs p = Some (Lnk t m) \<Longrightarrow> namei fs p = Some p"
  by (simp add: namei_def numeral_eq_Suc split: option.splits node.splits)

lemma namei_link:
  "map_of fs p = Some (Lnk t m) \<Longrightarrow> \<nexists>u k. map_of fs (link_path p t) = Some (Lnk u k) \<Longrightarrow>
   namei fs p = Some (link_path p t)"
  by (simp add: namei_def numeral_eq_Suc split: option.splits node.splits)

section \<open>System calls\<close>

definition sys_readlink :: "env \<Rightarrow> fs \<Rightarrow> path \<Rightarrow> nat \<Rightarrow> errno + string" where
  "sys_readlink env fs p n =
     (if ev_fails env SYS_readlink p then Inl EIO
      else case map_of fs p of
        None \<Rightarrow> Inl ENOENT
      | Some (Lnk t _) \<Rightarrow> Inr (take n t)
      | Some _ \<Rightarrow> Inl EINVAL)"

definition sys_unlink :: "env \<Rightarrow> fs \<Rightarrow> path \<Rightarrow> errno + fs" where
  "sys_unlink env fs p =
     (if ev_fails env SYS_unlink p then Inl EIO
      else case map_of fs p of
        None \<Rightarrow> Inl ENOENT
      | Some Dir \<Rightarrow> Inl EISDIR
      | Some _ \<Rightarrow> Inr (AList.delete p fs))"

text \<open>Only files and links are renamed here; a directory as the source is refused.\<close>

definition sys_rename :: "env \<Rightarrow> fs \<Rightarrow> path \<Rightarrow> path \<Rightarrow> errno + fs" where
  "sys_rename env fs a b =
     (if ev_fails env SYS_rename b then Inl EIO
      else case map_of fs a of
        None \<Rightarrow> Inl ENOENT
      | Some nd \<Rightarrow>
          if \<not> is_dir fs (parent b) then Inl ENOENT
          else if nd = Dir then Inl EINVAL
          else if map_of fs b = Some Dir then Inl EISDIR
          else if a = b then Inr fs
          else Inr (AList.update b nd (AList.delete a fs)))"

definition sys_symlink :: "env \<Rightarrow> fs \<Rightarrow> string \<Rightarrow> path \<Rightarrow> errno + fs" where
  "sys_symlink env fs t p =
     (if ev_fails env SYS_symlink p then Inl EIO
      else if map_of fs p \<noteq> None then Inl EEXIST
      else if \<not> is_dir fs (parent p) then Inl ENOENT
      else Inr (AList.update p (Lnk t (ev_now env)) fs))"

definition sys_mkdir :: "env \<Rightarrow> fs \<Rightarrow> path \<Rightarrow> errno + fs" where
  "sys_mkdir env fs p =
     (if ev_fails env SYS_mkdir p then Inl EIO
      else if map_of fs p \<noteq> None then Inl EEXIST
      else if \<not> is_dir fs (parent p) then Inl ENOENT
      else Inr (AList.update p Dir fs))"

definition sys_lstat :: "env \<Rightarrow> fs \<Rightarrow> path \<Rightarrow> errno + node" where
  "sys_lstat env fs p =
     (if ev_fails env SYS_lstat p then Inl EIO
      else case map_of fs p of None \<Rightarrow> Inl ENOENT | Some nd \<Rightarrow> Inr nd)"

definition sys_stat :: "env \<Rightarrow> fs \<Rightarrow> path \<Rightarrow> errno + node" where
  "sys_stat env fs p =
     (if ev_fails env SYS_stat p then Inl EIO
      else case namei fs p of
        None \<Rightarrow> Inl ELOOP
      | Some q \<Rightarrow> (case map_of fs q of None \<Rightarrow> Inl ENOENT | Some nd \<Rightarrow> Inr nd))"

definition sys_access :: "env \<Rightarrow> fs \<Rightarrow> path \<Rightarrow> bool" where
  "sys_access env fs p \<longleftrightarrow>
     \<not> ev_fails env SYS_access p
     \<and> (case namei fs p of None \<Rightarrow> False | Some q \<Rightarrow> map_of fs q \<noteq> None)"

text \<open>\<open>open(O_RDONLY)\<close>: the descriptor stands for the path it was resolved to.\<close>

definition sys_open :: "env \<Rightarrow> fs \<Rightarrow> path \<Rightarrow> errno + path" where
  "sys_open env fs p =
     (if ev_fails env SYS_open p then Inl EIO
      else case namei fs p of
        None \<Rightarrow> Inl ELOOP
      | Some q \<Rightarrow> if map_of fs q = None then Inl ENOENT else Inr q)"

definition sys_chmod :: "env \<Rightarrow> fs \<Rightarrow> path \<Rightarrow> nat \<Rightarrow> errno + fs" where
  "sys_chmod env fs p mode =
     (if ev_fails env SYS_chmod p then Inl EIO
      else case namei fs p of
        None \<Rightarrow> Inl ELOOP
      | Some q \<Rightarrow>
          (case map_of fs q of
             None \<Rightarrow> Inl ENOENT
           | Some (Reg b _ t) \<Rightarrow> Inr (AList.update q (Reg b mode t) fs)
           | Some _ \<Rightarrow> Inr fs))"

definition node_size :: "env \<Rightarrow> node \<Rightarrow> int" where
  "node_size env nd =
     (case nd of Dir \<Rightarrow> ev_dirsize env | Reg b _ _ \<Rightarrow> int (length b) | Lnk t _ \<Rightarrow> int (length t))"

definition node_mtime :: "env \<Rightarrow> node \<Rightarrow> int" where
  "node_mtime env nd = (case nd of Dir \<Rightarrow> ev_now env | Reg _ _ t \<Rightarrow> t | Lnk _ t \<Rightarrow> t)"

text \<open>\<open>readdir\<close>: the two dot entries and the names of the children.\<close>

definition child_name :: "path \<Rightarrow> path \<Rightarrow> string option" where
  "child_name d p =
     (let pre = d @ ''/''; n = drop (length pre) p
      in if take (length pre) p = pre \<and> n \<noteq> [] \<and> CHR ''/'' \<notin> set n then Some n else None)"

definition dir_entries :: "fs \<Rightarrow> path \<Rightarrow> string list" where
  "dir_entries fs d = ''.'' # ''..'' # List.map_filter (\<lambda>(p, _). child_name d p) fs"

definition sys_opendir :: "env \<Rightarrow> fs \<Rightarrow> path \<Rightarrow> errno + string list" where
  "sys_opendir env fs p =
     (if ev_fails env SYS_opendir p then Inl EIO
      else case namei fs p of
        None \<Rightarrow> Inl ELOOP
      | Some q \<Rightarrow>
          (case map_of fs q of
             None \<Rightarrow> Inl ENOENT
           | Some Dir \<Rightarrow> Inr (dir_entries fs q)
           | Some _ \<Rightarrow> Inl ENOTDIR))"

section \<open>Directory entries\<close>

lemma child_name_iff: "child_name d p = Some n \<longleftrightarrow> p = d @ CHR ''/'' # n \<and> n \<noteq> [] \<and> CHR ''/'' \<notin> set n"
proof
  assume "child_name d p = Some n"
  then have n: "take (Suc (length d)) p = d @ ''/''" "n = drop (Suc (length d)) p" "n \<noteq> []" "CHR ''/'' \<notin> set n"
    by (auto simp: child_name_def Let_def split: if_splits)
  then show "p = d @ CHR ''/'' # n \<and> n \<noteq> [] \<and> CHR ''/'' \<notin> set n"
    using append_take_drop_id [of "Suc (length d)" p] by simp
qed (simp add: child_name_def Let_def)

lemma map_filter_iff: "x \<in> set (List.map_filter f xs) \<longleftrightarrow> (\<exists>y \<in> set xs. f y = Some x)"
  by (induction xs) (auto simp: List.map_filter_simps split: option.splits)

lemma dir_entries_iff:
  assumes "n \<noteq> ''.''" and "n \<noteq> ''..''"
  shows "n \<in> set (dir_entries fs d) \<longleftrightarrow>
    map_of fs (d @ CHR ''/'' # n) \<noteq> None \<and> n \<noteq> [] \<and> CHR ''/'' \<notin> set n"
proof -
  have "n \<in> set (dir_entries fs d) \<longleftrightarrow> (\<exists>p nd. (p, nd) \<in> set fs \<and> child_name d p = Some n)"
    using assms by (force simp: dir_entries_def map_filter_iff)
  also have "\<dots> \<longleftrightarrow> d @ CHR ''/'' # n \<in> fst ` set fs \<and> n \<noteq> [] \<and> CHR ''/'' \<notin> set n"
    by (force simp: child_name_iff)
  finally show ?thesis by (simp add: map_of_eq_None_iff)
qed

lemma map_filter_child_distinct:
  "distinct (map fst fs) \<Longrightarrow> distinct (List.map_filter (\<lambda>(p, _). child_name d p) fs)"
proof (induction fs)
  case (Cons x fs)
  obtain p nd where x: "x = (p, nd)" by (cases x)
  have "n \<notin> set (List.map_filter (\<lambda>(p, _). child_name d p) fs)" if "child_name d p = Some n" for n
    using that Cons.prems by (force simp: x map_filter_iff child_name_iff)
  then show ?case using Cons by (auto simp: x List.map_filter_simps split: option.splits)
qed (simp add: List.map_filter_simps)

section \<open>Decimal numbers\<close>

text \<open>\<open>%d\<close> and \<open>%lu\<close> of a number that is not negative.\<close>

fun nat_dec :: "nat \<Rightarrow> string" where
  "nat_dec n = (if n < 10 then [char_of (48 + n)] else nat_dec (n div 10) @ [char_of (48 + n mod 10)])"

declare nat_dec.simps [simp del]

lemma byte_digit: "d < 10 \<Longrightarrow> byte (char_of (48 + d)) = 48 + d"
  by (simp add: byte_def)

lemma nat_dec_digits: "list_all c_isdigit (nat_dec n) \<and> nat_dec n \<noteq> []"
proof (induction n rule: nat_dec.induct)
  case (1 n)
  have "c_isdigit (char_of (48 + n mod 10))"
    using byte_digit [of "n mod 10"] by (simp add: c_isdigit_def)
  then show ?case
    using 1 byte_digit [of n] by (cases "n < 10") (simp_all add: nat_dec.simps [of n] c_isdigit_def)
qed

end
