(* ===== verification/Store_Ops.thy ===== *)
theory Store_Ops
  imports Store_Canonical Posix
begin

text \<open>
  The store on disk (\<^verbatim>\<open>src/src/store.c\<close>): initialisation, resolving a name to a digest, opening,
  adopting a blob, publishing and unpublishing. The state is the root path, the file system and the
  counter of temporary names; every operation takes the environment that decides which system
  calls fail and returns the state it leaves. A buffer of \<^verbatim>\<open>PATH_MAX\<close> bytes that is too short is
  an absent path.
\<close>

section \<open>State and paths\<close>

record store =
  st_root :: path
  st_fs :: fs
  st_tmp :: nat

definition STORE_DIR :: string where
  "STORE_DIR = ''packages''"

definition store_root :: "store \<Rightarrow> path" where
  "store_root s = st_root s"

definition entry_at :: "path \<Rightarrow> string \<Rightarrow> path" where
  "entry_at root name = root @ ''/'' @ STORE_DIR @ ''/'' @ name"

definition blob_at :: "path \<Rightarrow> string \<Rightarrow> path" where
  "blob_at root digest = root @ ''/blobs/'' @ digest"

definition raw_entry_path :: "path \<Rightarrow> string \<Rightarrow> path option" where
  "raw_entry_path root name =
     (let p = entry_at root name in if snprintf_fits PATH_MAX p then Some p else None)"

definition entry_path :: "path \<Rightarrow> string \<Rightarrow> path option" where
  "entry_path root name =
     (case store_canonical_name name STORE_NAME_MAX of
        None \<Rightarrow> None
      | Some (_, canonical) \<Rightarrow> raw_entry_path root canonical)"

definition blob_path :: "path \<Rightarrow> string \<Rightarrow> path option" where
  "blob_path root digest =
     (let p = blob_at root digest in if snprintf_fits PATH_MAX p then Some p else None)"

section \<open>Initialisation\<close>

text \<open>The result is \<open>None\<close> for -1; \<open>mkdir_if_absent\<close> accepts whatever already has the name.\<close>

definition mkdir_if_absent :: "env \<Rightarrow> fs \<Rightarrow> path \<Rightarrow> fs option" where
  "mkdir_if_absent env fs p =
     (case sys_mkdir env fs p of
        Inr fs' \<Rightarrow> Some fs'
      | Inl e \<Rightarrow> if e = EEXIST then Some fs else None)"

fun init_subdirs :: "env \<Rightarrow> path \<Rightarrow> string list \<Rightarrow> fs \<Rightarrow> bool \<times> fs" where
  "init_subdirs env root [] fs = (True, fs)"
| "init_subdirs env root (d # ds) fs =
     (let p = root @ ''/'' @ d
      in if \<not> snprintf_fits PATH_MAX p then (False, fs)
         else case mkdir_if_absent env fs p of
           None \<Rightarrow> (False, fs)
         | Some fs' \<Rightarrow> init_subdirs env root ds fs')"

definition store_init :: "env \<Rightarrow> path \<Rightarrow> store \<Rightarrow> int \<times> store" where
  "store_init env root s =
     (if root = [] then (- 1, s)
      else
        (let s1 = s\<lparr>st_root := snprintf PATH_MAX root\<rparr>
         in if \<not> snprintf_fits PATH_MAX root then (- 1, s1)
            else case mkdir_if_absent env (st_fs s1) (st_root s1) of
              None \<Rightarrow> (- 1, s1)
            | Some fs' \<Rightarrow>
                (case init_subdirs env (st_root s1) [''blobs'', STORE_DIR, ''tmp''] fs' of
                   (ok, fs'') \<Rightarrow> (if ok then 0 else - 1, s1\<lparr>st_fs := fs''\<rparr>))))"

section \<open>Resolving\<close>

definition resolve_path :: "env \<Rightarrow> fs \<Rightarrow> path \<Rightarrow> nat \<Rightarrow> store_error + string" where
  "resolve_path env fs p out_digest_size =
     (if out_digest_size < STORE_SHA256_MAX then Inl STORE_ERR_IO
      else case sys_readlink env fs p (PATH_MAX - 1) of
        Inl e \<Rightarrow> Inl (if e = ENOENT then STORE_ERR_NOT_FOUND else STORE_ERR_IO)
      | Inr target \<Rightarrow>
          (let base = basename target
           in if \<not> store_digest_is_valid base then Inl STORE_ERR_IO else Inr base))"

text \<open>The name probed for an architecture, as it comes out of the \<open>probe\<close> buffer.\<close>

definition arch_probe :: "string \<Rightarrow> string \<Rightarrow> string" where
  "arch_probe canonical a =
     snprintf STORE_NAME_MAX
       (take (stem_len canonical) canonical @ ''-'' @ a
        @ (case store_suffix_of canonical of None \<Rightarrow> [] | Some ext \<Rightarrow> ext))"

text \<open>The loop over the architectures; \<open>hit\<close> is the name and digest found so far.\<close>

fun resolve_arches ::
  "env \<Rightarrow> store \<Rightarrow> string \<Rightarrow> (string \<times> string) option \<Rightarrow> string list
    \<Rightarrow> store_error + (string \<times> string) option" where
  "resolve_arches env s canonical hit [] = Inr hit"
| "resolve_arches env s canonical hit (a # as) =
     (case raw_entry_path (st_root s) (arch_probe canonical a) of
        None \<Rightarrow> resolve_arches env s canonical hit as
      | Some p \<Rightarrow>
          (case resolve_path env (st_fs s) p STORE_SHA256_MAX of
             Inl _ \<Rightarrow> resolve_arches env s canonical hit as
           | Inr found \<Rightarrow>
               (case hit of
                  Some (hit_name, hit_digest) \<Rightarrow>
                    if hit_digest \<noteq> found then Inl STORE_ERR_AMBIGUOUS
                    else resolve_arches env s canonical hit as
                | None \<Rightarrow>
                    resolve_arches env s canonical
                      (Some (snprintf STORE_NAME_MAX (arch_probe canonical a), found)) as)))"

text \<open>\<open>Inr (digest, name)\<close>: \<open>STORE_OK\<close> with both output buffers.\<close>

definition store_resolve_as ::
  "env \<Rightarrow> store \<Rightarrow> string \<Rightarrow> nat \<Rightarrow> nat \<Rightarrow> store_error + string \<times> string" where
  "store_resolve_as env s name out_digest_size out_name_size =
     (if out_digest_size < STORE_SHA256_MAX then Inl STORE_ERR_IO
      else if \<not> store_name_is_valid name then Inl STORE_ERR_INVALID_NAME
      else case store_canonical_name name STORE_NAME_MAX of
        None \<Rightarrow> Inl STORE_ERR_INVALID_NAME
      | Some (_, canonical) \<Rightarrow>
          (case raw_entry_path (st_root s) canonical of
             None \<Rightarrow> Inl STORE_ERR_INVALID_NAME
           | Some p \<Rightarrow>
               (let e = resolve_path env (st_fs s) p out_digest_size
                in if store_arch_of canonical \<noteq> None then
                     (case e of
                        Inl err \<Rightarrow> Inl err
                      | Inr digest \<Rightarrow> Inr (digest, snprintf out_name_size canonical))
                   else
                     (case e of
                        Inr digest \<Rightarrow>
                          (case resolve_arches env s canonical
                                  (Some (snprintf STORE_NAME_MAX canonical, digest)) g_arches of
                             Inl err \<Rightarrow> Inl err
                           | Inr None \<Rightarrow> Inl STORE_ERR_NOT_FOUND
                           | Inr (Some (n, d)) \<Rightarrow> Inr (d, snprintf out_name_size n))
                      | Inl err \<Rightarrow>
                          if err \<noteq> STORE_ERR_NOT_FOUND then Inl err
                          else
                            (case resolve_arches env s canonical None g_arches of
                               Inl err \<Rightarrow> Inl err
                             | Inr None \<Rightarrow> Inl STORE_ERR_NOT_FOUND
                             | Inr (Some (n, d)) \<Rightarrow> Inr (d, snprintf out_name_size n))))))"

definition store_resolve :: "env \<Rightarrow> store \<Rightarrow> string \<Rightarrow> nat \<Rightarrow> store_error + string" where
  "store_resolve env s name out_digest_size =
     map_sum id fst (store_resolve_as env s name out_digest_size 0)"

text \<open>\<open>Inr (fd, size, digest, name)\<close>.\<close>

definition store_open ::
  "env \<Rightarrow> store \<Rightarrow> string \<Rightarrow> nat \<Rightarrow> store_error + path \<times> int \<times> string \<times> string" where
  "store_open env s name out_name_size =
     (case store_resolve_as env s name STORE_SHA256_MAX out_name_size of
        Inl e \<Rightarrow> Inl e
      | Inr (digest, nm) \<Rightarrow>
          (case blob_path (st_root s) digest of
             None \<Rightarrow> Inl STORE_ERR_IO
           | Some p \<Rightarrow>
               (case sys_open env (st_fs s) p of
                  Inl e \<Rightarrow> Inl (if e = ENOENT then STORE_ERR_NOT_FOUND else STORE_ERR_IO)
                | Inr fd \<Rightarrow>
                    (case (ev_fails env SYS_fstat fd, map_of (st_fs s) fd) of
                       (False, Some nd) \<Rightarrow> Inr (fd, node_size env nd, digest, nm)
                     | _ \<Rightarrow> Inl STORE_ERR_IO))))"

section \<open>Blobs\<close>

text \<open>\<open>Some size\<close> for 1, \<open>None\<close> for 0.\<close>

definition store_blob_exists :: "env \<Rightarrow> store \<Rightarrow> string \<Rightarrow> int option" where
  "store_blob_exists env s digest =
     (if \<not> store_digest_is_valid digest then None
      else case blob_path (st_root s) digest of
        None \<Rightarrow> None
      | Some p \<Rightarrow>
          (case sys_stat env (st_fs s) p of
             Inl _ \<Rightarrow> None
           | Inr nd \<Rightarrow> Some (node_size env nd)))"

text \<open>A call whose failure the code ignores.\<close>

definition ignoring :: "fs \<Rightarrow> errno + fs \<Rightarrow> fs" where
  "ignoring fs r = (case r of Inl _ \<Rightarrow> fs | Inr fs' \<Rightarrow> fs')"

definition store_blob_adopt :: "env \<Rightarrow> store \<Rightarrow> path \<Rightarrow> string \<Rightarrow> store_error \<times> store" where
  "store_blob_adopt env s tmp_path digest =
     (if \<not> store_digest_is_valid digest then (STORE_ERR_IO, s)
      else case blob_path (st_root s) digest of
        None \<Rightarrow> (STORE_ERR_IO, s)
      | Some p \<Rightarrow>
          if sys_access env (st_fs s) p
          then (STORE_OK, s\<lparr>st_fs := ignoring (st_fs s) (sys_unlink env (st_fs s) tmp_path)\<rparr>)
          else
            (case sys_rename env (st_fs s) tmp_path p of
               Inl _ \<Rightarrow> (STORE_ERR_IO, s)
             | Inr fs' \<Rightarrow> (STORE_OK, s\<lparr>st_fs := ignoring fs' (sys_chmod env fs' p 292)\<rparr>)))"

section \<open>Publishing\<close>

definition next_tmp :: "nat \<Rightarrow> nat" where
  "next_tmp n = (n + 1) mod 2 ^ 64"

definition pub_tmp_at :: "env \<Rightarrow> store \<Rightarrow> path" where
  "pub_tmp_at env s =
     st_root s @ ''/tmp/.pub.'' @ nat_dec (ev_pid env) @ ''.'' @ nat_dec (st_tmp s)"

definition store_publish :: "env \<Rightarrow> store \<Rightarrow> string \<Rightarrow> string \<Rightarrow> store_error \<times> store" where
  "store_publish env s name digest =
     (if \<not> store_name_is_valid name then (STORE_ERR_INVALID_NAME, s)
      else if \<not> store_digest_is_valid digest then (STORE_ERR_IO, s)
      else if store_blob_exists env s digest = None then (STORE_ERR_NOT_FOUND, s)
      else case store_resolve env s name STORE_SHA256_MAX of
        Inr existing \<Rightarrow>
          if existing = digest then (STORE_OK, s) else (STORE_ERR_CONFLICT, s)
      | Inl e \<Rightarrow>
          if e \<noteq> STORE_ERR_NOT_FOUND then (e, s)
          else case entry_path (st_root s) name of
            None \<Rightarrow> (STORE_ERR_INVALID_NAME, s)
          | Some lp \<Rightarrow>
              (let target = ''../blobs/'' @ digest
               in if \<not> snprintf_fits PATH_MAX target then (STORE_ERR_IO, s)
                  else
                    (let tmp = pub_tmp_at env s; s1 = s\<lparr>st_tmp := next_tmp (st_tmp s)\<rparr>
                     in if \<not> snprintf_fits PATH_MAX tmp then (STORE_ERR_IO, s1)
                        else
                          (let fs1 = ignoring (st_fs s) (sys_unlink env (st_fs s) tmp)
                           in case sys_symlink env fs1 target tmp of
                                Inl _ \<Rightarrow> (STORE_ERR_IO, s1\<lparr>st_fs := fs1\<rparr>)
                              | Inr fs2 \<Rightarrow>
                                  (case sys_rename env fs2 tmp lp of
                                     Inl _ \<Rightarrow>
                                       (STORE_ERR_IO,
                                        s1\<lparr>st_fs := ignoring fs2 (sys_unlink env fs2 tmp)\<rparr>)
                                   | Inr fs3 \<Rightarrow> (STORE_OK, s1\<lparr>st_fs := fs3\<rparr>))))))"

section \<open>Unpublishing\<close>

text \<open>The result: the code, whether a signature was removed, and the state.\<close>

definition unpublish_entry :: "env \<Rightarrow> store \<Rightarrow> path \<Rightarrow> bool \<Rightarrow> store_error \<times> bool \<times> store" where
  "unpublish_entry env s p removed =
     (case sys_unlink env (st_fs s) p of
        Inl e \<Rightarrow> (if e = ENOENT then STORE_ERR_NOT_FOUND else STORE_ERR_IO, removed, s)
      | Inr fs' \<Rightarrow> (STORE_OK, removed, s\<lparr>st_fs := fs'\<rparr>))"

definition store_unpublish :: "env \<Rightarrow> store \<Rightarrow> string \<Rightarrow> store_error \<times> bool \<times> store" where
  "store_unpublish env s name =
     (if \<not> store_name_is_valid name then (STORE_ERR_INVALID_NAME, False, s)
      else case entry_path (st_root s) name of
        None \<Rightarrow> (STORE_ERR_INVALID_NAME, False, s)
      | Some p \<Rightarrow>
          (case Option.bind (store_signature_name name STORE_NAME_MAX) (entry_path (st_root s)) of
             None \<Rightarrow> unpublish_entry env s p False
           | Some sig_path \<Rightarrow>
               (case sys_unlink env (st_fs s) sig_path of
                  Inr fs' \<Rightarrow> unpublish_entry env (s\<lparr>st_fs := fs'\<rparr>) p True
                | Inl e \<Rightarrow>
                    if e \<noteq> ENOENT then (STORE_ERR_IO, False, s)
                    else unpublish_entry env s p False)))"

section \<open>Temporary files and hashing\<close>

definition store_tmp_path :: "env \<Rightarrow> store \<Rightarrow> nat \<Rightarrow> path option \<times> store" where
  "store_tmp_path env s out_size =
     (let p = st_root s @ ''/tmp/.up.'' @ nat_dec (ev_pid env) @ ''.'' @ nat_dec (st_tmp s)
      in (if snprintf_fits out_size p then Some p else None, s\<lparr>st_tmp := next_tmp (st_tmp s)\<rparr>))"

text \<open>
  The program \<^verbatim>\<open>sha256sum\<close> is a parameter: what it writes to its standard output for a file and
  its exit status, or \<open>None\<close> when it could not be started or died of a signal. At most 127 bytes of the
  output are read.
\<close>

definition store_hash_file ::
  "(fs \<Rightarrow> path \<Rightarrow> (string \<times> nat) option) \<Rightarrow> fs \<Rightarrow> path \<Rightarrow> nat \<Rightarrow> string option" where
  "store_hash_file sha256sum fs p out_size =
     (if out_size < STORE_SHA256_MAX then None
      else case sha256sum fs p of
        None \<Rightarrow> None
      | Some (stdout, status) \<Rightarrow>
          (let buf = take 127 stdout
           in if status \<noteq> 0 then None
              else if length buf < STORE_SHA256_HEX_LEN then None
              else let out = take STORE_SHA256_HEX_LEN buf
                   in if store_digest_is_valid out then Some out else None))"

section \<open>Paths of the store\<close>

lemmas store_paths = entry_at_def blob_at_def pub_tmp_at_def STORE_DIR_def

lemma entry_at_inj [simp]: "entry_at r a = entry_at r b \<longleftrightarrow> a = b"
  by (simp add: store_paths)

lemma blob_at_inj [simp]: "blob_at r a = blob_at r b \<longleftrightarrow> a = b"
  by (simp add: store_paths)

lemma entry_blob_disjoint [simp]: "entry_at r a \<noteq> blob_at r b" "blob_at r b \<noteq> entry_at r a"
  by (simp_all add: store_paths)

lemma pub_tmp_disjoint [simp]:
  "entry_at (st_root s) a \<noteq> pub_tmp_at env s" "blob_at (st_root s) b \<noteq> pub_tmp_at env s"
  "pub_tmp_at env s \<noteq> entry_at (st_root s) a" "pub_tmp_at env s \<noteq> blob_at (st_root s) b"
  by (simp_all add: store_paths)

lemma raw_entry_path_Some: "raw_entry_path r n = Some p \<Longrightarrow> p = entry_at r n"
  by (auto simp: raw_entry_path_def Let_def split: if_splits)

lemma blob_path_Some: "blob_path r d = Some p \<Longrightarrow> p = blob_at r d"
  by (auto simp: blob_path_def Let_def split: if_splits)

lemma entry_path_canon: "entry_path r name = Option.bind (canon_of name) (raw_entry_path r)"
  by (auto simp: entry_path_def canon_of_def split: option.splits)

lemma entry_path_Some:
  "entry_path r name = Some p \<Longrightarrow> \<exists>c. canon_of name = Some c \<and> raw_entry_path r c = Some p \<and> p = entry_at r c"
  using raw_entry_path_Some by (auto simp: entry_path_canon bind_eq_Some_conv)

text \<open>
  The target written by \<^verbatim>\<open>store_publish\<close> leads from any entry to the blob, wherever the tree is
  mounted.
\<close>

lemma join_path_plain: "take 3 t \<noteq> ''../'' \<Longrightarrow> join_path d t = d @ CHR ''/'' # t"
  by (simp add: join_path.simps)

lemma join_path_up: "join_path d (''../'' @ t) = join_path (parent d) t"
  by (subst join_path.simps) simp

lemma parent_entry_at: "CHR ''/'' \<notin> set n \<Longrightarrow> parent (entry_at r n) = r @ ''/packages''"
  using parent_child [of n "r @ ''/packages''"] by (simp add: store_paths)

lemma parent_packages: "parent (r @ ''/packages'') = r"
  using parent_child [of "''packages''" r] by simp

lemma published_target_path:
  assumes "CHR ''/'' \<notin> set n"
  shows "link_path (entry_at r n) (''../blobs/'' @ d) = blob_at r d"
proof -
  have "join_path (r @ ''/packages'') (''../'' @ ''blobs/'' @ d) = join_path r (''blobs/'' @ d)"
    unfolding join_path_up parent_packages ..
  then show ?thesis
    by (simp add: link_path_def parent_entry_at [OF assms] join_path_plain blob_at_def)
qed

section \<open>The catalogue\<close>

text \<open>
  What the store holds, read off the file system: the digest an entry's link carries, and the
  contents of a blob.
\<close>

fun link_digest :: "node option \<Rightarrow> string option" where
  "link_digest (Some (Lnk t m)) =
     (let b = basename (take (PATH_MAX - 1) t) in if store_digest_is_valid b then Some b else None)"
| "link_digest nd = None"

definition entry_digest :: "store \<Rightarrow> string \<Rightarrow> string option" where
  "entry_digest s n = link_digest (map_of (st_fs s) (entry_at (st_root s) n))"

fun reg_bytes :: "node option \<Rightarrow> bytes option" where
  "reg_bytes (Some (Reg b m t)) = Some b"
| "reg_bytes nd = None"

definition blob_bytes :: "store \<Rightarrow> string \<Rightarrow> bytes option" where
  "blob_bytes s d = reg_bytes (map_of (st_fs s) (blob_at (st_root s) d))"

lemma resolve_path_OK:
  "resolve_path env fs p STORE_SHA256_MAX = Inr d \<longleftrightarrow>
     \<not> ev_fails env SYS_readlink p \<and> link_digest (map_of fs p) = Some d"
  by (auto simp: resolve_path_def sys_readlink_def Let_def split: option.splits node.splits if_splits)

lemma resolve_path_NOT_FOUND:
  "resolve_path env fs p STORE_SHA256_MAX = Inl STORE_ERR_NOT_FOUND \<longleftrightarrow>
     \<not> ev_fails env SYS_readlink p \<and> map_of fs p = None"
  by (auto simp: resolve_path_def sys_readlink_def Let_def split: option.splits node.splits if_splits)

lemma resolve_path_error:
  "resolve_path env fs p n = Inl e \<Longrightarrow> e = STORE_ERR_NOT_FOUND \<or> e = STORE_ERR_IO"
  by (auto simp: resolve_path_def Let_def split: sum.splits if_splits)

lemma resolve_path_cong:
  "map_of fs p = map_of fs' p \<Longrightarrow> resolve_path env fs p n = resolve_path env fs' p n"
  by (simp add: resolve_path_def sys_readlink_def)

lemma digest_fits: "store_digest_is_valid d \<Longrightarrow> take (PATH_MAX - 1) (''../blobs/'' @ d) = ''../blobs/'' @ d"
  by (simp add: store_digest_is_valid_iff STORE_SHA256_HEX_LEN_def PATH_MAX_def)

lemma published_link_digest:
  assumes "store_digest_is_valid d"
  shows "link_digest (Some (Lnk (''../blobs/'' @ d) m)) = Some d"
proof -
  have "basename (''../blobs'' @ CHR ''/'' # d) = d" by (rule basename_child [OF digest_no_slash [OF assms]])
  moreover have "''../blobs'' @ CHR ''/'' # d = ''../blobs/'' @ d" by simp
  ultimately have "basename (''../blobs/'' @ d) = d" by metis
  then show ?thesis
    unfolding link_digest.simps digest_fits [OF assms] by (simp only: Let_def assms if_True)
qed

section \<open>Candidates of a bare name\<close>

text \<open>The digest the entry of a literal name resolves to, if it resolves.\<close>

definition raw_digest :: "env \<Rightarrow> store \<Rightarrow> string \<Rightarrow> string option" where
  "raw_digest env s n =
     (case raw_entry_path (st_root s) n of
        None \<Rightarrow> None
      | Some p \<Rightarrow> (case resolve_path env (st_fs s) p STORE_SHA256_MAX of Inl _ \<Rightarrow> None | Inr d \<Rightarrow> Some d))"

definition candidates :: "env \<Rightarrow> store \<Rightarrow> string list \<Rightarrow> (string \<times> string) list" where
  "candidates env s ns = List.map_filter (\<lambda>n. map_option (Pair n) (raw_digest env s n)) ns"

lemma candidates_simps [simp]:
  "candidates env s [] = []"
  "candidates env s (n # ns) =
     (case raw_digest env s n of None \<Rightarrow> candidates env s ns | Some d \<Rightarrow> (n, d) # candidates env s ns)"
  by (simp_all add: candidates_def List.map_filter_simps split: option.splits)

lemma candidates_iff: "(n, d) \<in> set (candidates env s ns) \<longleftrightarrow> n \<in> set ns \<and> raw_digest env s n = Some d"
  by (auto simp: candidates_def map_filter_iff)

lemma raw_digest_entry: "raw_digest env s n = Some d \<Longrightarrow> entry_digest s n = Some d"
  by (auto simp: raw_digest_def entry_digest_def resolve_path_OK dest: raw_entry_path_Some
      split: option.splits sum.splits)

lemma raw_digest_cong:
  assumes "st_root s' = st_root s"
    and "map_of (st_fs s') (entry_at (st_root s) n) = map_of (st_fs s) (entry_at (st_root s) n)"
  shows "raw_digest env s' n = raw_digest env s n"
proof (cases "raw_entry_path (st_root s) n")
  case (Some p)
  then have "resolve_path env (st_fs s') p m = resolve_path env (st_fs s) p m" for m
    using assms(2) raw_entry_path_Some by (intro resolve_path_cong) auto
  then show ?thesis using Some assms(1) by (simp add: raw_digest_def)
qed (simp add: raw_digest_def assms(1))

lemma candidates_cong:
  "(\<And>n. n \<in> set ns \<Longrightarrow> raw_digest env s' n = raw_digest env s n) \<Longrightarrow>
   candidates env s' ns = candidates env s ns"
  by (induction ns) (auto split: option.splits)

lemma arch_probe_snprintf [simp]: "snprintf STORE_NAME_MAX (arch_probe c a) = arch_probe c a"
  by (simp add: arch_probe_def snprintf_def del: take_append)

lemma resolve_arches_hit:
  "resolve_arches env s c (Some (n, d)) as =
     (if \<forall>(n', d') \<in> set (candidates env s (map (arch_probe c) as)). d' = d
      then Inr (Some (n, d)) else Inl STORE_ERR_AMBIGUOUS)"
proof (induction as)
  case (Cons a as)
  then show ?case by (auto simp: raw_digest_def split: option.splits sum.splits)
qed simp

lemma resolve_arches_none:
  "resolve_arches env s c None as =
     (case candidates env s (map (arch_probe c) as) of
        [] \<Rightarrow> Inr None
      | (n, d) # rest \<Rightarrow>
          if \<forall>(n', d') \<in> set rest. d' = d then Inr (Some (n, d)) else Inl STORE_ERR_AMBIGUOUS)"
proof (induction as)
  case (Cons a as)
  show ?case
  proof (cases "raw_digest env s (arch_probe c a)")
    case None
    then have "resolve_arches env s c None (a # as) = resolve_arches env s c None as"
      by (auto simp: raw_digest_def split: option.splits sum.splits)
    then show ?thesis using Cons None by simp
  next
    case (Some d)
    then have "resolve_arches env s c None (a # as) = resolve_arches env s c (Some (arch_probe c a, d)) as"
      by (auto simp: raw_digest_def split: option.splits sum.splits)
    then show ?thesis using Some by (simp add: resolve_arches_hit)
  qed
qed simp

text \<open>The names a bare canonical name may stand for, in the order they are looked at.\<close>

definition spellings :: "string \<Rightarrow> string list" where
  "spellings c = c # map (arch_probe c) g_arches"

definition choose_candidate :: "nat \<Rightarrow> (string \<times> string) list \<Rightarrow> store_error + string \<times> string" where
  "choose_candidate nsz cs =
     (case cs of
        [] \<Rightarrow> Inl STORE_ERR_NOT_FOUND
      | (n, d) # rest \<Rightarrow>
          if \<forall>(n', d') \<in> set rest. d' = d then Inr (d, snprintf nsz n) else Inl STORE_ERR_AMBIGUOUS)"

lemma canon_of_length: "canon_of name = Some c \<Longrightarrow> length c < STORE_NAME_MAX"
  using canon_of_valid by (auto simp: store_name_is_valid_iff)

lemma canon_snprintf: "canon_of name = Some c \<Longrightarrow> snprintf STORE_NAME_MAX c = c"
  using canon_of_length by (fastforce simp: snprintf_def)

lemma canon_of_iff: "canon_of name = Some c \<longleftrightarrow> (\<exists>k. store_canonical_name name STORE_NAME_MAX = Some (k, c))"
  by (auto simp: canon_of_def)

lemma resolve_as_bare:
  assumes c: "canon_of name = Some c" and a: "store_arch_of c = None"
    and p: "raw_entry_path (st_root s) c = Some p"
    and ok: "resolve_path env (st_fs s) p STORE_SHA256_MAX \<noteq> Inl STORE_ERR_IO"
  shows "store_resolve_as env s name STORE_SHA256_MAX nsz = choose_candidate nsz (candidates env s (spellings c))"
proof -
  obtain k where k: "store_canonical_name name STORE_NAME_MAX = Some (k, c)"
    using c by (auto simp: canon_of_def)
  have v: "store_name_is_valid name" using canon_of_valid [OF c] by simp
  show ?thesis
  proof (cases "resolve_path env (st_fs s) p STORE_SHA256_MAX")
    case (Inl e)
    then have e: "e = STORE_ERR_NOT_FOUND" using resolve_path_error ok by blast
    then show ?thesis
      using v k a p Inl
      by (auto simp: store_resolve_as_def Let_def resolve_arches_none spellings_def choose_candidate_def
          raw_digest_def split: list.splits)
  next
    case (Inr d)
    then show ?thesis
      using v k a p canon_snprintf [OF c]
      by (auto simp: store_resolve_as_def Let_def resolve_arches_hit spellings_def choose_candidate_def
          raw_digest_def)
  qed
qed

lemma resolve_as_arch:
  assumes c: "canon_of name = Some c" and a: "store_arch_of c \<noteq> None"
    and p: "raw_entry_path (st_root s) c = Some p"
  shows "store_resolve_as env s name STORE_SHA256_MAX nsz =
    map_sum id (\<lambda>d. (d, snprintf nsz c)) (resolve_path env (st_fs s) p STORE_SHA256_MAX)"
proof -
  obtain k where k: "store_canonical_name name STORE_NAME_MAX = Some (k, c)"
    using c by (auto simp: canon_of_def)
  have v: "store_name_is_valid name" using canon_of_valid [OF c] by simp
  show ?thesis using v k a p by (auto simp: store_resolve_as_def Let_def split: sum.splits)
qed

lemma resolve_as_io:
  assumes c: "canon_of name = Some c" and a: "store_arch_of c = None"
    and p: "raw_entry_path (st_root s) c = Some p"
    and io: "resolve_path env (st_fs s) p STORE_SHA256_MAX = Inl STORE_ERR_IO"
  shows "store_resolve_as env s name STORE_SHA256_MAX nsz = Inl STORE_ERR_IO"
proof -
  obtain k where k: "store_canonical_name name STORE_NAME_MAX = Some (k, c)"
    using c by (auto simp: canon_of_def)
  have v: "store_name_is_valid name" using canon_of_valid [OF c] by simp
  show ?thesis using v k a p io by (auto simp: store_resolve_as_def Let_def)
qed

lemma resolve_as_invalid:
  "canon_of name = None \<Longrightarrow> store_resolve_as env s name STORE_SHA256_MAX nsz = Inl STORE_ERR_INVALID_NAME"
  "canon_of name = Some c \<Longrightarrow> raw_entry_path (st_root s) c = None \<Longrightarrow>
   store_resolve_as env s name STORE_SHA256_MAX nsz = Inl STORE_ERR_INVALID_NAME"
  by (auto simp: store_resolve_as_def canon_of_def split: option.splits)

text \<open>A probe never reads the bare entry: it has a hyphen where the bare name has its suffix.\<close>

lemma arch_probe_not_self:
  assumes "store_name_is_valid c"
  shows "arch_probe c a \<noteq> c"
proof -
  have "store_suffix_of c \<noteq> None" using assms by (simp add: store_name_is_valid_iff)
  then obtain stem ext where e: "ext \<in> set known_exts" "stem \<noteq> []" "c = stem @ ext"
    by (rule store_suffix_of_cases)
  have sl: "stem_len c = length stem"
    using e store_suffix_of_append [of ext stem] by (simp add: stem_len_def)
  have dot: "\<exists>r. ext = CHR ''.'' # r" using e(1) by (auto simp: known_exts_code)
  have len: "length stem < 255"
    using assms dot e(3) by (auto simp: store_name_is_valid_iff STORE_NAME_MAX_def)
  have pr: "\<exists>t. arch_probe c a = stem @ CHR ''-'' # t"
  proof -
    have "arch_probe c a = take 255 (stem @ CHR ''-'' # a @ (case store_suffix_of c of None \<Rightarrow> [] | Some x \<Rightarrow> x))"
      using sl e(3) by (simp add: arch_probe_def snprintf_def STORE_NAME_MAX_def)
    then show ?thesis using len by (cases "255 - length stem") auto
  qed
  then show ?thesis using dot e(3) by auto
qed

text \<open>What each result of a resolve says about the entries.\<close>

lemma resolve_as_cases:
  obtains (invalid) "store_resolve_as env s name STORE_SHA256_MAX nsz = Inl STORE_ERR_INVALID_NAME"
      "Option.bind (canon_of name) (raw_entry_path (st_root s)) = None"
    | (arch) c p where "canon_of name = Some c" "raw_entry_path (st_root s) c = Some p"
      "store_arch_of c \<noteq> None"
      "store_resolve_as env s name STORE_SHA256_MAX nsz =
        map_sum id (\<lambda>d. (d, snprintf nsz c)) (resolve_path env (st_fs s) p STORE_SHA256_MAX)"
    | (io) c p where "canon_of name = Some c" "raw_entry_path (st_root s) c = Some p"
      "store_arch_of c = None" "resolve_path env (st_fs s) p STORE_SHA256_MAX = Inl STORE_ERR_IO"
      "store_resolve_as env s name STORE_SHA256_MAX nsz = Inl STORE_ERR_IO"
    | (bare) c p where "canon_of name = Some c" "raw_entry_path (st_root s) c = Some p"
      "store_arch_of c = None" "resolve_path env (st_fs s) p STORE_SHA256_MAX \<noteq> Inl STORE_ERR_IO"
      "store_resolve_as env s name STORE_SHA256_MAX nsz = choose_candidate nsz (candidates env s (spellings c))"
proof (cases "Option.bind (canon_of name) (raw_entry_path (st_root s))")
  case None
  then show thesis
    using invalid resolve_as_invalid [of name] by (cases "canon_of name") auto
next
  case (Some p)
  then obtain c where c: "canon_of name = Some c" "raw_entry_path (st_root s) c = Some p"
    by (auto simp: bind_eq_Some_conv)
  then show thesis
    using arch [OF c _ resolve_as_arch [OF c(1) _ c(2)]] io [OF c _ _ resolve_as_io [OF c(1) _ c(2)]]
      bare [OF c _ _ resolve_as_bare [OF c(1) _ c(2)]] by blast
qed

lemma resolve_as_error: "store_resolve_as env s name STORE_SHA256_MAX nsz = Inl e \<Longrightarrow> e \<noteq> STORE_OK"
proof (cases rule: resolve_as_cases [of env s name nsz])
  case (arch c p)
  then show "store_resolve_as env s name STORE_SHA256_MAX nsz = Inl e \<Longrightarrow> ?thesis"
    by (cases "resolve_path env (st_fs s) p STORE_SHA256_MAX") (auto dest: resolve_path_error)
next
  case (bare c p)
  then show "store_resolve_as env s name STORE_SHA256_MAX nsz = Inl e \<Longrightarrow> ?thesis"
    by (auto simp: choose_candidate_def split: list.splits if_splits)
qed simp_all

lemma resolve_error: "store_resolve env s name STORE_SHA256_MAX = Inl e \<Longrightarrow> e \<noteq> STORE_OK"
  using resolve_as_error [of env s name 0]
  by (cases "store_resolve_as env s name STORE_SHA256_MAX 0") (auto simp: store_resolve_def)

lemma store_resolve_Inr:
  "store_resolve env s name STORE_SHA256_MAX = Inr d \<longleftrightarrow>
     (\<exists>n. store_resolve_as env s name STORE_SHA256_MAX 0 = Inr (d, n))"
  by (cases "store_resolve_as env s name STORE_SHA256_MAX 0") (auto simp: store_resolve_def)

lemma store_resolve_Inl:
  "store_resolve env s name STORE_SHA256_MAX = Inl e \<longleftrightarrow>
     store_resolve_as env s name STORE_SHA256_MAX 0 = Inl e"
  by (cases "store_resolve_as env s name STORE_SHA256_MAX 0") (auto simp: store_resolve_def)

lemma resolve_not_found:
  assumes "store_resolve env s name STORE_SHA256_MAX = Inl STORE_ERR_NOT_FOUND"
  obtains c p where "canon_of name = Some c" "raw_entry_path (st_root s) c = Some p"
    "map_of (st_fs s) p = None" "\<not> ev_fails env SYS_readlink p"
    "store_arch_of c = None \<Longrightarrow> candidates env s (map (arch_probe c) g_arches) = []"
proof -
  have nf: "store_resolve_as env s name STORE_SHA256_MAX 0 = Inl STORE_ERR_NOT_FOUND"
    using assms by (simp add: store_resolve_Inl)
  show thesis
  proof (cases rule: resolve_as_cases [of env s name 0])
    case (arch c p)
    then have "resolve_path env (st_fs s) p STORE_SHA256_MAX = Inl STORE_ERR_NOT_FOUND"
      using nf by (cases "resolve_path env (st_fs s) p STORE_SHA256_MAX") auto
    then show thesis using that [OF arch(1,2)] arch(3) by (simp add: resolve_path_NOT_FOUND)
  next
    case (bare c p)
    then have none: "candidates env s (spellings c) = []"
      using nf by (auto simp: choose_candidate_def split: list.splits if_splits)
    then have "raw_digest env s c = None" "candidates env s (map (arch_probe c) g_arches) = []"
      by (auto simp: spellings_def split: option.splits)
    moreover have "resolve_path env (st_fs s) p STORE_SHA256_MAX = Inl STORE_ERR_NOT_FOUND"
      using calculation(1) bare(2,4) by (auto simp: raw_digest_def dest: resolve_path_error split: sum.splits)
    ultimately show thesis using that [OF bare(1,2)] by (simp add: resolve_path_NOT_FOUND)
  qed (use nf in simp_all)
qed

text \<open>A digest a resolve reports is the digest of some entry.\<close>

lemma resolve_as_entry:
  "store_resolve_as env s name STORE_SHA256_MAX nsz = Inr (d, nm) \<Longrightarrow> \<exists>n. entry_digest s n = Some d"
proof (cases rule: resolve_as_cases [of env s name nsz])
  case (arch c p)
  assume "store_resolve_as env s name STORE_SHA256_MAX nsz = Inr (d, nm)"
  then have "resolve_path env (st_fs s) p STORE_SHA256_MAX = Inr d"
    using arch(4) by (cases "resolve_path env (st_fs s) p STORE_SHA256_MAX") auto
  then have "raw_digest env s c = Some d" using arch(2) by (simp add: raw_digest_def)
  then show ?thesis using raw_digest_entry by blast
next
  case (bare c p)
  assume "store_resolve_as env s name STORE_SHA256_MAX nsz = Inr (d, nm)"
  then have "\<exists>n. (n, d) \<in> set (candidates env s (spellings c))"
    using bare(5) by (auto simp: choose_candidate_def split: list.splits if_splits)
  then obtain n where "(n, d) \<in> set (candidates env s (spellings c))" by blast
  then have "raw_digest env s n = Some d" by (simp add: candidates_iff)
  then show ?thesis by (blast dest: raw_digest_entry)
qed simp_all

end
