(* ===== verification/Store_Catalogue.thy ===== *)
theory Store_Catalogue
  imports Store_Ops
begin

text \<open>
  What publishing, unpublishing and adopting do to the catalogue of the store: the map from entry names
  to digests and the map from digests to contents. The abstract catalogue operations are at
  the end, with the lemmas that the operations of \<^verbatim>\<open>src/src/store.c\<close> implement them.
\<close>

section \<open>Effects of the system calls\<close>

lemma unlink_lookup:
  "sys_unlink env fs p = Inr fs' \<Longrightarrow> map_of fs' q = (if q = p then None else map_of fs q)"
  by (auto simp: sys_unlink_def fs_simps split: if_splits option.splits node.splits)

lemma unlink_node: "sys_unlink env fs p = Inr fs' \<Longrightarrow> map_of fs p \<noteq> None \<and> map_of fs p \<noteq> Some Dir"
  by (auto simp: sys_unlink_def split: if_splits option.splits node.splits)

lemma ignoring_unlink_other: "q \<noteq> p \<Longrightarrow> map_of (ignoring fs (sys_unlink env fs p)) q = map_of fs q"
  using unlink_lookup by (auto simp: ignoring_def split: sum.splits)

lemma symlink_lookup:
  "sys_symlink env fs t p = Inr fs' \<Longrightarrow>
   map_of fs p = None \<and> map_of fs' q = (if q = p then Some (Lnk t (ev_now env)) else map_of fs q)"
  by (auto simp: sys_symlink_def fs_simps split: if_splits)

lemma rename_lookup:
  assumes "sys_rename env fs a b = Inr fs'"
  shows "\<exists>nd. map_of fs a = Some nd \<and> nd \<noteq> Dir \<and> map_of fs b \<noteq> Some Dir
    \<and> (\<forall>q. map_of fs' q = (if q = b then Some nd else if q = a then None else map_of fs q))"
  using assms by (auto simp: sys_rename_def fs_simps split: if_splits option.splits)

lemma chmod_lookup:
  "sys_chmod env fs p m = Inr fs' \<Longrightarrow> map_of fs p = Some (Reg b k t) \<Longrightarrow>
   map_of fs' q = (if q = p then Some (Reg b m t) else map_of fs q)"
  by (auto simp: sys_chmod_def fs_simps namei_plain split: if_splits)

text \<open>No call takes a directory away, and none makes a second node for a path.\<close>

definition fs_ok :: "fs \<Rightarrow> bool" where
  "fs_ok fs \<longleftrightarrow> distinct (map fst fs)"

lemma update_ok: "fs_ok fs \<Longrightarrow> fs_ok (AList.update p nd fs)"
  by (simp add: fs_ok_def distinct_update)

lemma delete_ok: "fs_ok fs \<Longrightarrow> fs_ok (AList.delete p fs)"
  by (simp add: fs_ok_def distinct_delete)

lemma sys_ok:
  "fs_ok fs \<Longrightarrow> sys_unlink env fs p = Inr fs' \<Longrightarrow> fs_ok fs'"
  "fs_ok fs \<Longrightarrow> sys_symlink env fs t p = Inr fs' \<Longrightarrow> fs_ok fs'"
  "fs_ok fs \<Longrightarrow> sys_rename env fs a b = Inr fs' \<Longrightarrow> fs_ok fs'"
  "fs_ok fs \<Longrightarrow> sys_chmod env fs p m = Inr fs' \<Longrightarrow> fs_ok fs'"
  "fs_ok fs \<Longrightarrow> sys_mkdir env fs p = Inr fs' \<Longrightarrow> fs_ok fs'"
  by (auto simp: sys_unlink_def sys_symlink_def sys_rename_def sys_chmod_def sys_mkdir_def
      update_ok delete_ok split: if_splits option.splits node.splits)

lemma ignoring_ok: "fs_ok fs \<Longrightarrow> (\<And>fs'. r = Inr fs' \<Longrightarrow> fs_ok fs') \<Longrightarrow> fs_ok (ignoring fs r)"
  by (auto simp: ignoring_def split: sum.splits)

lemma sys_dirs:
  "map_of fs d = Some Dir \<Longrightarrow> sys_unlink env fs p = Inr fs' \<Longrightarrow> map_of fs' d = Some Dir"
  "map_of fs d = Some Dir \<Longrightarrow> sys_symlink env fs t p = Inr fs' \<Longrightarrow> map_of fs' d = Some Dir"
  "map_of fs d = Some Dir \<Longrightarrow> sys_rename env fs a b = Inr fs' \<Longrightarrow> map_of fs' d = Some Dir"
  "map_of fs d = Some Dir \<Longrightarrow> sys_chmod env fs p m = Inr fs' \<Longrightarrow> map_of fs' d = Some Dir"
  "map_of fs d = Some Dir \<Longrightarrow> sys_mkdir env fs p = Inr fs' \<Longrightarrow> map_of fs' d = Some Dir"
  by (auto simp: sys_unlink_def sys_symlink_def sys_rename_def sys_chmod_def sys_mkdir_def fs_simps
      split: if_splits option.splits node.splits)

lemma ignoring_dirs:
  "map_of fs d = Some Dir \<Longrightarrow> (\<And>fs'. r = Inr fs' \<Longrightarrow> map_of fs' d = Some Dir) \<Longrightarrow>
   map_of (ignoring fs r) d = Some Dir"
  by (auto simp: ignoring_def split: sum.splits)

section \<open>Publishing\<close>

text \<open>
  A publish either leaves everything but its temporary link as it was, or adds the one entry of
  the canonical name.
\<close>

lemma publish_outcome:
  assumes run: "store_publish env s name digest = (e, s')"
  obtains (kept) "st_root s' = st_root s"
      "\<And>q. q \<noteq> pub_tmp_at env s \<Longrightarrow> map_of (st_fs s') q = map_of (st_fs s) q"
      "e = STORE_OK \<Longrightarrow> s' = s \<and> store_resolve env s name STORE_SHA256_MAX = Inr digest"
    | (fresh) c p where "canon_of name = Some c" "raw_entry_path (st_root s) c = Some p"
      "e = STORE_OK" "store_resolve env s name STORE_SHA256_MAX = Inl STORE_ERR_NOT_FOUND"
      "store_digest_is_valid digest" "store_blob_exists env s digest \<noteq> None" "st_root s' = st_root s"
      "\<And>q. map_of (st_fs s') q =
        (if q = p then Some (Lnk (''../blobs/'' @ digest) (ev_now env))
         else if q = pub_tmp_at env s then None else map_of (st_fs s) q)"
proof -
  let ?tmp = "pub_tmp_at env s" and ?target = "''../blobs/'' @ digest"
  let ?fs1 = "ignoring (st_fs s) (sys_unlink env (st_fs s) ?tmp)"
  let ?s1 = "s\<lparr>st_tmp := next_tmp (st_tmp s)\<rparr>"
  have fs1: "map_of ?fs1 q = map_of (st_fs s) q" if "q \<noteq> ?tmp" for q
    using ignoring_unlink_other [OF that] .
  show thesis
  proof (cases "store_name_is_valid name \<and> store_digest_is_valid digest
      \<and> store_blob_exists env s digest \<noteq> None
      \<and> store_resolve env s name STORE_SHA256_MAX = Inl STORE_ERR_NOT_FOUND")
    case False
    then have "s' = s \<and> (e = STORE_OK \<longrightarrow> store_resolve env s name STORE_SHA256_MAX = Inr digest)"
      using run resolve_error [of env s name]
      by (auto simp: store_publish_def split: if_splits sum.splits)
    then show thesis using kept by blast
  next
    case True
    show thesis
    proof (cases "entry_path (st_root s) name = None \<or> \<not> snprintf_fits PATH_MAX ?target
        \<or> \<not> snprintf_fits PATH_MAX ?tmp")
      case early: True
      then have "e \<noteq> STORE_OK \<and> st_root s' = st_root s \<and> st_fs s' = st_fs s"
        using run True by (auto simp: store_publish_def Let_def split: option.splits if_splits)
      then show thesis using kept by auto
    next
      case False
      then obtain p where ep: "entry_path (st_root s) name = Some p" by auto
      then obtain c where c: "canon_of name = Some c" "raw_entry_path (st_root s) c = Some p" "p = entry_at (st_root s) c"
        using entry_path_Some by blast
      have body: "(case sys_symlink env ?fs1 ?target ?tmp of
          Inl _ \<Rightarrow> (STORE_ERR_IO, ?s1\<lparr>st_fs := ?fs1\<rparr>)
        | Inr fs2 \<Rightarrow> (case sys_rename env fs2 ?tmp p of
              Inl _ \<Rightarrow> (STORE_ERR_IO, ?s1\<lparr>st_fs := ignoring fs2 (sys_unlink env fs2 ?tmp)\<rparr>)
            | Inr fs3 \<Rightarrow> (STORE_OK, ?s1\<lparr>st_fs := fs3\<rparr>))) = (e, s')"
        using run True False ep by (simp add: store_publish_def Let_def)
      show thesis
      proof (cases "sys_symlink env ?fs1 ?target ?tmp")
        case (Inl x)
        then show thesis using body kept fs1 by auto
      next
        case fs2: (Inr fs2)
        have fs2q: "map_of fs2 q = (if q = ?tmp then Some (Lnk ?target (ev_now env)) else map_of (st_fs s) q)" for q
          using symlink_lookup [OF fs2, of q] fs1 [of q] by auto
        show thesis
        proof (cases "sys_rename env fs2 ?tmp p")
          case (Inl x)
          then have "e = STORE_ERR_IO" "s' = ?s1\<lparr>st_fs := ignoring fs2 (sys_unlink env fs2 ?tmp)\<rparr>"
            using body fs2 by auto
          then show thesis using kept fs2q ignoring_unlink_other by auto
        next
          case (Inr fs3)
          then have "map_of fs3 q = (if q = p then Some (Lnk ?target (ev_now env))
              else if q = ?tmp then None else map_of (st_fs s) q)" for q
            using rename_lookup [OF Inr] fs2q by auto
          moreover have "e = STORE_OK" "s' = ?s1\<lparr>st_fs := fs3\<rparr>" using body fs2 Inr by auto
          ultimately show thesis using fresh [OF c(1,2)] True by auto
        qed
      qed
    qed
  qed
qed

lemma publish_root [simp]: "st_root (snd (store_publish env s name digest)) = st_root s"
proof -
  obtain e s' where r: "store_publish env s name digest = (e, s')" by (metis prod.exhaust)
  then show ?thesis by (cases rule: publish_outcome) (simp_all add: r)
qed

text \<open>Entries and blobs after a publish.\<close>

lemma publish_blobs:
  assumes "store_publish env s name digest = (e, s')"
  shows "map_of (st_fs s') (blob_at (st_root s) d) = map_of (st_fs s) (blob_at (st_root s) d)"
  using assms by (cases rule: publish_outcome) (auto dest: raw_entry_path_Some)

lemma publish_entries:
  assumes "store_publish env s name digest = (e, s')"
  shows "entry_digest s' = entry_digest s \<or>
    (\<exists>c. canon_of name = Some c \<and> e = STORE_OK \<and> entry_digest s c = None
       \<and> entry_digest s' = (entry_digest s)(c \<mapsto> digest))"
  using assms
proof (cases rule: publish_outcome)
  case kept
  then have "entry_digest s' = entry_digest s" by (simp add: entry_digest_def fun_eq_iff)
  then show ?thesis by blast
next
  case (fresh c p)
  have p: "p = entry_at (st_root s) c" using fresh(2) raw_entry_path_Some by blast
  have "entry_digest s' = (entry_digest s)(c \<mapsto> digest)"
    using fresh published_link_digest [OF fresh(5)] by (auto simp: entry_digest_def fun_eq_iff p)
  moreover have "entry_digest s c = None"
    by (rule resolve_not_found [OF fresh(4)]) (use fresh(1,2) p in \<open>simp add: entry_digest_def\<close>)
  ultimately show ?thesis using fresh(1,3) by blast
qed

lemma publish_resolve:
  assumes run: "store_publish env s name digest = (STORE_OK, s')"
  shows "store_resolve env s' name STORE_SHA256_MAX = Inr digest"
  using run
proof (cases rule: publish_outcome)
  case kept
  then show ?thesis by simp
next
  case (fresh c p)
  have p: "p = entry_at (st_root s) c" using fresh(2) raw_entry_path_Some by blast
  have nf: "\<not> ev_fails env SYS_readlink p"
    "store_arch_of c = None \<Longrightarrow> candidates env s (map (arch_probe c) g_arches) = []"
    by (rule resolve_not_found [OF fresh(4)]; use fresh(1,2) in simp)+
  have raw': "raw_entry_path (st_root s') c = Some p" using fresh(2,7) by simp
  have now: "resolve_path env (st_fs s') p STORE_SHA256_MAX = Inr digest"
    using nf(1) fresh(8) published_link_digest [OF fresh(5)] by (simp add: resolve_path_OK)
  show ?thesis
  proof (cases "store_arch_of c = None")
    case True
    have v: "store_name_is_valid c" using canon_of_valid [OF fresh(1)] by simp
    have "candidates env s' (map (arch_probe c) g_arches) = candidates env s (map (arch_probe c) g_arches)"
    proof (rule candidates_cong)
      fix n assume "n \<in> set (map (arch_probe c) g_arches)"
      then have "n \<noteq> c" using arch_probe_not_self [OF v] by auto
      then show "raw_digest env s' n = raw_digest env s n"
        by (intro raw_digest_cong) (simp_all add: fresh(7,8) p)
    qed
    then have "candidates env s' (map (arch_probe c) g_arches) = []" using nf(2) [OF True] by simp
    moreover have "raw_digest env s' c = Some digest" using raw' now by (simp add: raw_digest_def)
    ultimately have "candidates env s' (spellings c) = [(c, digest)]" by (simp add: spellings_def)
    then show ?thesis
      using resolve_as_bare [OF fresh(1) True raw', of env 0] now
      by (simp add: store_resolve_def choose_candidate_def)
  next
    case False
    then show ?thesis
      using resolve_as_arch [OF fresh(1) False raw', of env 0] now by (simp add: store_resolve_def)
  qed
qed

section \<open>Unpublishing\<close>

lemma unpublish_entry_outcome:
  assumes "unpublish_entry env s p r = (e, r', s')"
  shows "r' = r \<and> st_root s' = st_root s
    \<and> (e \<noteq> STORE_OK \<longrightarrow> s' = s)
    \<and> (e = STORE_OK \<longrightarrow> (\<forall>q. map_of (st_fs s') q = (if q = p then None else map_of (st_fs s) q)))"
  using assms by (auto simp: unpublish_entry_def unlink_lookup split: sum.splits if_splits)

text \<open>The entry of the signature, when the name has one.\<close>

definition sig_entry :: "store \<Rightarrow> string \<Rightarrow> path option" where
  "sig_entry s name = Option.bind (store_signature_name name STORE_NAME_MAX) (entry_path (st_root s))"

lemma unpublish_outcome:
  assumes run: "store_unpublish env s name = (e, r, s')"
  obtains (kept) "s' = s" "e \<noteq> STORE_OK" "\<not> r"
    | (partial) c sp where "canon_of name = Some c" "sig_entry s name = Some sp" "e \<noteq> STORE_OK" "r"
      "st_root s' = st_root s" "map_of (st_fs s) sp \<noteq> None"
      "\<And>q. map_of (st_fs s') q = (if q = sp then None else map_of (st_fs s) q)"
    | (gone) c where "canon_of name = Some c" "e = STORE_OK" "st_root s' = st_root s"
      "r \<longleftrightarrow> (\<exists>sp. sig_entry s name = Some sp \<and> map_of (st_fs s) sp \<noteq> None)"
      "\<And>q. map_of (st_fs s') q =
        (if q = entry_at (st_root s) c \<or> sig_entry s name = Some q then None else map_of (st_fs s) q)"
proof (cases "store_name_is_valid name \<and> entry_path (st_root s) name \<noteq> None")
  case False
  then have "s' = s \<and> e \<noteq> STORE_OK \<and> \<not> r" using run by (auto simp: store_unpublish_def split: if_splits)
  then show thesis using kept by blast
next
  case True
  then obtain p where p: "entry_path (st_root s) name = Some p" by blast
  then obtain c where c: "canon_of name = Some c" "p = entry_at (st_root s) c"
    using entry_path_Some by blast
  have ru: "(case sig_entry s name of
      None \<Rightarrow> unpublish_entry env s p False
    | Some sig_path \<Rightarrow> (case sys_unlink env (st_fs s) sig_path of
          Inr fs' \<Rightarrow> unpublish_entry env (s\<lparr>st_fs := fs'\<rparr>) p True
        | Inl e \<Rightarrow> if e \<noteq> ENOENT then (STORE_ERR_IO, False, s) else unpublish_entry env s p False)) = (e, r, s')"
    using run True p by (simp add: store_unpublish_def sig_entry_def)
  show thesis
  proof (cases "sig_entry s name")
    case None
    then show thesis
      using unpublish_entry_outcome [of env s p False e r s'] ru kept gone [OF c(1)] c(2) by fastforce
  next
    case (Some sp)
    show thesis
    proof (cases "sys_unlink env (st_fs s) sp")
      case (Inr fs')
      note u = unlink_lookup [OF Inr] and n = unlink_node [OF Inr]
      have o: "r \<and> st_root s' = st_root s" "e \<noteq> STORE_OK \<Longrightarrow> s' = s\<lparr>st_fs := fs'\<rparr>"
        "e = STORE_OK \<Longrightarrow> map_of (st_fs s') q = (if q = p then None else map_of fs' q)" for q
        using unpublish_entry_outcome [of env "s\<lparr>st_fs := fs'\<rparr>" p True e r s'] ru Some Inr by auto
      show thesis
      proof (cases "e = STORE_OK")
        case True
        show thesis by (rule gone [OF c(1) True]) (use o(1) o(3) [OF True] u n Some c(2) in auto)
      next
        case False
        show thesis by (rule partial [OF c(1) Some False]) (use o(1) o(2) [OF False] u n in auto)
      qed
    next
      case (Inl x)
      show thesis
      proof (cases "x = ENOENT")
        case True
        then have absent: "map_of (st_fs s) sp = None"
          using Inl by (auto simp: sys_unlink_def split: if_splits option.splits node.splits)
        have o: "\<not> r \<and> st_root s' = st_root s" "e \<noteq> STORE_OK \<Longrightarrow> s' = s"
          "e = STORE_OK \<Longrightarrow> map_of (st_fs s') q = (if q = p then None else map_of (st_fs s) q)" for q
          using unpublish_entry_outcome [of env s p False e r s'] ru Some Inl True by auto
        show thesis
        proof (cases "e = STORE_OK")
          case True
          show thesis by (rule gone [OF c(1) True]) (use o(1) o(3) [OF True] absent Some c(2) in auto)
        next
          case False
          then show thesis using kept o by blast
        qed
      next
        case False
        then show thesis using kept ru Some Inl by auto
      qed
    qed
  qed
qed

lemma sig_entry_Some:
  "sig_entry s name = Some sp \<Longrightarrow> \<exists>sig sc. store_signature_name name STORE_NAME_MAX = Some sig
     \<and> canon_of sig = Some sc \<and> sp = entry_at (st_root s) sc"
  by (auto simp: sig_entry_def bind_eq_Some_conv dest: entry_path_Some)

lemma unpublish_blobs:
  assumes "store_unpublish env s name = (e, r, s')"
  shows "st_root s' = st_root s
    \<and> map_of (st_fs s') (blob_at (st_root s) d) = map_of (st_fs s) (blob_at (st_root s) d)"
  using assms by (cases rule: unpublish_outcome) (auto dest!: sig_entry_Some)

lemma unpublish_entries:
  assumes "store_unpublish env s name = (e, r, s')"
  shows "\<exists>D. entry_digest s' = (\<lambda>n. if n \<in> D then None else entry_digest s n)"
  using assms
proof (cases rule: unpublish_outcome)
  case kept
  then show ?thesis by (intro exI [of _ "{}"]) simp
next
  case (partial c sp)
  then show ?thesis
    by (intro exI [of _ "{n. entry_at (st_root s) n = sp}"]) (auto simp: entry_digest_def fun_eq_iff)
next
  case (gone c)
  then show ?thesis
    by (intro exI [of _ "{n. n = c \<or> sig_entry s name = Some (entry_at (st_root s) n)}"])
      (auto simp: entry_digest_def fun_eq_iff)
qed

section \<open>Adopting a blob\<close>

text \<open>Nodes equal up to the permission bits of a file.\<close>

definition same_node :: "node option \<Rightarrow> node option \<Rightarrow> bool" where
  "same_node a b \<longleftrightarrow> a = b \<or> (\<exists>c k k' t. a = Some (Reg c k t) \<and> b = Some (Reg c k' t))"

lemma same_node_simps:
  assumes "same_node a b"
  shows "link_digest a = link_digest b" "reg_bytes a = reg_bytes b" "a = None \<longleftrightarrow> b = None"
    "a = Some Dir \<longleftrightarrow> b = Some Dir" "a = Some (Lnk t m) \<longleftrightarrow> b = Some (Lnk t m)"
  using assms by (auto simp: same_node_def)

lemma chmod_same: "sys_chmod env fs p m = Inr fs' \<Longrightarrow> same_node (map_of fs' q) (map_of fs q)"
  by (auto simp: sys_chmod_def same_node_def fs_simps split: if_splits option.splits node.splits)

lemma ignoring_chmod_same: "same_node (map_of (ignoring fs (sys_chmod env fs p m)) q) (map_of fs q)"
  using chmod_same by (auto simp: ignoring_def same_node_def split: sum.splits)

lemma adopt_outcome:
  assumes run: "store_blob_adopt env s tmp d = (e, s')"
  obtains (failed) "e = STORE_ERR_IO" "s' = s"
    | (shared) "e = STORE_OK" "store_digest_is_valid d" "st_root s' = st_root s"
      "sys_access env (st_fs s) (blob_at (st_root s) d)"
      "\<And>q. q \<noteq> tmp \<Longrightarrow> map_of (st_fs s') q = map_of (st_fs s) q"
      "map_of (st_fs s') tmp = map_of (st_fs s) tmp \<or> map_of (st_fs s') tmp = None"
    | (moved) nd where "e = STORE_OK" "store_digest_is_valid d" "st_root s' = st_root s"
      "\<not> sys_access env (st_fs s) (blob_at (st_root s) d)"
      "map_of (st_fs s) tmp = Some nd" "nd \<noteq> Dir"
      "\<And>q. same_node (map_of (st_fs s') q)
        (if q = blob_at (st_root s) d then Some nd else if q = tmp then None else map_of (st_fs s) q)"
proof (cases "store_digest_is_valid d \<and> blob_path (st_root s) d \<noteq> None")
  case False
  then have "e = STORE_ERR_IO \<and> s' = s" using run by (auto simp: store_blob_adopt_def split: if_splits)
  then show thesis using failed by blast
next
  case True
  then obtain p where p: "blob_path (st_root s) d = Some p" by blast
  then have pa: "p = blob_at (st_root s) d" by (rule blob_path_Some)
  show thesis
  proof (cases "sys_access env (st_fs s) p")
    case acc: True
    then have "e = STORE_OK" "s' = s\<lparr>st_fs := ignoring (st_fs s) (sys_unlink env (st_fs s) tmp)\<rparr>"
      using run True p by (auto simp: store_blob_adopt_def)
    moreover have "map_of (ignoring (st_fs s) (sys_unlink env (st_fs s) tmp)) tmp = map_of (st_fs s) tmp
        \<or> map_of (ignoring (st_fs s) (sys_unlink env (st_fs s) tmp)) tmp = None"
      using unlink_lookup [of env "st_fs s" tmp _ tmp] by (auto simp: ignoring_def split: sum.split)
    ultimately show thesis using shared True acc pa ignoring_unlink_other by auto
  next
    case acc: False
    show thesis
    proof (cases "sys_rename env (st_fs s) tmp p")
      case (Inl x)
      then show thesis using failed run True p acc by (auto simp: store_blob_adopt_def)
    next
      case (Inr fs1)
      obtain nd where nd: "map_of (st_fs s) tmp = Some nd" "nd \<noteq> Dir"
        "\<And>q. map_of fs1 q = (if q = p then Some nd else if q = tmp then None else map_of (st_fs s) q)"
        using rename_lookup [OF Inr] by blast
      have e: "e = STORE_OK" "s' = s\<lparr>st_fs := ignoring fs1 (sys_chmod env fs1 p 292)\<rparr>"
        using run True p acc Inr by (auto simp: store_blob_adopt_def)
      have "same_node (map_of (st_fs s') q)
          (if q = blob_at (st_root s) d then Some nd else if q = tmp then None else map_of (st_fs s) q)" for q
        using ignoring_chmod_same [of fs1 env p 292 q] by (simp add: e(2) nd(3) pa)
      then show thesis using moved [OF e(1) _ _ _ nd(1,2)] True acc pa e(2) by simp
    qed
  qed
qed

end
