(* ===== verification/Store_Maint.thy ===== *)
theory Store_Maint
  imports Store_Catalogue Store_Version
begin

text \<open>
  Walking the store and the operations built on the walk (\<^verbatim>\<open>store_walk\<close>, \<^verbatim>\<open>store_list\<close>,
  \<^verbatim>\<open>store_canonicalize\<close>, \<^verbatim>\<open>store_set_arch\<close>, \<^verbatim>\<open>store_gc\<close> of \<^verbatim>\<open>src/src/store.c\<close>). A directory is read as a
  whole before its entries are processed. A callback gets the name, digest, size and time of an
  entry and the context, and returns a code and the context; a code other than 0 ends the walk.
\<close>

section \<open>Walking\<close>

type_synonym 'c walk_fn = "string \<Rightarrow> string \<Rightarrow> int \<Rightarrow> int \<Rightarrow> 'c \<Rightarrow> int \<times> 'c"

fun walk_loop :: "env \<Rightarrow> store \<Rightarrow> 'c walk_fn \<Rightarrow> string list \<Rightarrow> 'c \<Rightarrow> int \<times> 'c" where
  "walk_loop env s fn [] ctx = (0, ctx)"
| "walk_loop env s fn (n # ns) ctx =
     (if c_at n 0 = CHR ''.'' then walk_loop env s fn ns ctx
      else if \<not> store_name_is_valid n then walk_loop env s fn ns ctx
      else case raw_entry_path (st_root s) n of
        None \<Rightarrow> walk_loop env s fn ns ctx
      | Some lp \<Rightarrow>
          (case resolve_path env (st_fs s) lp STORE_SHA256_MAX of
             Inl _ \<Rightarrow> walk_loop env s fn ns ctx
           | Inr digest \<Rightarrow>
               (let sz = (case store_blob_exists env s digest of None \<Rightarrow> - 1 | Some z \<Rightarrow> z);
                    mtime = (case sys_lstat env (st_fs s) lp of Inl _ \<Rightarrow> 0 | Inr nd \<Rightarrow> node_mtime env nd)
                in case fn n digest sz mtime ctx of
                     (rc, ctx') \<Rightarrow> if rc \<noteq> 0 then (rc, ctx') else walk_loop env s fn ns ctx')))"

definition store_walk :: "env \<Rightarrow> store \<Rightarrow> 'c walk_fn \<Rightarrow> 'c \<Rightarrow> int \<times> 'c" where
  "store_walk env s fn ctx =
     (let dir_path = st_root s @ ''/'' @ STORE_DIR
      in if \<not> snprintf_fits PATH_MAX dir_path then (- 1, ctx)
         else case sys_opendir env (st_fs s) dir_path of
           Inl _ \<Rightarrow> (- 1, ctx)
         | Inr names \<Rightarrow> walk_loop env s fn names ctx)"

section \<open>Growing arrays\<close>

text \<open>\<open>realloc\<close> to twice the capacity, 64 at first; \<open>None\<close> when memory runs out.\<close>

definition grow :: "env \<Rightarrow> nat \<Rightarrow> nat \<Rightarrow> nat \<Rightarrow> nat option" where
  "grow env elem used cap =
     (if used = cap
      then (let cap' = (if cap \<noteq> 0 then cap * 2 else 64)
            in if ev_nomem env (cap' * elem) then None else Some cap')
      else Some cap)"

record rename_set =
  rs_slots :: "string list"
  rs_cap :: nat

definition collect_noncanonical :: "env \<Rightarrow> rename_set walk_fn" where
  "collect_noncanonical env name digest sz mtime st =
     (case store_canonical_name name STORE_NAME_MAX of
        Some (Suc 0, _) \<Rightarrow>
          (case grow env STORE_NAME_MAX (length (rs_slots st)) (rs_cap st) of
             None \<Rightarrow> (- 1, st)
           | Some cap \<Rightarrow>
               (0, \<lparr>rs_slots = rs_slots st @ [snprintf STORE_NAME_MAX name], rs_cap = cap\<rparr>))
      | _ \<Rightarrow> (0, st))"

definition collect_archless :: "env \<Rightarrow> rename_set walk_fn" where
  "collect_archless env name digest sz mtime st =
     (if \<not> store_name_is_valid name \<or> store_arch_of name \<noteq> None then (0, st)
      else case grow env STORE_NAME_MAX (length (rs_slots st)) (rs_cap st) of
        None \<Rightarrow> (- 1, st)
      | Some cap \<Rightarrow>
          (0, \<lparr>rs_slots = rs_slots st @ [snprintf STORE_NAME_MAX name], rs_cap = cap\<rparr>))"

section \<open>Renaming entries\<close>

text \<open>What the loop over the collected names does with one of them.\<close>

datatype rename_target = Leave | Too_Long | Rename_To string

definition set_arch_target :: "string \<Rightarrow> string \<Rightarrow> rename_target" where
  "set_arch_target arch name =
     (let to_name = take (stem_len name) name @ ''-'' @ arch
            @ (case store_suffix_of name of None \<Rightarrow> [] | Some ext \<Rightarrow> ext)
      in if snprintf_fits STORE_NAME_MAX to_name then Rename_To to_name else Too_Long)"

definition canonicalize_target :: "string \<Rightarrow> rename_target" where
  "canonicalize_target name =
     (case store_canonical_name name STORE_NAME_MAX of
        Some (Suc 0, canonical) \<Rightarrow> Rename_To canonical
      | _ \<Rightarrow> Leave)"

record migration =
  mg_store :: store
  mg_renamed :: int
  mg_conflicts :: int
  mg_rc :: int

definition rename_entry :: "env \<Rightarrow> bool \<Rightarrow> string \<Rightarrow> rename_target \<Rightarrow> migration \<Rightarrow> migration" where
  "rename_entry env dry_run name target m =
     (case target of
        Leave \<Rightarrow> m
      | Too_Long \<Rightarrow> m\<lparr>mg_rc := - 1\<rparr>
      | Rename_To to_name \<Rightarrow>
          (let s = mg_store m
           in case (raw_entry_path (st_root s) name, raw_entry_path (st_root s) to_name) of
                (Some from, Some to) \<Rightarrow>
                  if (case sys_lstat env (st_fs s) to of Inl _ \<Rightarrow> False | Inr _ \<Rightarrow> True)
                  then m\<lparr>mg_conflicts := mg_conflicts m + 1\<rparr>
                  else if dry_run then m\<lparr>mg_renamed := mg_renamed m + 1\<rparr>
                  else (case sys_rename env (st_fs s) from to of
                          Inl _ \<Rightarrow> m\<lparr>mg_rc := - 1\<rparr>
                        | Inr fs' \<Rightarrow>
                            m\<lparr>mg_store := s\<lparr>st_fs := fs'\<rparr>, mg_renamed := mg_renamed m + 1\<rparr>)
              | _ \<Rightarrow> m\<lparr>mg_rc := - 1\<rparr>))"

fun rename_loop ::
  "env \<Rightarrow> bool \<Rightarrow> (string \<Rightarrow> rename_target) \<Rightarrow> string list \<Rightarrow> migration \<Rightarrow> migration" where
  "rename_loop env dry_run target [] m = m"
| "rename_loop env dry_run target (n # ns) m =
     rename_loop env dry_run target ns (rename_entry env dry_run n (target n) m)"

text \<open>The code, the two counters when they were written, and the state.\<close>

definition store_set_arch ::
  "env \<Rightarrow> store \<Rightarrow> string \<Rightarrow> bool \<Rightarrow> int \<times> (int \<times> int) option \<times> store" where
  "store_set_arch env s arch dry_run =
     (if arch \<notin> set g_arches then (- 1, None, s)
      else case store_walk env s (collect_archless env) \<lparr>rs_slots = [], rs_cap = 0\<rparr> of
        (rc, st) \<Rightarrow>
          if rc \<noteq> 0 then (- 1, None, s)
          else (let m = rename_loop env dry_run (set_arch_target arch) (rs_slots st)
                          \<lparr>mg_store = s, mg_renamed = 0, mg_conflicts = 0, mg_rc = 0\<rparr>
                in (mg_rc m, Some (mg_renamed m, mg_conflicts m), mg_store m)))"

definition store_canonicalize ::
  "env \<Rightarrow> store \<Rightarrow> bool \<Rightarrow> int \<times> (int \<times> int) option \<times> store" where
  "store_canonicalize env s dry_run =
     (case store_walk env s (collect_noncanonical env) \<lparr>rs_slots = [], rs_cap = 0\<rparr> of
        (rc, st) \<Rightarrow>
          if rc \<noteq> 0 then (- 1, None, s)
          else (let m = rename_loop env dry_run canonicalize_target (rs_slots st)
                          \<lparr>mg_store = s, mg_renamed = 0, mg_conflicts = 0, mg_rc = 0\<rparr>
                in (mg_rc m, Some (mg_renamed m, mg_conflicts m), mg_store m)))"

section \<open>Listing\<close>

text \<open>
  \<open>sizeof (struct store_entry)\<close> on a 64-bit platform. The rank is left unwritten by the code until
  the listing is ranked; the model writes 0.
\<close>

definition STORE_ENTRY_SIZE :: nat where
  "STORE_ENTRY_SIZE = 352"

record entry_set =
  es_v :: "store_entry list"
  es_cap :: nat

definition collect_entry :: "env \<Rightarrow> entry_set walk_fn" where
  "collect_entry env name digest sz mtime st =
     (case grow env STORE_ENTRY_SIZE (length (es_v st)) (es_cap st) of
        None \<Rightarrow> (- 1, st)
      | Some cap \<Rightarrow>
          (0, \<lparr>es_v = es_v st @ [\<lparr>e_name = snprintf STORE_NAME_MAX name,
                 e_digest = snprintf STORE_SHA256_MAX digest, e_size = sz, e_mtime = mtime,
                 e_version_rank = 0\<rparr>], es_cap = cap\<rparr>))"

definition store_list :: "env \<Rightarrow> store \<Rightarrow> store_entry list option" where
  "store_list env s =
     (case store_walk env s (collect_entry env) \<lparr>es_v = [], es_cap = 0\<rparr> of
        (rc, st) \<Rightarrow> if rc \<noteq> 0 then None else Some (es_v st))"

section \<open>Collecting garbage\<close>

definition digest_cmp :: "string \<Rightarrow> string \<Rightarrow> int" where
  "digest_cmp a b = c_strcmp a b"

record live_set =
  ls_slots :: "string list"
  ls_cap :: nat

definition collect_live :: "env \<Rightarrow> live_set walk_fn" where
  "collect_live env name digest sz mtime st =
     (case grow env STORE_SHA256_MAX (length (ls_slots st)) (ls_cap st) of
        None \<Rightarrow> (- 1, st)
      | Some cap \<Rightarrow> (0, \<lparr>ls_slots = ls_slots st @ [digest], ls_cap = cap\<rparr>))"

fun gc_loop ::
  "env \<Rightarrow> bool \<Rightarrow> string list \<Rightarrow> string list \<Rightarrow> store \<Rightarrow> int \<Rightarrow> int \<Rightarrow> store \<times> int \<times> int" where
  "gc_loop env dry_run live [] s freed removed = (s, freed, removed)"
| "gc_loop env dry_run live (n # ns) s freed removed =
     (if \<not> store_digest_is_valid n then gc_loop env dry_run live ns s freed removed
      else if live \<noteq> [] \<and> c_bsearch digest_cmp n live \<noteq> None
      then gc_loop env dry_run live ns s freed removed
      else case blob_path (st_root s) n of
        None \<Rightarrow> gc_loop env dry_run live ns s freed removed
      | Some p \<Rightarrow>
          (let freed' = (case sys_stat env (st_fs s) p of
                           Inl _ \<Rightarrow> freed | Inr nd \<Rightarrow> freed + node_size env nd)
           in if dry_run then gc_loop env dry_run live ns s freed' (removed + 1)
              else case sys_unlink env (st_fs s) p of
                Inl _ \<Rightarrow> gc_loop env dry_run live ns s freed' removed
              | Inr fs' \<Rightarrow> gc_loop env dry_run live ns (s\<lparr>st_fs := fs'\<rparr>) freed' (removed + 1)))"

text \<open>The number removed or -1, the bytes freed, and the state.\<close>

definition store_gc :: "env \<Rightarrow> store \<Rightarrow> bool \<Rightarrow> int \<times> int \<times> store" where
  "store_gc env s dry_run =
     (case store_walk env s (collect_live env) \<lparr>ls_slots = [], ls_cap = 0\<rparr> of
        (rc, st) \<Rightarrow>
          if rc \<noteq> 0 then (- 1, 0, s)
          else
            (let live = (if length (ls_slots st) > 1 then c_qsort digest_cmp (ls_slots st)
                         else ls_slots st);
                 dir_path = st_root s @ ''/blobs''
             in if \<not> snprintf_fits PATH_MAX dir_path then (- 1, 0, s)
                else case sys_opendir env (st_fs s) dir_path of
                  Inl _ \<Rightarrow> (- 1, 0, s)
                | Inr names \<Rightarrow>
                    (case gc_loop env dry_run live names s 0 0 of
                       (s', freed, removed) \<Rightarrow> (removed, freed, s'))))"

section \<open>What a walk sees\<close>

text \<open>An entry the walk reports, with its digest.\<close>

definition visible :: "env \<Rightarrow> store \<Rightarrow> string \<Rightarrow> bool" where
  "visible env s n \<longleftrightarrow> store_name_is_valid n \<and> raw_digest env s n \<noteq> None"

lemma valid_no_dot: "store_name_is_valid n \<Longrightarrow> c_at n 0 \<noteq> CHR ''.''"
  by (auto simp: store_name_is_valid_def)

definition walk_size :: "env \<Rightarrow> store \<Rightarrow> string \<Rightarrow> int" where
  "walk_size env s d = (case store_blob_exists env s d of None \<Rightarrow> - 1 | Some z \<Rightarrow> z)"

definition walk_mtime :: "env \<Rightarrow> store \<Rightarrow> string \<Rightarrow> int" where
  "walk_mtime env s n =
     (case sys_lstat env (st_fs s) (entry_at (st_root s) n) of Inl _ \<Rightarrow> 0 | Inr nd \<Rightarrow> node_mtime env nd)"

lemma walk_loop_visible:
  "visible env s n \<Longrightarrow>
   walk_loop env s fn (n # ns) ctx =
     (case fn n (the (raw_digest env s n)) (walk_size env s (the (raw_digest env s n))) (walk_mtime env s n) ctx of
        (rc, ctx') \<Rightarrow> if rc \<noteq> 0 then (rc, ctx') else walk_loop env s fn ns ctx')"
  by (auto simp: visible_def raw_digest_def valid_no_dot walk_size_def walk_mtime_def Let_def
      dest: raw_entry_path_Some split: option.splits sum.splits)

lemma walk_loop_hidden:
  "\<not> visible env s n \<Longrightarrow> walk_loop env s fn (n # ns) ctx = walk_loop env s fn ns ctx"
  by (auto simp: visible_def raw_digest_def split: option.splits sum.splits)

lemmas walk_loop_step = walk_loop_visible walk_loop_hidden

text \<open>
  A collector appends to a list what it keeps of an entry, or fails: when the walk succeeds,
  the list holds what was kept of every visible entry, in directory order.
\<close>

locale collector =
  fixes fn :: "'c walk_fn" and slots :: "'c \<Rightarrow> 'a list" and keep :: "string \<Rightarrow> string \<Rightarrow> int \<Rightarrow> int \<Rightarrow> 'a option"
  assumes fn_keeps: "fn n d z t c = (0, c') \<Longrightarrow>
    slots c' = slots c @ (case keep n d z t of None \<Rightarrow> [] | Some x \<Rightarrow> [x])"
begin

definition kept :: "env \<Rightarrow> store \<Rightarrow> string \<Rightarrow> 'a option" where
  "kept env s n =
     (if visible env s n
      then keep n (the (raw_digest env s n)) (walk_size env s (the (raw_digest env s n))) (walk_mtime env s n)
      else None)"

lemma walk_loop_collects:
  "walk_loop env s fn ns c = (0, c') \<Longrightarrow> slots c' = slots c @ List.map_filter (kept env s) ns"
proof (induction ns arbitrary: c)
  case (Cons n ns)
  show ?case
  proof (cases "visible env s n")
    case True
    then obtain c1 where "fn n (the (raw_digest env s n)) (walk_size env s (the (raw_digest env s n)))
        (walk_mtime env s n) c = (0, c1)" "walk_loop env s fn ns c1 = (0, c')"
      using Cons.prems walk_loop_visible [OF True, of fn ns c] by (auto split: prod.splits if_splits)
    then show ?thesis
      using Cons.IH [of c1] fn_keeps True
      by (auto simp: List.map_filter_simps kept_def split: option.splits)
  next
    case False
    then show ?thesis
      using Cons walk_loop_hidden [OF False, of fn ns c] by (simp add: List.map_filter_simps kept_def)
  qed
qed (simp add: List.map_filter_simps)

lemma store_walk_collects:
  assumes "store_walk env s fn c = (0, c')"
  obtains names where "sys_opendir env (st_fs s) (st_root s @ ''/'' @ STORE_DIR) = Inr names"
    "slots c' = slots c @ List.map_filter (kept env s) names"
  using assms walk_loop_collects
  by (auto simp: store_walk_def Let_def split: if_splits sum.splits)

end

interpretation live: collector "collect_live env" ls_slots "\<lambda>n d z t. Some d" for env
  by unfold_locales (auto simp: collect_live_def split: option.splits)

interpretation noncanonical: collector "collect_noncanonical env" rs_slots
    "\<lambda>n d z t. case store_canonical_name n STORE_NAME_MAX of
       Some (Suc 0, _) \<Rightarrow> Some (snprintf STORE_NAME_MAX n) | _ \<Rightarrow> None" for env
  by unfold_locales (auto simp: collect_noncanonical_def split: option.splits prod.splits nat.splits)

interpretation archless: collector "collect_archless env" rs_slots
    "\<lambda>n d z t. if \<not> store_name_is_valid n \<or> store_arch_of n \<noteq> None then None
       else Some (snprintf STORE_NAME_MAX n)" for env
  by unfold_locales (auto simp: collect_archless_def split: option.splits if_splits)

interpretation listing: collector "collect_entry env" es_v
    "\<lambda>n d z t. Some \<lparr>e_name = snprintf STORE_NAME_MAX n, e_digest = snprintf STORE_SHA256_MAX d,
       e_size = z, e_mtime = t, e_version_rank = 0\<rparr>" for env
  by unfold_locales (auto simp: collect_entry_def split: option.splits)

section \<open>Well-formed stores\<close>

text \<open>
  The three directories exist, a path has one node, what is stored under a digest is a file, and
  the root is short enough for every path the store builds to fit its buffer.
\<close>

definition store_dirs :: "store \<Rightarrow> path list" where
  "store_dirs s = [st_root s @ ''/blobs'', st_root s @ ''/packages'', st_root s @ ''/tmp'']"

definition store_wf :: "store \<Rightarrow> bool" where
  "store_wf s \<longleftrightarrow>
     fs_ok (st_fs s) \<and> list_all (\<lambda>d. map_of (st_fs s) d = Some Dir) (store_dirs s)
     \<and> length (st_root s) + 400 < PATH_MAX
     \<and> (\<forall>d. store_digest_is_valid d \<longrightarrow>
          map_of (st_fs s) (blob_at (st_root s) d) = None \<or> blob_bytes s d \<noteq> None)"

lemma wf_entry_path: "store_wf s \<Longrightarrow> length n < STORE_NAME_MAX \<Longrightarrow> raw_entry_path (st_root s) n = Some (entry_at (st_root s) n)"
  by (simp add: store_wf_def raw_entry_path_def snprintf_fits_def Let_def entry_at_def STORE_DIR_def STORE_NAME_MAX_def)

lemma wf_blob_path: "store_wf s \<Longrightarrow> store_digest_is_valid d \<Longrightarrow> blob_path (st_root s) d = Some (blob_at (st_root s) d)"
  by (simp add: store_wf_def blob_path_def snprintf_fits_def Let_def blob_at_def store_digest_is_valid_iff
      STORE_SHA256_HEX_LEN_def)

lemma valid_length: "store_name_is_valid n \<Longrightarrow> length n < STORE_NAME_MAX"
  by (simp add: store_name_is_valid_iff)

lemma entry_digest_link:
  "entry_digest s n = Some d \<Longrightarrow> \<exists>t m. map_of (st_fs s) (entry_at (st_root s) n) = Some (Lnk t m)"
  unfolding entry_digest_def
  by (cases "map_of (st_fs s) (entry_at (st_root s) n)" rule: link_digest.cases) auto

lemma entry_digest_valid: "entry_digest s n = Some d \<Longrightarrow> store_digest_is_valid d"
  unfolding entry_digest_def
  by (cases "map_of (st_fs s) (entry_at (st_root s) n)" rule: link_digest.cases) (auto simp: Let_def split: if_splits)

lemma raw_digest_valid: "raw_digest env s n = Some d \<Longrightarrow> store_digest_is_valid d"
  using raw_digest_entry entry_digest_valid by blast

text \<open>An environment that does not fail the calls by which the store reads its entries.\<close>

definition reads_ok :: "env \<Rightarrow> bool" where
  "reads_ok env \<longleftrightarrow> (\<forall>p. \<not> ev_fails env SYS_readlink p \<and> \<not> ev_fails env SYS_lstat p)"

lemma raw_digest_eq:
  assumes "reads_ok env" and "store_wf s" and "length n < STORE_NAME_MAX"
  shows "raw_digest env s n = entry_digest s n"
proof -
  let ?p = "entry_at (st_root s) n"
  have ok: "resolve_path env (st_fs s) ?p STORE_SHA256_MAX = Inr d \<longleftrightarrow> entry_digest s n = Some d" for d
    using assms(1) by (simp add: resolve_path_OK entry_digest_def reads_ok_def)
  show ?thesis
  proof (cases "resolve_path env (st_fs s) ?p STORE_SHA256_MAX")
    case (Inl e)
    then have "entry_digest s n = None" using ok by (cases "entry_digest s n") auto
    then show ?thesis using Inl wf_entry_path [OF assms(2,3)] by (simp add: raw_digest_def)
  next
    case (Inr d)
    then show ?thesis using ok [of d] wf_entry_path [OF assms(2,3)] by (simp add: raw_digest_def)
  qed
qed

lemma wf_opendir:
  assumes "store_wf s" and "d \<in> set (store_dirs s)" and "sys_opendir env (st_fs s) d = Inr names"
  shows "names = dir_entries (st_fs s) d"
proof -
  have "map_of (st_fs s) d = Some Dir" using assms(1,2) by (auto simp: store_wf_def list_all_iff)
  then show ?thesis using assms(3) by (auto simp: sys_opendir_def namei_plain split: if_splits)
qed

lemma valid_not_dots: "store_name_is_valid n \<Longrightarrow> n \<noteq> ''.'' \<and> n \<noteq> ''..'' \<and> n \<noteq> [] \<and> CHR ''/'' \<notin> set n"
proof -
  assume v: "store_name_is_valid n"
  then have "list_all name_char_ok n" "n \<noteq> []" "hd n \<noteq> CHR ''.''" by (auto simp: store_name_is_valid_iff)
  moreover have "CHR ''/'' \<notin> set n"
    using name_char_ok_confined calculation(1) by (auto simp: list_all_iff)
  ultimately show ?thesis by auto
qed

lemma visible_in_dir:
  assumes "visible env s n"
  shows "n \<in> set (dir_entries (st_fs s) (st_root s @ ''/packages''))"
proof -
  have v: "store_name_is_valid n" using assms by (simp add: visible_def)
  obtain d where "entry_digest s n = Some d" using assms raw_digest_entry by (auto simp: visible_def)
  then have "map_of (st_fs s) (entry_at (st_root s) n) \<noteq> None" using entry_digest_link by fastforce
  moreover have "entry_at (st_root s) n = (st_root s @ ''/packages'') @ CHR ''/'' # n"
    by (simp add: entry_at_def STORE_DIR_def)
  ultimately show ?thesis
    using dir_entries_iff [of n "st_fs s" "st_root s @ ''/packages''"] valid_not_dots [OF v] by simp
qed

section \<open>The collector\<close>

definition live_digests :: "env \<Rightarrow> store \<Rightarrow> string set" where
  "live_digests env s = {d. \<exists>n. visible env s n \<and> raw_digest env s n = Some d}"

lemma live_set_exact:
  assumes "store_wf s" and "store_walk env s (collect_live env) \<lparr>ls_slots = [], ls_cap = 0\<rparr> = (0, st)"
  shows "set (ls_slots st) = live_digests env s"
proof -
  obtain names where names: "sys_opendir env (st_fs s) (st_root s @ ''/'' @ STORE_DIR) = Inr names"
    and slots: "ls_slots st = List.map_filter (live.kept env s) names"
    using live.store_walk_collects [OF assms(2)] by auto
  have "names = dir_entries (st_fs s) (st_root s @ ''/packages'')"
    using wf_opendir [OF assms(1) _ names] by (simp add: store_dirs_def STORE_DIR_def)
  moreover have "live.kept env s n = Some d \<longleftrightarrow> visible env s n \<and> raw_digest env s n = Some d" for n d
    by (auto simp: live.kept_def visible_def)
  ultimately have "d \<in> set (ls_slots st) \<longleftrightarrow> d \<in> live_digests env s" for d
    using visible_in_dir [of env s] unfolding slots map_filter_iff live_digests_def by blast
  then show ?thesis by blast
qed

lemma digest_cmp_strcmp [simp]: "digest_cmp = c_strcmp"
  by (simp add: fun_eq_iff digest_cmp_def)

lemma live_search:
  assumes "sorted_wrt (\<lambda>a b. c_strcmp a b \<le> 0) live"
  shows "live \<noteq> [] \<and> c_bsearch digest_cmp n live \<noteq> None \<longleftrightarrow> n \<in> set live"
  using strcmp.bsearch_iff [OF assms, of n] by auto

lemma live_sorted:
  "sorted_wrt (\<lambda>a b. c_strcmp a b \<le> 0) (if length xs > 1 then c_qsort digest_cmp xs else xs)
   \<and> set (if length xs > 1 then c_qsort digest_cmp xs else xs) = set xs"
proof (cases "length xs > 1")
  case True
  then show ?thesis using strcmp.sorted_qsort [of xs] strcmp.set_qsort [of xs] by simp
next
  case False
  then have "xs = [] \<or> (\<exists>x. xs = [x])" by (cases xs; cases "tl xs") auto
  then show ?thesis by auto
qed

text \<open>What one run over the blob directory removes.\<close>

lemma gc_loop_outcome:
  assumes "sorted_wrt (\<lambda>a b. c_strcmp a b \<le> 0) live"
    and "gc_loop env dry live ns s freed removed = (s', freed', removed')"
  shows "st_root s' = st_root s \<and> (dry \<longrightarrow> s' = s)
    \<and> (\<forall>q. map_of (st_fs s') q = map_of (st_fs s) q
         \<or> (map_of (st_fs s') q = None \<and> map_of (st_fs s) q \<noteq> Some Dir
            \<and> (\<exists>n \<in> set ns. store_digest_is_valid n \<and> n \<notin> set live \<and> q = blob_at (st_root s) n)))
    \<and> (fs_ok (st_fs s) \<longrightarrow> fs_ok (st_fs s'))"
  using assms(2)
proof (induction ns arbitrary: s freed removed)
  case (Cons n ns)
  show ?case
  proof (cases "store_digest_is_valid n \<and> n \<notin> set live \<and> blob_path (st_root s) n \<noteq> None \<and> \<not> dry")
    case False
    then obtain f r where "gc_loop env dry live ns s f r = (s', freed', removed')"
      using Cons.prems live_search [OF assms(1), of n]
      by (auto simp: Let_def split: if_splits option.splits sum.splits simp del: digest_cmp_strcmp)
    from Cons.IH [OF this] show ?thesis by auto
  next
    case True
    then obtain p where p: "blob_path (st_root s) n = Some p" "p = blob_at (st_root s) n"
      using blob_path_Some by blast
    show ?thesis
    proof (cases "sys_unlink env (st_fs s) p")
      case (Inl x)
      then obtain f r where "gc_loop env dry live ns s f r = (s', freed', removed')"
        using Cons.prems True p live_search [OF assms(1), of n]
        by (auto simp: Let_def simp del: digest_cmp_strcmp)
      from Cons.IH [OF this] show ?thesis by auto
    next
      case (Inr fs1)
      then obtain f r where "gc_loop env dry live ns (s\<lparr>st_fs := fs1\<rparr>) f r = (s', freed', removed')"
        using Cons.prems True p live_search [OF assms(1), of n]
        by (auto simp: Let_def simp del: digest_cmp_strcmp)
      note IH = Cons.IH [OF this]
      have "map_of (st_fs s') q = map_of (st_fs s) q
         \<or> (map_of (st_fs s') q = None \<and> map_of (st_fs s) q \<noteq> Some Dir
            \<and> (\<exists>m \<in> set (n # ns). store_digest_is_valid m \<and> m \<notin> set live \<and> q = blob_at (st_root s) m))" for q
      proof -
        have IHq: "map_of (st_fs s') q = map_of fs1 q \<or> (map_of (st_fs s') q = None \<and> map_of fs1 q \<noteq> Some Dir
            \<and> (\<exists>m \<in> set ns. store_digest_is_valid m \<and> m \<notin> set live \<and> q = blob_at (st_root s) m))"
          using IH by simp
        show ?thesis
        proof (cases "q = p")
          case eq: True
          then have "map_of (st_fs s') q = None" using IHq unlink_lookup [OF Inr, of q] by auto
          moreover have "map_of (st_fs s) q \<noteq> Some Dir" using unlink_node [OF Inr] eq by simp
          ultimately show ?thesis using True p(2) eq by auto
        next
          case False
          then have "map_of fs1 q = map_of (st_fs s) q" using unlink_lookup [OF Inr, of q] by simp
          then show ?thesis using IHq by auto
        qed
      qed
      then show ?thesis using IH True sys_ok(1) [OF _ Inr] by auto
    qed
  qed
qed auto

lemma gc_loop_removes:
  assumes "sorted_wrt (\<lambda>a b. c_strcmp a b \<le> 0) live"
    and "gc_loop env False live ns s freed removed = (s', freed', removed')"
    and "n \<in> set ns" "store_digest_is_valid n" "n \<notin> set live" "blob_path (st_root s) n = Some p"
    and "\<not> ev_fails env SYS_unlink p" "map_of (st_fs s) p \<noteq> Some Dir"
  shows "map_of (st_fs s') p = None"
  using assms(2,3,6,8)
proof (induction ns arbitrary: s freed removed)
  case (Cons m ns)
  have p: "p = blob_at (st_root s) n" using Cons.prems(3) blob_path_Some by blast
  have gone: "map_of (st_fs s') p = None"
    if "gc_loop env False live ns s1 f r = (s', freed', removed')" "map_of (st_fs s1) p = None" for s1 f r
    using gc_loop_outcome [OF assms(1) that(1)] that(2) by metis
  show ?case
  proof (cases "m = n")
    case True
    show ?thesis
    proof (cases "map_of (st_fs s) p")
      case None
      then have u: "sys_unlink env (st_fs s) p = Inl ENOENT" using assms(7) by (simp add: sys_unlink_def)
      then obtain f r where "gc_loop env False live ns s f r = (s', freed', removed')"
        using Cons.prems True assms(4,5) live_search [OF assms(1), of n]
        by (auto simp: Let_def simp del: digest_cmp_strcmp)
      then show ?thesis using gone None by blast
    next
      case (Some nd)
      then have u: "sys_unlink env (st_fs s) p = Inr (AList.delete p (st_fs s))"
        using assms(7) Cons.prems(4) by (cases nd) (auto simp: sys_unlink_def)
      then obtain f r where "gc_loop env False live ns (s\<lparr>st_fs := AList.delete p (st_fs s)\<rparr>) f r = (s', freed', removed')"
        using Cons.prems True assms(4,5) live_search [OF assms(1), of n]
        by (auto simp: Let_def simp del: digest_cmp_strcmp)
      then show ?thesis using gone by (simp add: fs_simps)
    qed
  next
    case False
    then have ns: "n \<in> set ns" using Cons.prems(2) by simp
    obtain s1 f r where s1: "gc_loop env False live ns s1 f r = (s', freed', removed')" "st_root s1 = st_root s"
      "map_of (st_fs s1) p = map_of (st_fs s) p \<or> map_of (st_fs s1) p = None"
    proof (cases "\<exists>q fs1. store_digest_is_valid m \<and> m \<notin> set live \<and> blob_path (st_root s) m = Some q
        \<and> sys_unlink env (st_fs s) q = Inr fs1")
      case True
      then obtain q fs1 where q: "store_digest_is_valid m" "m \<notin> set live" "blob_path (st_root s) m = Some q"
        "sys_unlink env (st_fs s) q = Inr fs1" by blast
      then obtain f r where "gc_loop env False live ns (s\<lparr>st_fs := fs1\<rparr>) f r = (s', freed', removed')"
        using Cons.prems(1) live_search [OF assms(1), of m] by (auto simp: Let_def simp del: digest_cmp_strcmp)
      then show thesis using that [of "s\<lparr>st_fs := fs1\<rparr>"] unlink_lookup [OF q(4), of p] by auto
    next
      case False
      then obtain f r where "gc_loop env False live ns s f r = (s', freed', removed')"
        using Cons.prems(1) live_search [OF assms(1), of m]
        by (auto simp: Let_def split: if_splits option.splits sum.splits simp del: digest_cmp_strcmp)
      then show thesis using that [of s] by auto
    qed
    then show ?thesis
      using Cons.IH [OF s1(1) ns] Cons.prems(3,4) gone [OF s1(1)] by auto
  qed
qed simp

lemma gc_outcome:
  assumes wf: "store_wf s" and run: "store_gc env s dry = (k, freed, s')"
  shows "st_root s' = st_root s \<and> (dry \<longrightarrow> s' = s)
    \<and> (\<forall>q. map_of (st_fs s') q = map_of (st_fs s) q
         \<or> (map_of (st_fs s') q = None \<and> map_of (st_fs s) q \<noteq> Some Dir
            \<and> (\<exists>d. store_digest_is_valid d \<and> d \<notin> live_digests env s \<and> q = blob_at (st_root s) d)))
    \<and> fs_ok (st_fs s')"
proof -
  have ok: "fs_ok (st_fs s)" using wf by (simp add: store_wf_def)
  obtain rc st where w: "store_walk env s (collect_live env) \<lparr>ls_slots = [], ls_cap = 0\<rparr> = (rc, st)"
    by (metis prod.exhaust)
  define live where "live = (if length (ls_slots st) > 1 then c_qsort digest_cmp (ls_slots st) else ls_slots st)"
  show ?thesis
  proof (cases "s' = s")
    case False
    then obtain names f r where rc: "rc = 0" and g: "gc_loop env dry live names s 0 0 = (s', f, r)"
      using run w by (auto simp: store_gc_def Let_def live_def split: if_splits sum.splits prod.splits)
    have "sorted_wrt (\<lambda>a b. c_strcmp a b \<le> 0) live" "set live = set (ls_slots st)"
      using live_sorted [of "ls_slots st"] by (auto simp: live_def)
    moreover have "set (ls_slots st) = live_digests env s" using live_set_exact [OF wf] w rc by simp
    ultimately show ?thesis using gc_loop_outcome [OF _ g] ok by (metis (no_types, lifting))
  qed (use ok in simp)
qed

lemma gc_complete:
  assumes wf: "store_wf s" and run: "store_gc env s False = (k, freed, s')" and "0 \<le> k"
    and d: "store_digest_is_valid d" "d \<notin> live_digests env s"
    and "\<not> ev_fails env SYS_unlink (blob_at (st_root s) d)"
  shows "map_of (st_fs s') (blob_at (st_root s) d) = None"
proof -
  let ?p = "blob_at (st_root s) d"
  obtain rc st where w: "store_walk env s (collect_live env) \<lparr>ls_slots = [], ls_cap = 0\<rparr> = (rc, st)"
    by (metis prod.exhaust)
  define live where "live = (if length (ls_slots st) > 1 then c_qsort digest_cmp (ls_slots st) else ls_slots st)"
  obtain names f r where rc: "rc = 0" and dir: "sys_opendir env (st_fs s) (st_root s @ ''/blobs'') = Inr names"
    and g: "gc_loop env False live names s 0 0 = (s', f, r)"
    using run w \<open>0 \<le> k\<close> by (auto simp: store_gc_def Let_def live_def split: if_splits sum.splits prod.splits)
  have live: "sorted_wrt (\<lambda>a b. c_strcmp a b \<le> 0) live" "set live = live_digests env s"
    using live_sorted [of "ls_slots st"] live_set_exact [OF wf] w rc by (auto simp: live_def)
  have names: "names = dir_entries (st_fs s) (st_root s @ ''/blobs'')"
    using wf_opendir [OF wf _ dir] by (simp add: store_dirs_def)
  have p: "?p = (st_root s @ ''/blobs'') @ CHR ''/'' # d" by (simp add: blob_at_def)
  show ?thesis
  proof (cases "map_of (st_fs s) ?p")
    case None
    then show ?thesis using gc_outcome [OF wf run] by metis
  next
    case (Some nd)
    have len: "length d = 64" using d(1) by (simp add: store_digest_is_valid_iff STORE_SHA256_HEX_LEN_def)
    then have "d \<noteq> ''.''" "d \<noteq> ''..''" "d \<noteq> []" by auto
    then have "d \<in> set names"
      unfolding names using dir_entries_iff [of d "st_fs s" "st_root s @ ''/blobs''"] Some p
        digest_no_slash [OF d(1)] by simp
    moreover have "map_of (st_fs s) ?p \<noteq> Some Dir"
      using wf d(1) Some by (auto simp: store_wf_def blob_bytes_def)
    ultimately show ?thesis
      using gc_loop_removes [OF live(1) g _ d(1)] wf_blob_path [OF wf d(1)] live(2) d(2) assms(6) by blast
  qed
qed

lemma gc_keeps_entries:
  assumes "store_wf s" and "store_gc env s dry = (k, freed, s')"
  shows "map_of (st_fs s') (entry_at (st_root s) n) = map_of (st_fs s) (entry_at (st_root s) n)"
  using gc_outcome [OF assms] by (metis entry_blob_disjoint(1))

section \<open>Migrations\<close>

text \<open>
  A move of one entry to another name: to one that was free, when \<open>free\<close> is set, and otherwise over
  whatever stood there. The code asks \<^verbatim>\<open>lstat\<close> whether the new name is free and takes any failure of
  the call for a yes.
\<close>

definition lstat_ok :: "env \<Rightarrow> bool" where
  "lstat_ok env \<longleftrightarrow> (\<forall>p. \<not> ev_fails env SYS_lstat p)"

lemma reads_lstat: "reads_ok env \<Longrightarrow> lstat_ok env"
  by (simp add: reads_ok_def lstat_ok_def)

definition entry_move :: "bool \<Rightarrow> (string \<Rightarrow> rename_target) \<Rightarrow> store \<Rightarrow> store \<Rightarrow> bool" where
  "entry_move free target s s' \<longleftrightarrow>
     (\<exists>n t nd. target n = Rename_To t \<and> st_root s' = st_root s \<and> nd \<noteq> Dir
        \<and> map_of (st_fs s) (entry_at (st_root s) n) = Some nd
        \<and> map_of (st_fs s) (entry_at (st_root s) t) \<noteq> Some Dir
        \<and> (free \<longrightarrow> map_of (st_fs s) (entry_at (st_root s) t) = None)
        \<and> (\<forall>q. map_of (st_fs s') q =
             (if q = entry_at (st_root s) t then Some nd
              else if q = entry_at (st_root s) n then None else map_of (st_fs s) q))
        \<and> (fs_ok (st_fs s) \<longrightarrow> fs_ok (st_fs s')))"

lemma rename_entry_move:
  "mg_store (rename_entry env dry n (target n) m) = mg_store m
    \<or> (\<not> dry \<and> entry_move (lstat_ok env) target (mg_store m) (mg_store (rename_entry env dry n (target n) m)))"
proof (cases "target n")
  case (Rename_To t)
  let ?s = "mg_store m"
  show ?thesis
  proof (cases "mg_store (rename_entry env dry n (target n) m) = ?s")
    case False
    then obtain src dst fs' where p: "raw_entry_path (st_root ?s) n = Some src" "raw_entry_path (st_root ?s) t = Some dst"
      and l: "\<nexists>nd. sys_lstat env (st_fs ?s) dst = Inr nd" and d: "\<not> dry"
      and r: "sys_rename env (st_fs ?s) src dst = Inr fs'"
      and m': "mg_store (rename_entry env dry n (target n) m) = ?s\<lparr>st_fs := fs'\<rparr>"
      by (auto simp: rename_entry_def Rename_To Let_def split: option.splits sum.splits if_splits)
    have free: "lstat_ok env \<longrightarrow> map_of (st_fs ?s) dst = None"
      using l by (auto simp: sys_lstat_def lstat_ok_def split: option.splits if_splits)
    obtain nd where "map_of (st_fs ?s) src = Some nd" "nd \<noteq> Dir" "map_of (st_fs ?s) dst \<noteq> Some Dir"
      "\<forall>q. map_of fs' q = (if q = dst then Some nd else if q = src then None else map_of (st_fs ?s) q)"
      using rename_lookup [OF r] by blast
    then have "entry_move (lstat_ok env) target ?s (?s\<lparr>st_fs := fs'\<rparr>)"
      unfolding entry_move_def using free p [THEN raw_entry_path_Some] Rename_To sys_ok(3) [OF _ r]
      by (intro exI [of _ n] exI [of _ t] exI [of _ nd]) simp
    then show ?thesis using d m' by simp
  qed simp
qed (auto simp: rename_entry_def)

lemma rename_loop_moves:
  "(entry_move (lstat_ok env) target)\<^sup>*\<^sup>* (mg_store m) (mg_store (rename_loop env dry target ns m))
    \<and> (dry \<longrightarrow> mg_store (rename_loop env dry target ns m) = mg_store m)"
proof (induction ns arbitrary: m)
  case (Cons n ns)
  then show ?case
    using rename_entry_move [of env dry n target m]
    by (auto intro: converse_rtranclp_into_rtranclp) (metis converse_rtranclp_into_rtranclp)+
qed simp

lemma set_arch_moves:
  assumes "store_set_arch env s arch dry = (rc, out, s')"
  shows "(entry_move (lstat_ok env) (set_arch_target arch))\<^sup>*\<^sup>* s s' \<and> (dry \<longrightarrow> s' = s)
    \<and> (s' \<noteq> s \<longrightarrow> arch \<in> set g_arches)"
proof (cases "s' = s")
  case False
  then obtain ns where s': "s' = mg_store (rename_loop env dry (set_arch_target arch) ns
      \<lparr>mg_store = s, mg_renamed = 0, mg_conflicts = 0, mg_rc = 0\<rparr>)" and a: "arch \<in> set g_arches"
    using assms by (auto simp: store_set_arch_def Let_def split: if_splits prod.splits)
  show ?thesis
    using rename_loop_moves [of env "set_arch_target arch"
        "\<lparr>mg_store = s, mg_renamed = 0, mg_conflicts = 0, mg_rc = 0\<rparr>" dry ns] s' a by simp
qed simp

lemma canonicalize_moves:
  assumes "store_canonicalize env s dry = (rc, out, s')"
  shows "(entry_move (lstat_ok env) canonicalize_target)\<^sup>*\<^sup>* s s' \<and> (dry \<longrightarrow> s' = s)"
proof (cases "s' = s")
  case False
  then obtain ns where s': "s' = mg_store (rename_loop env dry canonicalize_target ns
      \<lparr>mg_store = s, mg_renamed = 0, mg_conflicts = 0, mg_rc = 0\<rparr>)"
    using assms by (auto simp: store_canonicalize_def Let_def split: if_splits prod.splits)
  show ?thesis
    using rename_loop_moves [of env canonicalize_target
        "\<lparr>mg_store = s, mg_renamed = 0, mg_conflicts = 0, mg_rc = 0\<rparr>" dry ns] s' by simp
qed simp

text \<open>A move carries a digest from one name to the other and touches nothing else.\<close>

lemma entry_move_entries:
  assumes "entry_move free target s s'"
  obtains n t where "target n = Rename_To t" "free \<Longrightarrow> n \<noteq> t" "free \<Longrightarrow> entry_digest s t = None"
    "entry_digest s' = (entry_digest s)(n := None, t := entry_digest s n)"
proof -
  obtain n t nd where m: "target n = Rename_To t" "st_root s' = st_root s"
    "map_of (st_fs s) (entry_at (st_root s) n) = Some nd"
    "free \<Longrightarrow> map_of (st_fs s) (entry_at (st_root s) t) = None"
    "\<And>q. map_of (st_fs s') q = (if q = entry_at (st_root s) t then Some nd
       else if q = entry_at (st_root s) n then None else map_of (st_fs s) q)"
    using assms by (auto simp: entry_move_def)
  have "entry_digest s' = (entry_digest s)(n := None, t := entry_digest s n)"
    using m by (auto simp: entry_digest_def fun_eq_iff)
  moreover have "n \<noteq> t" if free using m(3,4) that by auto
  moreover have "entry_digest s t = None" if free using m(4) that by (simp add: entry_digest_def)
  ultimately show thesis using that m(1) by blast
qed

lemma entry_move_ran:
  assumes "entry_move free target s s'"
  shows "ran (entry_digest s') \<subseteq> ran (entry_digest s)" and "free \<Longrightarrow> ran (entry_digest s') = ran (entry_digest s)"
proof -
  obtain n t where e: "free \<Longrightarrow> n \<noteq> t" "free \<Longrightarrow> entry_digest s t = None"
    "entry_digest s' = (entry_digest s)(n := None, t := entry_digest s n)"
    using entry_move_entries [OF assms] by metis
  show sub: "ran (entry_digest s') \<subseteq> ran (entry_digest s)"
    by (auto simp: e(3) ran_def split: if_splits)
  assume free: free
  have "d \<in> ran (entry_digest s')" if "d \<in> ran (entry_digest s)" for d
  proof -
    obtain k where "entry_digest s k = Some d" using \<open>d \<in> _\<close> by (auto simp: ran_def)
    then have "entry_digest s' (if k = n then t else k) = Some d" using e free by auto
    then show ?thesis by (auto simp: ran_def)
  qed
  then show "ran (entry_digest s') = ran (entry_digest s)" using sub by blast
qed

lemma entry_move_blobs:
  "entry_move free target s s' \<Longrightarrow> st_root s' = st_root s
     \<and> map_of (st_fs s') (blob_at (st_root s) d) = map_of (st_fs s) (blob_at (st_root s) d)"
  by (auto simp: entry_move_def)

lemma moves_keep:
  assumes "(entry_move free target)\<^sup>*\<^sup>* s s'"
  shows "st_root s' = st_root s \<and> ran (entry_digest s') \<subseteq> ran (entry_digest s)
    \<and> (free \<longrightarrow> ran (entry_digest s') = ran (entry_digest s))
    \<and> (\<forall>d. map_of (st_fs s') (blob_at (st_root s) d) = map_of (st_fs s) (blob_at (st_root s) d))"
  using assms
proof (induction rule: rtranclp_induct)
  case (step y z)
  then show ?case using entry_move_ran [OF step(2)] entry_move_blobs [OF step(2)] by auto
qed simp

end
