(* ===== verification/Store_System.thy ===== *)
theory Store_System
  imports Store_Maint
begin

text \<open>
  The store as a state machine: every public operation of \<^verbatim>\<open>src/src/store.c\<close> as a step, in any order
  and under any environment, the invariant of all reachable stores, and the abstract catalogue
  the operations implement. The hash function is a parameter; an upload is adopted under the
  hash of its bytes, as the server and the importer do.
\<close>

section \<open>Steps\<close>

definition tmp_area :: "path \<Rightarrow> path \<Rightarrow> bool" where
  "tmp_area root p \<longleftrightarrow> (\<exists>t. p = root @ ''/tmp/'' @ t)"

text \<open>
  A file that may become a blob: an upload in the temporary directory, or a file that stands in
  the place of an entry, which is what the importer takes in.
\<close>

definition staged_at :: "store \<Rightarrow> path \<Rightarrow> bool" where
  "staged_at s p \<longleftrightarrow> tmp_area (st_root s) p \<or> (\<exists>n. p = entry_at (st_root s) n)"

text \<open>
  Uploads write and remove files in the temporary directory. Another program may move a file
  into the directory of the entries, for the importer to take in, over whatever entry has its name.
  The counter of temporary names is a process's own: a step of another process works with another
  counter. Every call of every step may fail. The collector trusts the entries it can read: \<open>care\<close>
  says that its reads of the entries did not fail, whenever it ran; without \<open>care\<close> it runs under
  any failures as well.
\<close>

inductive store_step :: "(bytes \<Rightarrow> string) \<Rightarrow> bool \<Rightarrow> store \<Rightarrow> store \<Rightarrow> bool" for sha care where
  step_publish: "store_publish env s name digest = (e, s') \<Longrightarrow> store_step sha care s s'"
| step_unpublish: "store_unpublish env s name = (e, r, s') \<Longrightarrow> store_step sha care s s'"
| step_tmp_path: "store_tmp_path env s n = (p, s') \<Longrightarrow> store_step sha care s s'"
| step_tmp_write: "tmp_area (st_root s) p \<Longrightarrow>
    store_step sha care s (s\<lparr>st_fs := AList.update p (Reg b m t) (st_fs s)\<rparr>)"
| step_tmp_unlink: "tmp_area (st_root s) p \<Longrightarrow> sys_unlink env (st_fs s) p = Inr fs' \<Longrightarrow>
    store_step sha care s (s\<lparr>st_fs := fs'\<rparr>)"
| step_counter: "store_step sha care s (s\<lparr>st_tmp := n\<rparr>)"
| step_adopt: "staged_at s tmp \<Longrightarrow> map_of (st_fs s) tmp = Some (Reg b m t) \<Longrightarrow>
    store_blob_adopt env s tmp (sha b) = (e, s') \<Longrightarrow> store_step sha care s s'"
| step_drop: "n \<noteq> [] \<Longrightarrow> CHR ''/'' \<notin> set n \<Longrightarrow> map_of (st_fs s) (entry_at (st_root s) n) \<noteq> Some Dir \<Longrightarrow>
    store_step sha care s (s\<lparr>st_fs := AList.update (entry_at (st_root s) n) (Reg b m t) (st_fs s)\<rparr>)"
| step_gc: "(care \<longrightarrow> reads_ok env) \<Longrightarrow> store_gc env s dry = (k, freed, s') \<Longrightarrow> store_step sha care s s'"
| step_canonicalize: "store_canonicalize env s dry = (rc, cnt, s') \<Longrightarrow> store_step sha care s s'"
| step_set_arch: "store_set_arch env s arch dry = (rc, cnt, s') \<Longrightarrow> store_step sha care s s'"

text \<open>A store starts from a root under which nothing exists yet.\<close>

definition fresh_root :: "fs \<Rightarrow> path \<Rightarrow> bool" where
  "fresh_root fs root \<longleftrightarrow> fs_ok fs \<and> (\<forall>t. map_of fs (root @ CHR ''/'' # t) = None)"

inductive store_reachable :: "(bytes \<Rightarrow> string) \<Rightarrow> bool \<Rightarrow> store \<Rightarrow> bool" for sha care where
  reach_init: "fresh_root fs root \<Longrightarrow> length root + 400 < PATH_MAX \<Longrightarrow>
    store_init env root \<lparr>st_root = r0, st_fs = fs, st_tmp = n\<rparr> = (0, s) \<Longrightarrow> store_reachable sha care s"
| reach_step: "store_reachable sha care s \<Longrightarrow> store_step sha care s s' \<Longrightarrow> store_reachable sha care s'"

section \<open>The invariant\<close>

text \<open>
  Only valid names are published; the bytes stored under a digest hash to it; and, when the
  collector read what it relied on, a digest without a blob is published under no name.
\<close>

definition store_inv :: "(bytes \<Rightarrow> string) \<Rightarrow> bool \<Rightarrow> store \<Rightarrow> bool" where
  "store_inv sha care s \<longleftrightarrow>
     fs_ok (st_fs s) \<and> list_all (\<lambda>d. map_of (st_fs s) d = Some Dir) (store_dirs s)
     \<and> length (st_root s) + 400 < PATH_MAX
     \<and> (\<forall>n. entry_digest s n \<noteq> None \<longrightarrow> store_name_is_valid n)
     \<and> (\<forall>d. store_digest_is_valid d \<longrightarrow>
          (map_of (st_fs s) (blob_at (st_root s) d) = None \<and> (care \<longrightarrow> d \<notin> ran (entry_digest s)))
          \<or> (\<exists>b. blob_bytes s d = Some b \<and> sha b = d))"

lemma inv_wf: "store_inv sha care s \<Longrightarrow> store_wf s"
  unfolding store_inv_def store_wf_def by blast

lemma inv_blob:
  assumes "store_inv sha True s" and "entry_digest s n = Some d"
  obtains b where "blob_bytes s d = Some b" "sha b = d"
proof -
  have "store_digest_is_valid d" using entry_digest_valid [OF assms(2)] .
  moreover have "d \<in> ran (entry_digest s)" using assms(2) by (auto simp: ran_def)
  ultimately show thesis using that assms(1) unfolding store_inv_def by blast
qed

lemma inv_name: "store_inv sha care s \<Longrightarrow> entry_digest s n = Some d \<Longrightarrow> store_name_is_valid n"
  by (auto simp: store_inv_def)

lemma inv_frame:
  assumes "store_inv sha care s" and "st_root s' = st_root s" and "fs_ok (st_fs s')"
    and "\<And>d. d \<in> set (store_dirs s) \<Longrightarrow> map_of (st_fs s') d = Some Dir"
    and "\<And>n. entry_digest s' n \<noteq> None \<Longrightarrow> store_name_is_valid n"
    and "\<And>d. store_digest_is_valid d \<Longrightarrow>
      (map_of (st_fs s') (blob_at (st_root s) d) = None \<and> (care \<longrightarrow> d \<notin> ran (entry_digest s')))
      \<or> (\<exists>b. blob_bytes s' d = Some b \<and> sha b = d)"
  shows "store_inv sha care s'"
proof -
  have dirs: "store_dirs s' = store_dirs s" by (simp add: store_dirs_def assms(2))
  show ?thesis
    unfolding store_inv_def dirs assms(2) list_all_iff
    using assms(1,3-6) by (auto simp: store_inv_def)
qed

text \<open>A step that changes no entry and no blob keeps the invariant.\<close>

lemma inv_outside:
  assumes "store_inv sha care s" and "st_root s' = st_root s" and "fs_ok (st_fs s')"
    and "\<And>q. q \<in> set (store_dirs s) \<or> (\<exists>n. q = entry_at (st_root s) n) \<or> (\<exists>d. q = blob_at (st_root s) d) \<Longrightarrow>
      map_of (st_fs s') q = map_of (st_fs s) q"
  shows "store_inv sha care s'"
proof (rule inv_frame [OF assms(1-3)])
  have e: "entry_digest s' = entry_digest s" using assms(2,4) by (auto simp: entry_digest_def fun_eq_iff)
  have b: "blob_bytes s' = blob_bytes s" using assms(2,4) by (auto simp: blob_bytes_def fun_eq_iff)
  show "map_of (st_fs s') d = Some Dir" if "d \<in> set (store_dirs s)" for d
    using that assms(1,4) by (auto simp: store_inv_def list_all_iff)
  show "store_name_is_valid n" if "entry_digest s' n \<noteq> None" for n
    using that assms(1) by (auto simp: store_inv_def e)
  show "(map_of (st_fs s') (blob_at (st_root s) d) = None \<and> (care \<longrightarrow> d \<notin> ran (entry_digest s')))
      \<or> (\<exists>b. blob_bytes s' d = Some b \<and> sha b = d)" if "store_digest_is_valid d" for d
    using that assms(1) assms(4) [of "blob_at (st_root s) d"] e b by (auto simp: store_inv_def)
qed

lemma dirs_disjoint [simp]:
  "entry_at (st_root s) n \<notin> set (store_dirs s)" "blob_at (st_root s) d \<notin> set (store_dirs s)"
  "pub_tmp_at env s \<notin> set (store_dirs s)"
  by (auto simp: store_dirs_def store_paths)

lemma tmp_disjoint:
  "tmp_area (st_root s) p \<Longrightarrow>
   p \<notin> set (store_dirs s) \<and> p \<noteq> entry_at (st_root s) n \<and> p \<noteq> blob_at (st_root s) d"
  by (auto simp: tmp_area_def store_dirs_def store_paths)

subsection \<open>Publishing and unpublishing\<close>

lemma publish_fs_ok:
  assumes "fs_ok (st_fs s)" and "store_publish env s name digest = (e, s')"
  shows "fs_ok (st_fs s')"
proof -
  have u: "fs_ok (ignoring fs (sys_unlink env fs p))" if "fs_ok fs" for fs p
    using that by (intro ignoring_ok) (auto dest: sys_ok(1))
  note sl = sys_ok(2) [OF u [OF assms(1)]]
  show ?thesis
    using assms by (auto simp: store_publish_def Let_def u dest!: sl
        split: if_splits sum.splits option.splits intro: sys_ok(3))
qed

lemma blob_exists_bytes:
  assumes "store_wf s" and "store_blob_exists env s d \<noteq> None"
  shows "store_digest_is_valid d \<and> blob_bytes s d \<noteq> None"
proof -
  have v: "store_digest_is_valid d" using assms(2) by (auto simp: store_blob_exists_def split: if_splits)
  then have "map_of (st_fs s) (blob_at (st_root s) d) = None \<or> blob_bytes s d \<noteq> None"
    using assms(1) by (simp add: store_wf_def)
  moreover have "map_of (st_fs s) (blob_at (st_root s) d) \<noteq> None"
  proof
    assume n: "map_of (st_fs s) (blob_at (st_root s) d) = None"
    then have "namei (st_fs s) (blob_at (st_root s) d) = Some (blob_at (st_root s) d)"
      by (intro namei_plain) simp
    then show False
      using assms(2) v wf_blob_path [OF assms(1) v] n
      by (auto simp: store_blob_exists_def sys_stat_def split: if_splits)
  qed
  ultimately show ?thesis using v by simp
qed

lemma inv_publish:
  assumes inv: "store_inv sha care s" and run: "store_publish env s name digest = (e, s')"
  shows "store_inv sha care s'"
proof -
  have ok: "fs_ok (st_fs s')" using publish_fs_ok [OF _ run] inv by (simp add: store_inv_def)
  from run show ?thesis
  proof (cases rule: publish_outcome)
    case kept
    show ?thesis
    proof (rule inv_outside [OF inv kept(1) ok])
      fix q assume "q \<in> set (store_dirs s) \<or> (\<exists>n. q = entry_at (st_root s) n) \<or> (\<exists>d. q = blob_at (st_root s) d)"
      then have "q \<noteq> pub_tmp_at env s" using dirs_disjoint(3) [of env s] by auto
      then show "map_of (st_fs s') q = map_of (st_fs s) q" by (rule kept(2))
    qed
  next
    case (fresh c p)
    have p: "p = entry_at (st_root s) c" using fresh(2) raw_entry_path_Some by blast
    have blob: "blob_bytes s digest \<noteq> None" using blob_exists_bytes [OF inv_wf [OF inv] fresh(6)] by simp
    have b: "blob_bytes s' = blob_bytes s" using fresh(7,8) p by (auto simp: blob_bytes_def fun_eq_iff)
    have ran: "ran (entry_digest s') \<subseteq> insert digest (ran (entry_digest s))"
      using publish_entries [OF run] by (auto simp: ran_def split: if_splits)
    show ?thesis
    proof (rule inv_frame [OF inv fresh(7) ok])
      show "map_of (st_fs s') d = Some Dir" if "d \<in> set (store_dirs s)" for d
        using that inv by (auto simp: fresh(8) p store_inv_def list_all_iff)
      show "store_name_is_valid n" if e: "entry_digest s' n \<noteq> None" for n
      proof (cases "n = c")
        case True
        then show ?thesis using canon_of_valid [OF fresh(1)] by simp
      next
        case False
        then have "entry_digest s' n = entry_digest s n" using fresh(7,8) p by (simp add: entry_digest_def)
        then show ?thesis using e inv by (simp add: store_inv_def)
      qed
      show "(map_of (st_fs s') (blob_at (st_root s) d) = None \<and> (care \<longrightarrow> d \<notin> ran (entry_digest s')))
          \<or> (\<exists>b. blob_bytes s' d = Some b \<and> sha b = d)" if v: "store_digest_is_valid d" for d
      proof (cases "map_of (st_fs s) (blob_at (st_root s) d) = None \<and> (care \<longrightarrow> d \<notin> ran (entry_digest s))")
        case True
        then have "d \<noteq> digest" using blob by (auto simp: blob_bytes_def)
        then have "d \<in> ran (entry_digest s') \<longrightarrow> d \<in> ran (entry_digest s)" using ran by blast
        then show ?thesis using True by (auto simp: fresh(8) p)
      next
        case False
        then have "\<exists>b. blob_bytes s d = Some b \<and> sha b = d" using inv v unfolding store_inv_def by blast
        then show ?thesis using b by simp
      qed
    qed
  qed
qed

lemma inv_shrink:
  assumes inv: "store_inv sha care s" and "st_root s' = st_root s" and "fs_ok (st_fs s')"
    and "\<And>q. q \<in> set (store_dirs s) \<or> (\<exists>d. q = blob_at (st_root s) d) \<Longrightarrow>
      map_of (st_fs s') q = map_of (st_fs s) q"
    and "\<And>n. map_of (st_fs s') (entry_at (st_root s) n) = map_of (st_fs s) (entry_at (st_root s) n)
      \<or> map_of (st_fs s') (entry_at (st_root s) n) = None"
  shows "store_inv sha care s'"
proof (rule inv_frame [OF assms(1-3)])
  have b: "blob_bytes s' = blob_bytes s" using assms(2,4) by (auto simp: blob_bytes_def fun_eq_iff)
  have e: "entry_digest s n = Some d" if "entry_digest s' n = Some d" for n d
    using that assms(5) [of n] by (auto simp: entry_digest_def assms(2))
  then have ran: "ran (entry_digest s') \<subseteq> ran (entry_digest s)" unfolding ran_def by blast
  show "map_of (st_fs s') d = Some Dir" if "d \<in> set (store_dirs s)" for d
    using that assms(1,4) by (auto simp: store_inv_def list_all_iff)
  show "store_name_is_valid n" if "entry_digest s' n \<noteq> None" for n
    using that assms(1) e [of n] by (auto simp: store_inv_def)
  show "(map_of (st_fs s') (blob_at (st_root s) d) = None \<and> (care \<longrightarrow> d \<notin> ran (entry_digest s')))
      \<or> (\<exists>b. blob_bytes s' d = Some b \<and> sha b = d)" if "store_digest_is_valid d" for d
    using that assms(1) assms(4) [of "blob_at (st_root s) d"] ran b by (auto simp: store_inv_def)
qed

lemma unpublish_fs_ok:
  assumes "fs_ok (st_fs s)" and "store_unpublish env s name = (e, r, s')"
  shows "fs_ok (st_fs s')"
proof -
  have e: "fs_ok (st_fs s2)" if "fs_ok (st_fs s1)" "unpublish_entry env s1 p r1 = (e1, r2, s2)" for s1 s2 p r1 e1 r2
    using that sys_ok(1) [OF that(1), of env p] by (auto simp: unpublish_entry_def split: sum.splits)
  have u: "fs_ok fs'" if "sys_unlink env (st_fs s) p = Inr fs'" for p fs'
    by (rule sys_ok(1) [OF assms(1) that])
  show ?thesis
    using assms e [of s] e [of "s\<lparr>st_fs := fs'\<rparr>" for fs'] u
    by (simp add: store_unpublish_def split: if_splits option.splits sum.splits) fastforce+
qed

lemma inv_unpublish:
  assumes inv: "store_inv sha care s" and run: "store_unpublish env s name = (e, r, s')"
  shows "store_inv sha care s'"
proof -
  have ok: "fs_ok (st_fs s')" using unpublish_fs_ok [OF _ run] inv by (simp add: store_inv_def)
  from run show ?thesis
  proof (cases rule: unpublish_outcome)
    case kept
    then show ?thesis using inv by simp
  next
    case (partial c sp)
    then obtain sc where sp: "sp = entry_at (st_root s) sc" using sig_entry_Some by blast
    show ?thesis
      by (rule inv_shrink [OF inv partial(5) ok]) (auto simp: partial(7) sp)
  next
    case (gone c)
    have sp: "\<exists>sc. q = entry_at (st_root s) sc" if "sig_entry s name = Some q" for q
      using that sig_entry_Some by blast
    show ?thesis
    proof (rule inv_shrink [OF inv gone(3) ok])
      show "map_of (st_fs s') q = map_of (st_fs s) q"
        if "q \<in> set (store_dirs s) \<or> (\<exists>d. q = blob_at (st_root s) d)" for q
      proof -
        have "\<nexists>n. q = entry_at (st_root s) n" using that by auto
        then show ?thesis using sp [of q] by (auto simp: gone(5))
      qed
    qed (simp add: gone(5))
  qed
qed

subsection \<open>Temporary files and adoption\<close>

lemma inv_tmp:
  assumes inv: "store_inv sha care s" and "tmp_area (st_root s) p" and "st_root s' = st_root s"
    and "fs_ok (st_fs s')" and "\<And>q. q \<noteq> p \<Longrightarrow> map_of (st_fs s') q = map_of (st_fs s) q"
  shows "store_inv sha care s'"
proof (rule inv_outside [OF inv assms(3,4)])
  fix q assume "q \<in> set (store_dirs s) \<or> (\<exists>n. q = entry_at (st_root s) n) \<or> (\<exists>d. q = blob_at (st_root s) d)"
  then have "q \<noteq> p" using tmp_disjoint [OF assms(2)] by blast
  then show "map_of (st_fs s') q = map_of (st_fs s) q" by (rule assms(5))
qed

lemma adopt_fs_ok:
  assumes "fs_ok (st_fs s)" and "store_blob_adopt env s tmp d = (e, s')"
  shows "fs_ok (st_fs s')"
proof -
  have u: "fs_ok (ignoring (st_fs s) (sys_unlink env (st_fs s) tmp))"
    using assms(1) by (intro ignoring_ok) (auto dest: sys_ok(1))
  have r: "fs_ok (ignoring fs' (sys_chmod env fs' p 292))" if "sys_rename env (st_fs s) tmp p = Inr fs'" for p fs'
  proof -
    have "fs_ok fs'" by (rule sys_ok(3) [OF assms(1) that])
    then show ?thesis by (intro ignoring_ok) (auto dest: sys_ok(4))
  qed
  show ?thesis
    using assms u by (auto simp: store_blob_adopt_def r split: if_splits option.splits sum.splits)
qed

text \<open>Taking a plain file away from where it is staged changes no digest and no blob.\<close>

lemma staged_gone:
  assumes "staged_at s p" and "map_of (st_fs s) p = Some (Reg b m t)" and "st_root s' = st_root s"
    and "\<And>q. q \<noteq> p \<Longrightarrow> q \<notin> B \<Longrightarrow> same_node (map_of (st_fs s') q) (map_of (st_fs s) q)"
    and "map_of (st_fs s') p = Some (Reg b m t) \<or> map_of (st_fs s') p = None"
    and "\<And>n. entry_at (st_root s) n \<notin> B" and "\<And>d. d \<in> set (store_dirs s) \<Longrightarrow> d \<notin> B"
  shows "entry_digest s' = entry_digest s"
    and "\<And>d. blob_at (st_root s) d \<notin> B \<Longrightarrow>
      same_node (map_of (st_fs s') (blob_at (st_root s) d)) (map_of (st_fs s) (blob_at (st_root s) d))"
    and "\<And>d. d \<in> set (store_dirs s) \<Longrightarrow> map_of (st_fs s) d = Some Dir \<Longrightarrow> map_of (st_fs s') d = Some Dir"
    and "\<And>n. map_of (st_fs s') (entry_at (st_root s) n) \<noteq> None \<Longrightarrow> map_of (st_fs s) (entry_at (st_root s) n) \<noteq> None"
proof -
  have blob: "p \<noteq> blob_at (st_root s) d" for d using assms(1) tmp_disjoint by (auto simp: staged_at_def)
  have dir: "d \<noteq> p" if "d \<in> set (store_dirs s)" for d
    using that assms(1) tmp_disjoint by (auto simp: staged_at_def)
  have dg: "entry_digest s' n = entry_digest s n" for n
  proof (cases "entry_at (st_root s) n = p")
    case True
    then show ?thesis using assms(2,3,5) by (auto simp: entry_digest_def)
  next
    case False
    then show ?thesis using same_node_simps(1) [OF assms(4) [OF False assms(6)]] assms(3) by (simp add: entry_digest_def)
  qed
  show "entry_digest s' = entry_digest s" by (rule ext) (rule dg)
  show "same_node (map_of (st_fs s') (blob_at (st_root s) d)) (map_of (st_fs s) (blob_at (st_root s) d))"
    if "blob_at (st_root s) d \<notin> B" for d
    using blob [of d] that by (intro assms(4)) auto
  show "map_of (st_fs s') d = Some Dir" if "d \<in> set (store_dirs s)" "map_of (st_fs s) d = Some Dir" for d
    using same_node_simps(4) [OF assms(4) [OF dir [OF that(1)] assms(7) [OF that(1)]]] that(2) by simp
  show "map_of (st_fs s) (entry_at (st_root s) n) \<noteq> None" if "map_of (st_fs s') (entry_at (st_root s) n) \<noteq> None" for n
    using that same_node_simps(3) [OF assms(4) [OF _ assms(6)], of n] assms(2) by (cases "entry_at (st_root s) n = p") auto
qed

text \<open>Adopting a staged file under the hash of its bytes: no digest changes, at most one blob comes in.\<close>

lemma adopt_effect:
  assumes st: "staged_at s tmp" and reg: "map_of (st_fs s) tmp = Some (Reg b m t)"
    and run: "store_blob_adopt env s tmp d = (e, s')"
  obtains (kept) "st_root s' = st_root s" "entry_digest s' = entry_digest s"
      "\<And>d'. same_node (map_of (st_fs s') (blob_at (st_root s) d')) (map_of (st_fs s) (blob_at (st_root s) d'))"
      "\<And>p. p \<in> set (store_dirs s) \<Longrightarrow> map_of (st_fs s) p = Some Dir \<Longrightarrow> map_of (st_fs s') p = Some Dir"
      "\<And>n. map_of (st_fs s') (entry_at (st_root s) n) \<noteq> None \<Longrightarrow> map_of (st_fs s) (entry_at (st_root s) n) \<noteq> None"
    | (new) "st_root s' = st_root s" "entry_digest s' = entry_digest s" "store_digest_is_valid d" "blob_bytes s' d = Some b"
      "\<And>d'. d' \<noteq> d \<Longrightarrow>
        same_node (map_of (st_fs s') (blob_at (st_root s) d')) (map_of (st_fs s) (blob_at (st_root s) d'))"
      "\<And>p. p \<in> set (store_dirs s) \<Longrightarrow> map_of (st_fs s) p = Some Dir \<Longrightarrow> map_of (st_fs s') p = Some Dir"
      "\<And>n. map_of (st_fs s') (entry_at (st_root s) n) \<noteq> None \<Longrightarrow> map_of (st_fs s) (entry_at (st_root s) n) \<noteq> None"
  using run
proof (cases rule: adopt_outcome)
  case failed
  then show thesis using kept by (simp add: same_node_def)
next
  case shared
  note g = staged_gone [OF st reg shared(3), of "{}"]
  have g': "same_node (map_of (st_fs s') q) (map_of (st_fs s) q)" if "q \<noteq> tmp" for q
    using shared(5) [OF that] by (simp add: same_node_def)
  have r: "map_of (st_fs s') tmp = Some (Reg b m t) \<or> map_of (st_fs s') tmp = None" using shared(6) reg by auto
  show thesis
    by (rule kept [OF shared(3)]) (use g [OF g' r] in simp_all)
next
  case (moved nd)
  have nd: "nd = Reg b m t" using moved(5) reg by simp
  let ?B = "{blob_at (st_root s) d}"
  have tb: "tmp \<noteq> blob_at (st_root s) d" using st tmp_disjoint by (auto simp: staged_at_def)
  have g': "same_node (map_of (st_fs s') q) (map_of (st_fs s) q)" if "q \<noteq> tmp" "q \<notin> ?B" for q
    using moved(7) [of q] that by simp
  have r: "map_of (st_fs s') tmp = Some (Reg b m t) \<or> map_of (st_fs s') tmp = None"
    using same_node_simps(3) [OF moved(7) [of tmp]] tb by simp
  note g = staged_gone [OF st reg moved(3), of ?B, OF g' r]
  have b: "blob_bytes s' d = Some b"
    using same_node_simps(2) [OF moved(7) [of "blob_at (st_root s) d"]] moved(3) nd by (simp add: blob_bytes_def)
  have e: "entry_at (st_root s) n \<notin> ?B" for n by simp
  have dd: "p \<notin> ?B" if "p \<in> set (store_dirs s)" for p using that by auto
  show thesis
    by (rule new [OF moved(3) _ moved(2) b]) (use g [OF _ _ e dd] in simp_all)
qed

lemma inv_adopt:
  assumes inv: "store_inv sha care s" and st: "staged_at s tmp"
    and reg: "map_of (st_fs s) tmp = Some (Reg b m t)" and run: "store_blob_adopt env s tmp (sha b) = (e, s')"
  shows "store_inv sha care s'"
proof -
  have ok: "fs_ok (st_fs s')" using adopt_fs_ok [OF _ run] inv by (simp add: store_inv_def)
  have blobs: "(map_of (st_fs s') (blob_at (st_root s) d) = None \<and> (care \<longrightarrow> d \<notin> ran (entry_digest s')))
      \<or> (\<exists>b. blob_bytes s' d = Some b \<and> sha b = d)"
    if sn: "same_node (map_of (st_fs s') (blob_at (st_root s) d)) (map_of (st_fs s) (blob_at (st_root s) d))"
      and root: "st_root s' = st_root s" and dg: "entry_digest s' = entry_digest s"
      and v: "store_digest_is_valid d" for d
  proof -
    have "blob_bytes s' d = blob_bytes s d" using same_node_simps(2) [OF sn] root by (simp add: blob_bytes_def)
    then show ?thesis
      using inv v same_node_simps(3) [OF sn] dg unfolding store_inv_def by (metis (no_types, lifting))
  qed
  from st reg run show ?thesis
  proof (cases rule: adopt_effect)
    case kept
    show ?thesis
      by (rule inv_frame [OF inv kept(1) ok])
        (use inv kept(2,4) blobs [OF kept(3,1,2)] in \<open>auto simp: store_inv_def list_all_iff\<close>)
  next
    case new
    show ?thesis
    proof (rule inv_frame [OF inv new(1) ok])
      show "(map_of (st_fs s') (blob_at (st_root s) d) = None \<and> (care \<longrightarrow> d \<notin> ran (entry_digest s')))
          \<or> (\<exists>b. blob_bytes s' d = Some b \<and> sha b = d)" if "store_digest_is_valid d" for d
        using that new(4) blobs [OF new(5,1,2)] by (cases "d = sha b") auto
    qed (use inv new(2,6) in \<open>auto simp: store_inv_def list_all_iff\<close>)
  qed
qed

text \<open>A file moved in over an entry takes the entry's name away.\<close>

lemma drop_entries:
  "entry_digest (s\<lparr>st_fs := AList.update (entry_at (st_root s) n) (Reg b m t) (st_fs s)\<rparr>) = (entry_digest s)(n := None)"
  by (auto simp: entry_digest_def fs_simps fun_eq_iff)

lemma inv_drop:
  assumes inv: "store_inv sha care s"
    and "s' = s\<lparr>st_fs := AList.update (entry_at (st_root s) n) (Reg b m t) (st_fs s)\<rparr>"
  shows "store_inv sha care s'"
proof -
  have r: "st_root s' = st_root s" and m: "map_of (st_fs s') q =
      (if q = entry_at (st_root s) n then Some (Reg b m t) else map_of (st_fs s) q)" for q
    by (simp_all add: assms(2) fs_simps)
  have e: "entry_digest s' = (entry_digest s)(n := None)" using drop_entries [of s n b m t] by (simp add: assms(2))
  have b: "blob_bytes s' = blob_bytes s" by (simp add: blob_bytes_def r m fun_eq_iff)
  show ?thesis
  proof (rule inv_frame [OF inv r])
    show "fs_ok (st_fs s')" using inv by (simp add: assms(2) store_inv_def update_ok)
    show "map_of (st_fs s') d = Some Dir" if "d \<in> set (store_dirs s)" for d
      using that inv by (auto simp: m store_inv_def list_all_iff)
    show "store_name_is_valid k" if "entry_digest s' k \<noteq> None" for k
      using that inv by (auto simp: e store_inv_def split: if_splits)
    show "(map_of (st_fs s') (blob_at (st_root s) d) = None \<and> (care \<longrightarrow> d \<notin> ran (entry_digest s')))
        \<or> (\<exists>b. blob_bytes s' d = Some b \<and> sha b = d)" if "store_digest_is_valid d" for d
    proof -
      have "ran (entry_digest s') \<subseteq> ran (entry_digest s)" by (auto simp: e ran_def split: if_splits)
      then show ?thesis using inv that b by (auto simp: m store_inv_def)
    qed
  qed
qed

subsection \<open>The collector\<close>

lemma inv_live:
  assumes inv: "store_inv sha care s" and "reads_ok env"
  shows "live_digests env s = ran (entry_digest s)"
proof -
  have "raw_digest env s n = entry_digest s n" if "store_name_is_valid n" for n
    using raw_digest_eq [OF assms(2) inv_wf [OF inv] valid_length [OF that]] .
  then have "visible env s n \<and> raw_digest env s n = Some d \<longleftrightarrow> entry_digest s n = Some d" for n d
    using inv_name [OF inv] by (auto simp: visible_def)
  then show ?thesis by (auto simp: live_digests_def ran_def)
qed

lemma inv_gc:
  assumes inv: "store_inv sha care s" and "care \<longrightarrow> reads_ok env" and run: "store_gc env s dry = (k, freed, s')"
  shows "store_inv sha care s'"
proof -
  note o = gc_outcome [OF inv_wf [OF inv] run]
  have root: "st_root s' = st_root s" and ok: "fs_ok (st_fs s')" using o by auto
  have keep: "map_of (st_fs s') q = map_of (st_fs s) q" if "\<nexists>d. q = blob_at (st_root s) d" for q
    using o that by blast
  have dead: "map_of (st_fs s') (blob_at (st_root s) d) = map_of (st_fs s) (blob_at (st_root s) d)
      \<or> (map_of (st_fs s') (blob_at (st_root s) d) = None \<and> (care \<longrightarrow> d \<notin> ran (entry_digest s)))" for d
    using o inv_live [OF inv] assms(2) by (metis blob_at_inj)
  have e: "entry_digest s' = entry_digest s" using keep root by (auto simp: entry_digest_def fun_eq_iff)
  show ?thesis
  proof (rule inv_frame [OF inv root ok])
    show "map_of (st_fs s') d = Some Dir" if "d \<in> set (store_dirs s)" for d
    proof -
      have "\<nexists>x. d = blob_at (st_root s) x" using that dirs_disjoint(2) by metis
      then show ?thesis using keep that inv by (auto simp: store_inv_def list_all_iff)
    qed
    show "store_name_is_valid n" if "entry_digest s' n \<noteq> None" for n
      using that inv by (simp add: store_inv_def e)
    show "(map_of (st_fs s') (blob_at (st_root s) d) = None \<and> (care \<longrightarrow> d \<notin> ran (entry_digest s')))
        \<or> (\<exists>b. blob_bytes s' d = Some b \<and> sha b = d)" if v: "store_digest_is_valid d" for d
      using dead [of d] inv v e root by (auto simp: store_inv_def blob_bytes_def)
  qed
qed

subsection \<open>Migrations\<close>

lemma set_arch_target_valid:
  assumes v: "store_name_is_valid n" and a: "arch \<in> set g_arches" and t: "set_arch_target arch n = Rename_To t"
  shows "store_name_is_valid t"
proof -
  have "store_suffix_of n \<noteq> None" using v by (simp add: store_name_is_valid_iff)
  then obtain stem ext where e: "ext \<in> set known_exts" "stem \<noteq> []" "n = stem @ ext"
    by (rule store_suffix_of_cases)
  have sfx: "store_suffix_of n = Some ext" using e store_suffix_of_append [of ext stem] by simp
  then have tn: "t = stem @ (CHR ''-'' # arch) @ ext" and len: "length t < STORE_NAME_MAX"
    using t e(3) by (auto simp: set_arch_target_def stem_len_def Let_def snprintf_fits_def split: if_splits)
  have arch: "list_all name_char_ok arch \<and> no_dotdot arch \<and> arch \<noteq> [] \<and> last arch \<noteq> CHR ''.''"
  proof -
    have "list_all (\<lambda>a. list_all name_char_ok a \<and> no_dotdot a \<and> a \<noteq> [] \<and> last a \<noteq> CHR ''.'') g_arches"
      by code_simp
    then show ?thesis using a by (simp add: list_all_iff)
  qed
  have "no_dotdot stem" "no_dotdot ext" using v e(3) by (auto simp: store_name_is_valid_iff no_dotdot_append)
  then have "no_dotdot t" using arch by (simp add: tn no_dotdot_append)
  moreover have "list_all name_char_ok t"
    using v e(3) arch by (auto simp: tn store_name_is_valid_iff name_char_ok_def)
  moreover have "store_suffix_of t \<noteq> None"
    using store_suffix_of_append [of ext "stem @ CHR ''-'' # arch"] e(1) by (simp add: tn)
  ultimately show ?thesis
    using v e len by (auto simp: store_name_is_valid_iff tn)
qed

lemma canonicalize_target_valid: "canonicalize_target n = Rename_To t \<Longrightarrow> store_name_is_valid t"
  using canonical_closed [of n STORE_NAME_MAX]
  by (auto simp: canonicalize_target_def split: option.splits prod.splits nat.splits)

lemma inv_move:
  assumes inv: "store_inv sha care s" and move: "entry_move free target s s'"
    and valid: "\<And>n t. store_name_is_valid n \<Longrightarrow> target n = Rename_To t \<Longrightarrow> store_name_is_valid t"
  shows "store_inv sha care s'"
proof -
  obtain n t nd where m: "target n = Rename_To t" "st_root s' = st_root s"
    "map_of (st_fs s) (entry_at (st_root s) n) = Some nd"
    "\<And>q. map_of (st_fs s') q = (if q = entry_at (st_root s) t then Some nd
       else if q = entry_at (st_root s) n then None else map_of (st_fs s) q)"
    "fs_ok (st_fs s) \<longrightarrow> fs_ok (st_fs s')"
    using move by (auto simp: entry_move_def)
  have ok: "fs_ok (st_fs s')" using m(5) inv by (simp add: store_inv_def)
  have b: "blob_bytes s' = blob_bytes s" using m(2,4) by (auto simp: blob_bytes_def fun_eq_iff)
  show ?thesis
  proof (rule inv_frame [OF inv m(2) ok])
    show "map_of (st_fs s') d = Some Dir" if "d \<in> set (store_dirs s)" for d
      using that inv by (auto simp: m(4) store_inv_def list_all_iff)
    show "store_name_is_valid k" if k: "entry_digest s' k \<noteq> None" for k
    proof -
      obtain n t where e: "target n = Rename_To t" "entry_digest s' = (entry_digest s)(n := None, t := entry_digest s n)"
        using entry_move_entries [OF move] by metis
      then have "entry_digest s n \<noteq> None \<and> k = t \<or> entry_digest s k \<noteq> None" using k by (auto split: if_splits)
      then show ?thesis using inv valid e(1) by (auto simp: store_inv_def)
    qed
    show "(map_of (st_fs s') (blob_at (st_root s) d) = None \<and> (care \<longrightarrow> d \<notin> ran (entry_digest s')))
        \<or> (\<exists>b. blob_bytes s' d = Some b \<and> sha b = d)" if "store_digest_is_valid d" for d
      using that inv b entry_move_ran(1) [OF move] by (auto simp: m(4) store_inv_def)
  qed
qed

lemma inv_moves:
  assumes "(entry_move free target)\<^sup>*\<^sup>* s s'" and "store_inv sha care s"
    and "\<And>n t. store_name_is_valid n \<Longrightarrow> target n = Rename_To t \<Longrightarrow> store_name_is_valid t"
  shows "store_inv sha care s'"
  using assms(1)
proof (induction rule: rtranclp_induct)
  case (step y z)
  then show ?case using inv_move assms(3) by blast
qed (rule assms(2))

subsection \<open>Every step\<close>

lemma inv_step:
  assumes inv: "store_inv sha care s" and "store_step sha care s s'"
  shows "store_inv sha care s'"
  using assms(2)
proof (cases rule: store_step.cases)
  case (step_publish env name digest e)
  then show ?thesis using inv_publish [OF inv] by blast
next
  case (step_unpublish env name e r)
  then show ?thesis using inv_unpublish [OF inv] by blast
next
  case (step_tmp_path env n p)
  then have "s' = s\<lparr>st_tmp := next_tmp (st_tmp s)\<rparr>" by (simp add: store_tmp_path_def Let_def)
  then show ?thesis using inv_outside [OF inv, of s'] inv by (simp add: store_inv_def)
next
  case (step_tmp_write p b m t)
  show ?thesis
    by (rule inv_tmp [OF inv step_tmp_write(2)])
      (use inv in \<open>auto simp: step_tmp_write(1) fs_simps store_inv_def intro: update_ok\<close>)
next
  case (step_tmp_unlink p env fs')
  show ?thesis
    by (rule inv_tmp [OF inv step_tmp_unlink(2)])
      (use inv sys_ok(1) [OF _ step_tmp_unlink(3)] unlink_lookup [OF step_tmp_unlink(3)]
        in \<open>auto simp: step_tmp_unlink(1) store_inv_def\<close>)
next
  case (step_counter n)
  then show ?thesis using inv_outside [OF inv, of s'] inv by (simp add: store_inv_def)
next
  case (step_adopt tmp b m t env e)
  then show ?thesis using inv_adopt [OF inv] by blast
next
  case (step_drop n b m t)
  then show ?thesis using inv_drop [OF inv] by blast
next
  case (step_gc env dry k freed)
  then show ?thesis using inv_gc [OF inv] by blast
next
  case (step_canonicalize env dry rc cnt)
  then have "(entry_move (lstat_ok env) canonicalize_target)\<^sup>*\<^sup>* s s'" using canonicalize_moves by blast
  then show ?thesis using inv_moves [OF _ inv] canonicalize_target_valid by blast
next
  case (step_set_arch env arch dry rc cnt)
  then have mv: "(entry_move (lstat_ok env) (set_arch_target arch))\<^sup>*\<^sup>* s s'" and "s' \<noteq> s \<longrightarrow> arch \<in> set g_arches"
    using set_arch_moves by blast+
  then show ?thesis using inv_moves [OF mv inv] set_arch_target_valid inv by blast
qed

subsection \<open>Initialisation\<close>

lemma mkdir_if_absent_free:
  assumes "mkdir_if_absent env fs p = Some fs'" and "map_of fs p = None"
  shows "map_of fs' q = (if q = p then Some Dir else map_of fs q)"
  using assms by (auto simp: mkdir_if_absent_def sys_mkdir_def fs_simps split: sum.splits if_splits)

lemma mkdir_if_absent_ok: "fs_ok fs \<Longrightarrow> mkdir_if_absent env fs p = Some fs' \<Longrightarrow> fs_ok fs'"
  by (auto simp: mkdir_if_absent_def dest: sys_ok(5) split: sum.splits if_splits)

lemma mkdir_if_absent_other:
  "mkdir_if_absent env fs p = Some fs' \<Longrightarrow> q \<noteq> p \<Longrightarrow> map_of fs' q = map_of fs q"
  by (auto simp: mkdir_if_absent_def sys_mkdir_def fs_simps split: sum.splits if_splits)

lemma inv_init:
  assumes fresh: "fresh_root fs root" and len: "length root + 400 < PATH_MAX"
    and run: "store_init env root \<lparr>st_root = r0, st_fs = fs, st_tmp = n\<rparr> = (0, s)"
  shows "store_inv sha care s"
proof -
  have fits: "snprintf_fits PATH_MAX root" "snprintf PATH_MAX root = root"
    using len by (auto simp: snprintf_fits_def snprintf_def)
  have under: "map_of fs (root @ CHR ''/'' # t) = None" for t using fresh by (simp add: fresh_root_def)
  obtain fs0 fs1 fs2 fs3 where d: "mkdir_if_absent env fs root = Some fs0"
    "mkdir_if_absent env fs0 (root @ ''/blobs'') = Some fs1"
    "mkdir_if_absent env fs1 (root @ ''/packages'') = Some fs2"
    "mkdir_if_absent env fs2 (root @ ''/tmp'') = Some fs3"
    and s: "s = \<lparr>st_root = root, st_fs = fs3, st_tmp = n\<rparr>"
    using run fits
    by (auto simp: store_init_def Let_def STORE_DIR_def split: if_splits option.splits)
  have q0: "map_of fs0 (root @ CHR ''/'' # t) = None" for t
    using mkdir_if_absent_other [OF d(1)] under by simp
  have q1: "map_of fs1 q = (if q = root @ ''/blobs'' then Some Dir else map_of fs0 q)" for q
    by (rule mkdir_if_absent_free [OF d(2) q0])
  have "map_of fs1 (root @ ''/packages'') = None" using q0 [of "''packages''"] by (simp add: q1)
  note q2 = mkdir_if_absent_free [OF d(3) this]
  have "map_of fs2 (root @ ''/tmp'') = None" using q0 [of "''tmp''"] by (simp add: q1 q2)
  note q3 = mkdir_if_absent_free [OF d(4) this]
  have none: "map_of fs3 (entry_at root k) = None" "map_of fs3 (blob_at root k) = None" for k
    using q0 [of "''packages/'' @ k"] q0 [of "''blobs/'' @ k"]
    by (simp_all add: q1 q2 q3 entry_at_def blob_at_def STORE_DIR_def)
  have "fs_ok fs3"
    using fresh d by (meson fresh_root_def mkdir_if_absent_ok)
  then show ?thesis
    using len none by (auto simp: store_inv_def s store_dirs_def q1 q2 q3 entry_digest_def ran_def)
qed

lemma reachable_inv: "store_reachable sha care s \<Longrightarrow> store_inv sha care s"
proof (induction rule: store_reachable.induct)
  case (reach_init fs root env r0 n s)
  then show ?case by (rule inv_init)
next
  case (reach_step s s')
  then show ?case using inv_step by blast
qed

section \<open>The catalogue the store implements\<close>

record catalogue =
  cat_entries :: "string \<Rightarrow> string option"
  cat_blobs :: "string \<Rightarrow> bytes option"

text \<open>
  The abstract steps: nothing, publish under a free name a digest whose blob is there, withdraw
  names, store bytes under their hash, free digests, which no name has when the collector took
  care, and move a name to a free one.
\<close>

inductive cat_step :: "(bytes \<Rightarrow> string) \<Rightarrow> bool \<Rightarrow> catalogue \<Rightarrow> catalogue \<Rightarrow> bool" for sha care where
  cat_skip: "cat_step sha care c c"
| cat_publish: "cat_entries c n = None \<Longrightarrow> cat_blobs c d \<noteq> None \<Longrightarrow>
    cat_step sha care c (c\<lparr>cat_entries := (cat_entries c)(n \<mapsto> d)\<rparr>)"
| cat_withdraw: "cat_step sha care c (c\<lparr>cat_entries := (\<lambda>n. if n \<in> D then None else cat_entries c n)\<rparr>)"
| cat_store: "sha b = d \<Longrightarrow> cat_step sha care c (c\<lparr>cat_blobs := (cat_blobs c)(d \<mapsto> b)\<rparr>)"
| cat_free: "(care \<longrightarrow> D \<inter> ran (cat_entries c) = {}) \<Longrightarrow>
    cat_step sha care c (c\<lparr>cat_blobs := (\<lambda>d. if d \<in> D then None else cat_blobs c d)\<rparr>)"
| cat_move: "cat_entries c m = None \<Longrightarrow> m \<noteq> n \<Longrightarrow>
    cat_step sha care c (c\<lparr>cat_entries := (cat_entries c)(n := None, m := cat_entries c n)\<rparr>)"

inductive_cases cat_stepE: "cat_step sha care c c'"

definition catalogue_of :: "store \<Rightarrow> catalogue" where
  "catalogue_of s =
     \<lparr>cat_entries = entry_digest s,
      cat_blobs = (\<lambda>d. if store_digest_is_valid d then blob_bytes s d else None)\<rparr>"

text \<open>A simulation of a machine by another one, under an invariant of the first.\<close>

locale simulation =
  fixes abs :: "'c \<Rightarrow> 'a" and step :: "'c \<Rightarrow> 'c \<Rightarrow> bool" and astep :: "'a \<Rightarrow> 'a \<Rightarrow> bool" and inv :: "'c \<Rightarrow> bool"
  assumes inv_step: "inv s \<Longrightarrow> step s s' \<Longrightarrow> inv s'"
    and sim_step: "inv s \<Longrightarrow> step s s' \<Longrightarrow> astep\<^sup>*\<^sup>* (abs s) (abs s')"
begin

lemma run_inv: "step\<^sup>*\<^sup>* s s' \<Longrightarrow> inv s \<Longrightarrow> inv s'"
  by (induction rule: rtranclp_induct) (auto intro: inv_step)

lemma run_sim: "step\<^sup>*\<^sup>* s s' \<Longrightarrow> inv s \<Longrightarrow> astep\<^sup>*\<^sup>* (abs s) (abs s')"
proof (induction rule: rtranclp_induct)
  case (step y z)
  then show ?case using run_inv sim_step by (meson rtranclp_trans)
qed simp

lemma run_preserves:
  assumes "step\<^sup>*\<^sup>* s s'" and "inv s" and "P (abs s)" and "\<And>a a'. P a \<Longrightarrow> astep a a' \<Longrightarrow> P a'"
  shows "P (abs s')"
  using run_sim [OF assms(1,2)] assms(3)
  by (induction rule: rtranclp_induct) (auto intro: assms(4))

end

lemma catalogue_of_entries:
  "blob_bytes s' = blob_bytes s \<Longrightarrow> catalogue_of s' = (catalogue_of s)\<lparr>cat_entries := entry_digest s'\<rparr>"
  by (simp add: catalogue_of_def cong: if_cong)

lemma catalogue_of_sel [simp]: "cat_entries (catalogue_of s) = entry_digest s"
  "cat_blobs (catalogue_of s) d = (if store_digest_is_valid d then blob_bytes s d else None)"
  by (simp_all add: catalogue_of_def)

lemma sim_moves:
  assumes "(entry_move free target)\<^sup>*\<^sup>* s s'"
  shows "(cat_step sha care)\<^sup>*\<^sup>* (catalogue_of s) (catalogue_of s')"
  using assms
proof (induction rule: rtranclp_induct)
  case (step y z)
  obtain n t where e: "entry_digest z = (entry_digest y)(n := None, t := entry_digest y n)"
    using entry_move_entries [OF step(2)] by metis
  let ?c = "catalogue_of y" and ?w = "(catalogue_of y)\<lparr>cat_entries := (entry_digest y)(t := None)\<rparr>"
  have "blob_bytes z = blob_bytes y"
    using entry_move_blobs [OF step(2)] by (simp add: blob_bytes_def fun_eq_iff)
  then have z: "catalogue_of z = ?c\<lparr>cat_entries := (entry_digest y)(n := None, t := entry_digest y n)\<rparr>"
    using catalogue_of_entries [of z y] e by simp
  have "(cat_step sha care)\<^sup>*\<^sup>* ?c (catalogue_of z)"
  proof (cases "n = t")
    case True
    then have "catalogue_of z = ?c" using z by (simp add: catalogue_of_def)
    then show ?thesis by simp
  next
    case False
    have "(\<lambda>k. if k \<in> {t} then None else entry_digest y k) = (entry_digest y)(t := None)" by (simp add: fun_eq_iff)
    then have "cat_step sha care ?c ?w" using cat_step.cat_withdraw [of sha care ?c "{t}"] by (simp cong: if_cong)
    moreover have "cat_step sha care ?w (catalogue_of z)"
      using cat_step.cat_move [of ?w t n sha care] False by (simp add: z fun_upd_twist)
    ultimately show ?thesis by (meson r_into_rtranclp rtranclp.rtrancl_into_rtrancl)
  qed
  then show ?case using step.IH by (rule rtranclp_trans [rotated])
qed simp

lemma sim_same:
  assumes "entry_digest s' = entry_digest s" and "blob_bytes s' = blob_bytes s"
  shows "cat_step sha care (catalogue_of s) (catalogue_of s')"
proof -
  have "catalogue_of s' = catalogue_of s" using catalogue_of_entries [OF assms(2)] assms(1) by (simp add: catalogue_of_def)
  then show ?thesis by (simp add: cat_step.cat_skip)
qed

lemma sim_publish:
  assumes inv: "store_inv sha care s" and run: "store_publish env s name digest = (e, s')"
  shows "cat_step sha care (catalogue_of s) (catalogue_of s')"
proof -
  have b: "blob_bytes s' = blob_bytes s"
    using publish_blobs [OF run] publish_root [of env s name digest] run by (simp add: blob_bytes_def fun_eq_iff)
  from run show ?thesis
  proof (cases rule: publish_outcome)
    case kept
    then show ?thesis by (intro sim_same b) (simp add: entry_digest_def fun_eq_iff)
  next
    case (fresh c p)
    have v: "store_digest_is_valid digest \<and> blob_bytes s digest \<noteq> None"
      by (rule blob_exists_bytes [OF inv_wf [OF inv] fresh(6)])
    from publish_entries [OF run] show ?thesis
    proof (elim disjE exE conjE)
      fix k assume k: "entry_digest s k = None" "entry_digest s' = (entry_digest s)(k \<mapsto> digest)"
      show ?thesis
        using cat_step.cat_publish [of "catalogue_of s" k digest sha care] k v catalogue_of_entries [OF b] by simp
    qed (auto intro: sim_same b)
  qed
qed

lemma sim_unpublish:
  assumes "store_unpublish env s name = (e, r, s')"
  shows "cat_step sha care (catalogue_of s) (catalogue_of s')"
proof -
  obtain D where "entry_digest s' = (\<lambda>n. if n \<in> D then None else entry_digest s n)"
    using unpublish_entries [OF assms] by blast
  moreover have "blob_bytes s' = blob_bytes s"
    using unpublish_blobs [OF assms] by (simp add: blob_bytes_def fun_eq_iff)
  ultimately show ?thesis
    using cat_step.cat_withdraw [of sha care "catalogue_of s" D] catalogue_of_entries [of s' s] by (simp cong: if_cong)
qed

lemma sim_tmp:
  assumes "tmp_area (st_root s) p" and "st_root s' = st_root s"
    and "\<And>q. q \<noteq> p \<Longrightarrow> map_of (st_fs s') q = map_of (st_fs s) q"
  shows "cat_step sha care (catalogue_of s) (catalogue_of s')"
proof (rule sim_same)
  have "entry_at (st_root s) n \<noteq> p" "blob_at (st_root s) n \<noteq> p" for n
    using tmp_disjoint [OF assms(1)] by blast+
  then show "entry_digest s' = entry_digest s" "blob_bytes s' = blob_bytes s"
    using assms(2,3) by (simp_all add: entry_digest_def blob_bytes_def fun_eq_iff)
qed

lemma sim_adopt:
  assumes st: "staged_at s tmp" and reg: "map_of (st_fs s) tmp = Some (Reg b m t)"
    and run: "store_blob_adopt env s tmp (sha b) = (e, s')"
  shows "cat_step sha care (catalogue_of s) (catalogue_of s')"
  using st reg run
proof (cases rule: adopt_effect)
  case kept
  have "blob_bytes s' d = blob_bytes s d" for d
    using same_node_simps(2) [OF kept(3) [of d]] kept(1) by (simp add: blob_bytes_def)
  then show ?thesis by (intro sim_same kept(2)) (simp add: fun_eq_iff)
next
  case new
  have "blob_bytes s' d = ((blob_bytes s)(sha b \<mapsto> b)) d" for d
    using same_node_simps(2) [OF new(5) [of d]] new(1,4) by (cases "d = sha b") (auto simp: blob_bytes_def)
  then have "catalogue_of s' =
      (catalogue_of s)\<lparr>cat_blobs := (cat_blobs (catalogue_of s))(sha b \<mapsto> b)\<rparr>"
    using new(2,3) by (auto simp: catalogue_of_def fun_eq_iff)
  then show ?thesis using cat_step.cat_store [of sha b "sha b" care "catalogue_of s"] by simp
qed

lemma sim_gc:
  assumes inv: "store_inv sha care s" and "care \<longrightarrow> reads_ok env" and run: "store_gc env s dry = (k, freed, s')"
  shows "cat_step sha care (catalogue_of s) (catalogue_of s')"
proof -
  note o = gc_outcome [OF inv_wf [OF inv] run] 
  define D where "D = {d. map_of (st_fs s') (blob_at (st_root s) d) \<noteq> map_of (st_fs s) (blob_at (st_root s) d)}"
  have D: "map_of (st_fs s') (blob_at (st_root s) d) = None \<and> (care \<longrightarrow> d \<notin> ran (entry_digest s))" if "d \<in> D" for d
    using that o inv_live [OF inv] assms(2) unfolding D_def by (metis (mono_tags, lifting) blob_at_inj mem_Collect_eq)
  have e: "entry_digest s' = entry_digest s"
    using gc_keeps_entries [OF inv_wf [OF inv] run] o by (simp add: entry_digest_def fun_eq_iff)
  have b: "blob_bytes s' d = (if d \<in> D then None else blob_bytes s d)" for d
    using D [of d] o by (cases "d \<in> D") (simp_all add: blob_bytes_def D_def)
  have "catalogue_of s' = (catalogue_of s)\<lparr>cat_blobs := (\<lambda>d. if d \<in> D then None else cat_blobs (catalogue_of s) d)\<rparr>"
    by (auto simp: catalogue_of_def e b fun_eq_iff)
  moreover have "care \<longrightarrow> D \<inter> ran (cat_entries (catalogue_of s)) = {}" using D by (auto simp: catalogue_of_def)
  ultimately show ?thesis using cat_step.cat_free [of care D "catalogue_of s" sha] by simp
qed

lemma sim_drop:
  assumes "s' = s\<lparr>st_fs := AList.update (entry_at (st_root s) n) (Reg b m t) (st_fs s)\<rparr>"
  shows "cat_step sha care (catalogue_of s) (catalogue_of s')"
proof -
  have "blob_bytes s' = blob_bytes s" by (simp add: assms blob_bytes_def fs_simps fun_eq_iff)
  moreover have "entry_digest s' = (\<lambda>k. if k \<in> {n} then None else entry_digest s k)"
    using drop_entries [of s n b m t] by (simp add: assms fun_eq_iff)
  ultimately show ?thesis
    using cat_step.cat_withdraw [of sha care "catalogue_of s" "{n}"] catalogue_of_entries [of s' s]
    by (simp cong: if_cong)
qed

lemma sim_step:
  assumes inv: "store_inv sha care s" and "store_step sha care s s'"
  shows "(cat_step sha care)\<^sup>*\<^sup>* (catalogue_of s) (catalogue_of s')"
  using assms(2)
proof (cases rule: store_step.cases)
  case (step_publish env name digest e)
  then show ?thesis using sim_publish [OF inv] by blast
next
  case (step_unpublish env name e r)
  then show ?thesis using sim_unpublish by blast
next
  case (step_tmp_path env n p)
  then have "s' = s\<lparr>st_tmp := next_tmp (st_tmp s)\<rparr>" by (simp add: store_tmp_path_def Let_def)
  then show ?thesis
    using sim_same [of s' s sha care] by (simp add: entry_digest_def blob_bytes_def fun_eq_iff r_into_rtranclp)
next
  case (step_tmp_write p b m t)
  show ?thesis
    by (rule r_into_rtranclp, rule sim_tmp [OF step_tmp_write(2)]) (auto simp: step_tmp_write(1) fs_simps)
next
  case (step_tmp_unlink p env fs')
  show ?thesis
    by (rule r_into_rtranclp, rule sim_tmp [OF step_tmp_unlink(2)])
      (auto simp: step_tmp_unlink(1) unlink_lookup [OF step_tmp_unlink(3)])
next
  case (step_counter n)
  then show ?thesis
    using sim_same [of s' s sha care] by (simp add: entry_digest_def blob_bytes_def fun_eq_iff r_into_rtranclp)
next
  case (step_adopt tmp b m t env e)
  then show ?thesis using sim_adopt by blast
next
  case (step_drop n b m t)
  then show ?thesis using sim_drop by blast
next
  case (step_gc env dry k freed)
  then show ?thesis using sim_gc [OF inv] by blast
next
  case (step_canonicalize env dry rc cnt)
  then show ?thesis using canonicalize_moves sim_moves by blast
next
  case (step_set_arch env arch dry rc cnt)
  then show ?thesis using set_arch_moves sim_moves by blast
qed

interpretation catalogue: simulation catalogue_of "store_step sha care" "cat_step sha care" "store_inv sha care" for sha care
  by unfold_locales (auto intro: inv_step sim_step)

text \<open>What an abstract step can do to a published name.\<close>

lemma cat_step_entry:
  "cat_step sha care c c' \<Longrightarrow> cat_entries c n = Some d \<Longrightarrow> cat_entries c' n = Some d \<or> cat_entries c' n = None"
  by (erule cat_stepE) (auto split: if_splits)

end
