(* ===== verification/Store_Migrate.thy ===== *)
theory Store_Migrate
  imports Store_System
begin

text \<open>
  When the migrations of \<^verbatim>\<open>src/src/store.c\<close> finish the job: a run of \<^verbatim>\<open>store_canonicalize\<close> or
  \<^verbatim>\<open>store_set_arch\<close> that reports neither an error nor a conflict leaves no entry it was meant to
  rename.
\<close>

section \<open>The loop over the collected names\<close>

lemma rename_entry_counts:
  "mg_conflicts m \<le> mg_conflicts (rename_entry env dry n tg m)
   \<and> (mg_rc (rename_entry env dry n tg m) = 0 \<longrightarrow> mg_rc m = 0)"
  by (auto simp: rename_entry_def Let_def split: rename_target.splits option.splits sum.splits)

lemma rename_loop_counts:
  "mg_conflicts m \<le> mg_conflicts (rename_loop env dry target ns m)
   \<and> (mg_rc (rename_loop env dry target ns m) = 0 \<longrightarrow> mg_rc m = 0)"
proof (induction ns arbitrary: m)
  case (Cons n ns)
  then show ?case using rename_entry_counts [of m env dry n "target n"] by (auto intro: order_trans)
qed simp

lemma rename_entry_root [simp]: "st_root (mg_store (rename_entry env dry n tg m)) = st_root (mg_store m)"
  by (auto simp: rename_entry_def Let_def split: rename_target.splits option.splits sum.splits)

lemma rename_loop_root [simp]: "st_root (mg_store (rename_loop env dry target ns m)) = st_root (mg_store m)"
  by (induction ns arbitrary: m) auto

text \<open>An entry after a step is what it was, absent, or the target of the step.\<close>

lemma rename_entry_node:
  "map_of (st_fs (mg_store (rename_entry env dry n tg m))) q = map_of (st_fs (mg_store m)) q
   \<or> map_of (st_fs (mg_store (rename_entry env dry n tg m))) q = None
   \<or> (\<exists>t. tg = Rename_To t \<and> q = entry_at (st_root (mg_store m)) t)"
proof (cases tg)
  case (Rename_To t)
  show ?thesis
  proof (cases "mg_store (rename_entry env dry n tg m) = mg_store m")
    case False
    then obtain src dst fs' where p: "raw_entry_path (st_root (mg_store m)) t = Some dst"
      and r: "sys_rename env (st_fs (mg_store m)) src dst = Inr fs'"
      and m': "mg_store (rename_entry env dry n tg m) = (mg_store m)\<lparr>st_fs := fs'\<rparr>"
      by (auto simp: rename_entry_def Rename_To Let_def split: option.splits sum.splits if_splits)
    have "dst = entry_at (st_root (mg_store m)) t" using p by (rule raw_entry_path_Some)
    then show ?thesis using rename_lookup [OF r] m' Rename_To by auto
  qed simp
qed (simp_all add: rename_entry_def)

lemma rename_loop_node:
  "map_of (st_fs (mg_store (rename_loop env dry target ns m))) (entry_at (st_root (mg_store m)) k) =
     map_of (st_fs (mg_store m)) (entry_at (st_root (mg_store m)) k)
   \<or> map_of (st_fs (mg_store (rename_loop env dry target ns m))) (entry_at (st_root (mg_store m)) k) = None
   \<or> (\<exists>n \<in> set ns. target n = Rename_To k)"
proof (induction ns arbitrary: m)
  case (Cons n ns)
  let ?m1 = "rename_entry env dry n (target n) m"
  show ?case
    using Cons.IH [of ?m1] rename_entry_node [of env dry n "target n" m "entry_at (st_root (mg_store m)) k"]
    by auto
qed simp

lemma rename_entry_gone:
  assumes "reads_ok env" and "target = Rename_To t"
    and "mg_rc (rename_entry env False n target m) = 0"
    and "mg_conflicts (rename_entry env False n target m) = mg_conflicts m"
  shows "map_of (st_fs (mg_store (rename_entry env False n target m))) (entry_at (st_root (mg_store m)) n) = None"
proof -
  let ?s = "mg_store m"
  obtain src dst fs' where p: "raw_entry_path (st_root ?s) n = Some src" "raw_entry_path (st_root ?s) t = Some dst"
    and l: "\<nexists>nd. sys_lstat env (st_fs ?s) dst = Inr nd" and r: "sys_rename env (st_fs ?s) src dst = Inr fs'"
    and m': "mg_store (rename_entry env False n target m) = ?s\<lparr>st_fs := fs'\<rparr>"
    using assms(3,4)
    by (auto simp: rename_entry_def assms(2) Let_def split: option.splits sum.splits if_splits)
  have "map_of (st_fs ?s) dst = None"
    using l assms(1) by (auto simp: sys_lstat_def reads_ok_def split: option.splits)
  then have "src \<noteq> dst" using rename_lookup [OF r] by auto
  then show ?thesis using rename_lookup [OF r] m' p raw_entry_path_Some by auto
qed

lemma rename_loop_gone:
  assumes "reads_ok env" and "n \<in> set ns" and "target n = Rename_To t"
    and "mg_rc (rename_loop env False target ns m) = 0"
    and "mg_conflicts (rename_loop env False target ns m) = mg_conflicts m"
    and "\<nexists>k. k \<in> set ns \<and> target k = Rename_To n"
  shows "map_of (st_fs (mg_store (rename_loop env False target ns m))) (entry_at (st_root (mg_store m)) n) = None"
  using assms(2,4-6)
proof (induction ns arbitrary: m)
  case (Cons k ns)
  let ?m1 = "rename_entry env False k (target k) m"
  note c = rename_entry_counts [of m env False k "target k"] rename_loop_counts [of ?m1 env False target ns]
  have c1: "mg_conflicts ?m1 = mg_conflicts m"
    and c2: "mg_conflicts (rename_loop env False target ns ?m1) = mg_conflicts ?m1"
    and rc: "mg_rc ?m1 = 0" "mg_rc (rename_loop env False target ns ?m1) = 0"
    using c Cons.prems(2,3) by auto
  show ?case
  proof (cases "n \<in> set ns")
    case True
    then show ?thesis using Cons.IH [of ?m1] c2 rc Cons.prems(4) by auto
  next
    case False
    then have k: "k = n" using Cons.prems(1) by simp
    have "map_of (st_fs (mg_store ?m1)) (entry_at (st_root (mg_store m)) n) = None"
      using rename_entry_gone [OF assms(1) assms(3)] c1 rc(1) k by simp
    then show ?thesis
      using rename_loop_node [of env False target ns ?m1 n] Cons.prems(4) by auto
  qed
qed simp

section \<open>Both migrations\<close>

text \<open>
  \<open>wanted\<close> is what the walk collects; a wanted name has a target, and a target is not wanted. Such a
  migration, when it reports no error and no conflict, leaves nothing wanted.
\<close>

locale migration_plan =
  fixes target :: "string \<Rightarrow> rename_target" and wanted :: "string \<Rightarrow> bool"
  assumes wanted_target: "wanted n \<Longrightarrow> target n \<noteq> Leave"
    and target_done: "wanted n \<Longrightarrow> target n = Rename_To t \<Longrightarrow> \<not> wanted t"
begin

lemma loop_finishes:
  assumes "reads_ok env" and "store_wf s"
    and "m = rename_loop env False target ns \<lparr>mg_store = s, mg_renamed = 0, mg_conflicts = 0, mg_rc = 0\<rparr>"
    and "mg_rc m = 0" and "mg_conflicts m = 0"
    and ns: "\<And>n. n \<in> set ns \<longleftrightarrow> visible env s n \<and> wanted n"
    and "entry_digest (mg_store m) n \<noteq> None" and v: "store_name_is_valid n"
  shows "\<not> wanted n"
proof
  assume w: "wanted n"
  let ?m0 = "\<lparr>mg_store = s, mg_renamed = 0, mg_conflicts = 0, mg_rc = 0\<rparr>"
  have root: "st_root (mg_store m) = st_root s" by (simp add: assms(3))
  obtain d where d: "entry_digest (mg_store m) n = Some d" using assms(7) by blast
  then have node: "map_of (st_fs (mg_store m)) (entry_at (st_root s) n) \<noteq> None"
    using entry_digest_link root by fastforce
  have notarget: "\<nexists>k. k \<in> set ns \<and> target k = Rename_To n" using target_done ns w by blast
  then have "map_of (st_fs (mg_store m)) (entry_at (st_root s) n) = map_of (st_fs s) (entry_at (st_root s) n)"
    using rename_loop_node [of env False target ns ?m0 n] node assms(3) by auto
  then have "entry_digest s n = Some d" using d root by (simp add: entry_digest_def)
  then have "visible env s n"
    using raw_digest_eq [OF assms(1,2) valid_length [OF v]] v by (simp add: visible_def)
  then have "n \<in> set ns" using ns w by blast
  moreover obtain t where t: "target n = Rename_To t"
  proof (cases "target n")
    case Too_Long
    have "mg_rc (rename_loop env False target ks k0) \<noteq> 0" if "n \<in> set ks" for ks k0
      using that
    proof (induction ks arbitrary: k0)
      case (Cons k ks)
      then show ?case
        using rename_loop_counts [of "rename_entry env False k (target k) k0" env False target ks] Too_Long
        by (cases "k = n") (auto simp: rename_entry_def)
    qed simp
    then show thesis using assms(3,4) \<open>n \<in> set ns\<close> by blast
  qed (use that wanted_target w in auto)
  ultimately have "map_of (st_fs (mg_store m)) (entry_at (st_root s) n) = None"
    using rename_loop_gone [of env n ns target t ?m0] t assms(1,3-5) notarget by simp
  then show False using node by simp
qed

end

definition noncanonical_name :: "string \<Rightarrow> bool" where
  "noncanonical_name n \<longleftrightarrow> (\<exists>c. store_canonical_name n STORE_NAME_MAX = Some (1, c))"

interpretation canonicalize: migration_plan canonicalize_target noncanonical_name
proof unfold_locales
  fix n t
  show "noncanonical_name n \<Longrightarrow> canonicalize_target n \<noteq> Leave"
    by (auto simp: noncanonical_name_def canonicalize_target_def)
  assume "canonicalize_target n = Rename_To t"
  then have "store_canonical_name n STORE_NAME_MAX = Some (1, t)"
    by (auto simp: canonicalize_target_def split: option.splits prod.splits nat.splits)
  then show "\<not> noncanonical_name t" using canonical_closed by (auto simp: noncanonical_name_def)
qed

definition archless_name :: "string \<Rightarrow> bool" where
  "archless_name n \<longleftrightarrow> store_name_is_valid n \<and> store_arch_of n = None"

lemma set_arch_target_arch:
  assumes "archless_name n" and a: "arch \<in> set g_arches" and t: "set_arch_target arch n = Rename_To t"
  shows "store_arch_of t = Some arch"
proof -
  have "store_suffix_of n \<noteq> None" using assms(1) by (simp add: archless_name_def store_name_is_valid_iff)
  then obtain base ap ext where p: "name_parts base ap ext" "n = base @ ap @ ext" by (rule name_parts_exist)
  have "ap = []" using assms(1) name_parts_arch_of [OF p(1)] p(2) by (auto simp: archless_name_def split: if_splits)
  then have "t = base @ (CHR ''-'' # arch) @ ext"
    using t p name_parts_stem [OF p(1)] name_parts_suffix [OF p(1)]
    by (auto simp: set_arch_target_def Let_def split: if_splits)
  moreover have "name_parts base (CHR ''-'' # arch) ext" using p(1) a by (auto simp: name_parts_def)
  ultimately show ?thesis using name_parts_arch_of by fastforce
qed

text \<open>The plan for a known architecture.\<close>

lemma set_arch_plan: "arch \<in> set g_arches \<Longrightarrow> migration_plan (set_arch_target arch) archless_name"
proof unfold_locales
  fix n t assume a: "arch \<in> set g_arches" and n: "archless_name n"
  show "set_arch_target arch n \<noteq> Leave" by (simp add: set_arch_target_def Let_def)
  show "\<not> archless_name t" if "set_arch_target arch n = Rename_To t"
    using set_arch_target_arch [OF n a that] by (simp add: archless_name_def)
qed

lemma canonicalize_finishes:
  assumes "reads_ok env" and "store_wf s" and "store_canonicalize env s False = (0, Some (r, 0), s')"
    and "entry_digest s' n \<noteq> None" and v: "store_name_is_valid n"
  shows "canon_of n = Some n \<or> canon_of n = None"
proof -
  obtain st where w: "store_walk env s (collect_noncanonical env) \<lparr>rs_slots = [], rs_cap = 0\<rparr> = (0, st)"
    and m: "mg_rc (rename_loop env False canonicalize_target (rs_slots st)
        \<lparr>mg_store = s, mg_renamed = 0, mg_conflicts = 0, mg_rc = 0\<rparr>) = 0"
      "mg_conflicts (rename_loop env False canonicalize_target (rs_slots st)
        \<lparr>mg_store = s, mg_renamed = 0, mg_conflicts = 0, mg_rc = 0\<rparr>) = 0"
      "mg_store (rename_loop env False canonicalize_target (rs_slots st)
        \<lparr>mg_store = s, mg_renamed = 0, mg_conflicts = 0, mg_rc = 0\<rparr>) = s'"
    using assms(3) by (auto simp: store_canonicalize_def Let_def split: prod.splits if_splits)
  obtain names where names: "sys_opendir env (st_fs s) (st_root s @ ''/'' @ STORE_DIR) = Inr names"
    and slots: "rs_slots st = List.map_filter (noncanonical.kept env s) names"
    using noncanonical.store_walk_collects [OF w] by auto
  have dir: "names = dir_entries (st_fs s) (st_root s @ ''/packages'')"
    using wf_opendir [OF assms(2) _ names] by (simp add: store_dirs_def STORE_DIR_def)
  have kept: "noncanonical.kept env s k = Some x \<longleftrightarrow> visible env s k \<and> noncanonical_name k \<and> x = k" for k x
  proof -
    have "snprintf STORE_NAME_MAX k = k" if "store_name_is_valid k"
      using valid_length [OF that] by (simp add: snprintf_def STORE_NAME_MAX_def)
    then show ?thesis
      by (auto simp: noncanonical.kept_def noncanonical_name_def visible_def split: option.splits prod.splits nat.splits)
  qed
  have ns: "k \<in> set (rs_slots st) \<longleftrightarrow> visible env s k \<and> noncanonical_name k" for k
    unfolding slots map_filter_iff kept dir using visible_in_dir [of env s k] by blast
  have "\<not> noncanonical_name n"
    by (rule canonicalize.loop_finishes [OF assms(1,2) refl _ _ ns]) (use m assms(4) v in simp_all)
  then show ?thesis
  proof (cases "store_canonical_name n STORE_NAME_MAX")
    case (Some kc)
    then obtain k c where kc: "store_canonical_name n STORE_NAME_MAX = Some (k, c)" by (cases kc) auto
    then have "k = (if c \<noteq> n then 1 else 0)" by (rule canonical_cases) simp
    then show ?thesis using kc \<open>\<not> noncanonical_name n\<close> by (auto simp: noncanonical_name_def canon_of_def split: if_splits)
  qed (simp add: canon_of_def)
qed

lemma set_arch_finishes:
  assumes "reads_ok env" and "store_wf s" and "store_set_arch env s arch False = (0, Some (r, 0), s')"
    and "entry_digest s' n \<noteq> None" and v: "store_name_is_valid n"
  shows "store_arch_of n \<noteq> None"
proof -
  have a: "arch \<in> set g_arches" using assms(3) by (auto simp: store_set_arch_def split: if_splits)
  obtain st where w: "store_walk env s (collect_archless env) \<lparr>rs_slots = [], rs_cap = 0\<rparr> = (0, st)"
    and m: "mg_rc (rename_loop env False (set_arch_target arch) (rs_slots st)
        \<lparr>mg_store = s, mg_renamed = 0, mg_conflicts = 0, mg_rc = 0\<rparr>) = 0"
      "mg_conflicts (rename_loop env False (set_arch_target arch) (rs_slots st)
        \<lparr>mg_store = s, mg_renamed = 0, mg_conflicts = 0, mg_rc = 0\<rparr>) = 0"
      "mg_store (rename_loop env False (set_arch_target arch) (rs_slots st)
        \<lparr>mg_store = s, mg_renamed = 0, mg_conflicts = 0, mg_rc = 0\<rparr>) = s'"
    using assms(3) a by (auto simp: store_set_arch_def Let_def split: prod.splits if_splits)
  obtain names where names: "sys_opendir env (st_fs s) (st_root s @ ''/'' @ STORE_DIR) = Inr names"
    and slots: "rs_slots st = List.map_filter (archless.kept env s) names"
    using archless.store_walk_collects [OF w] by auto
  have dir: "names = dir_entries (st_fs s) (st_root s @ ''/packages'')"
    using wf_opendir [OF assms(2) _ names] by (simp add: store_dirs_def STORE_DIR_def)
  have kept: "archless.kept env s k = Some x \<longleftrightarrow> visible env s k \<and> archless_name k \<and> x = k" for k x
  proof -
    have "snprintf STORE_NAME_MAX k = k" if "store_name_is_valid k"
      using valid_length [OF that] by (simp add: snprintf_def STORE_NAME_MAX_def)
    then show ?thesis unfolding archless.kept_def by (auto simp: archless_name_def visible_def)
  qed
  have ns: "k \<in> set (rs_slots st) \<longleftrightarrow> visible env s k \<and> archless_name k" for k
    unfolding slots map_filter_iff kept dir using visible_in_dir [of env s k] by blast
  have "\<not> archless_name n"
    by (rule migration_plan.loop_finishes [OF set_arch_plan [OF a] assms(1,2) refl _ _ ns])
      (use m assms(4) v in simp_all)
  then show ?thesis using v by (simp add: archless_name_def)
qed

end
