(* ===== verification/Store_Props.thy ===== *)
theory Store_Props
  imports Store_Migrate
begin

text \<open>
  The properties of the store on disk, from resolving one name to the invariant of every store the
  operations can reach, each with a concrete store where its hypotheses hold.
\<close>

section \<open>A concrete store\<close>

definition calm_env :: env where
  "calm_env = \<lparr>ev_fails = (\<lambda>_ _. False), ev_nomem = (\<lambda>_. False), ev_pid = 7, ev_now = 100, ev_dirsize = 4096\<rparr>"

definition digest_a :: string where
  "digest_a = replicate 64 (CHR ''a'')"

definition digest_b :: string where
  "digest_b = replicate 64 (CHR ''b'')"

text \<open>One published artifact, a second blob nobody points at, and an upload in progress.\<close>

definition sample_fs :: fs where
  "sample_fs =
     [(''/s'', Dir), (''/s/blobs'', Dir), (''/s/packages'', Dir), (''/s/tmp'', Dir),
      (''/s/blobs/'' @ digest_a, Reg ''x'' 292 1), (''/s/blobs/'' @ digest_b, Reg ''yy'' 292 2),
      (''/s/packages/z-1-1.iso'', Lnk (''../blobs/'' @ digest_a) 5)]"

definition sample_store :: store where
  "sample_store = \<lparr>st_root = ''/s'', st_fs = sample_fs, st_tmp = 0\<rparr>"

lemma reads_ok_calm: "reads_ok calm_env"
  by (simp add: reads_ok_def calm_env_def)

section \<open>Resolving\<close>

text \<open>
  C20. A bare name is served only when its bytes are not in doubt: for a name that carries no architecture
  and whose entry has a path that fits, the candidates are the entry of the bare canonical name
  and those of the name with each known architecture, as far as they exist and can be read. When
  the bare entry is there and cannot be read, the answer is an I/O error; otherwise, with no
  candidate the name is not found, with all of them carrying the same digest it resolves to that digest
  under the first candidate's name, and with two different digests it is ambiguous. The header of the
  store asks for exactly one candidate and the decision record for a 409 whenever there are two: the
  code takes candidates that agree for one.
\<close>

theorem resolve_bare_name:
  assumes "canon_of name = Some c" and "store_arch_of c = None"
    and "raw_entry_path (st_root s) c = Some p"
  shows "store_resolve_as env s name STORE_SHA256_MAX nsz =
    (if resolve_path env (st_fs s) p STORE_SHA256_MAX = Inl STORE_ERR_IO then Inl STORE_ERR_IO
     else case List.map_filter (\<lambda>n. map_option (Pair n) (raw_digest env s n)) (c # map (arch_probe c) g_arches) of
       [] \<Rightarrow> Inl STORE_ERR_NOT_FOUND
     | (n, d) # rest \<Rightarrow>
         if \<forall>(n', d') \<in> set rest. d' = d then Inr (d, snprintf nsz n) else Inl STORE_ERR_AMBIGUOUS)"
proof (cases "resolve_path env (st_fs s) p STORE_SHA256_MAX = Inl STORE_ERR_IO")
  case True
  obtain k where "store_canonical_name name STORE_NAME_MAX = Some (k, c)" using assms(1) by (auto simp: canon_of_iff)
  moreover have "store_name_is_valid name" using canon_of_valid [OF assms(1)] by simp
  ultimately show ?thesis using True assms(2,3) by (simp add: store_resolve_as_def)
next
  case False
  then show ?thesis
    using resolve_as_bare [OF assms False, of nsz]
    by (simp add: choose_candidate_def candidates_def spellings_def)
qed

theorem resolve_bare_name_witness:
  "store_resolve_as calm_env sample_store ''z-1.iso'' STORE_SHA256_MAX 64 =
    (case List.map_filter (\<lambda>n. map_option (Pair n) (raw_digest calm_env sample_store n))
        (''z-1-1.iso'' # map (arch_probe ''z-1-1.iso'') g_arches) of
       [] \<Rightarrow> Inl STORE_ERR_NOT_FOUND
     | (n, d) # rest \<Rightarrow>
         if \<forall>(n', d') \<in> set rest. d' = d then Inr (d, snprintf 64 n) else Inl STORE_ERR_AMBIGUOUS)"
proof -
  have c: "canon_of ''z-1.iso'' = Some ''z-1-1.iso''" "store_arch_of ''z-1-1.iso'' = None" by code_simp+
  have p: "raw_entry_path (st_root sample_store) ''z-1-1.iso'' = Some ''/s/packages/z-1-1.iso''" by code_simp
  have "resolve_path calm_env (st_fs sample_store) ''/s/packages/z-1-1.iso'' STORE_SHA256_MAX = Inr digest_a"
    by code_simp
  then show ?thesis using resolve_bare_name [OF c p, of calm_env 64] by simp
qed

text \<open>
  A name that carries an architecture means that architecture and no other: it resolves exactly
  when its own entry does, to that entry's digest and under its canonical name, whatever other
  entries the store holds.
\<close>

theorem resolve_named_arch:
  assumes "canon_of name = Some c" and "store_arch_of name \<noteq> None"
    and "raw_entry_path (st_root s) c = Some p"
  shows "store_resolve_as env s name STORE_SHA256_MAX nsz =
    map_sum id (\<lambda>d. (d, snprintf nsz c)) (resolve_path env (st_fs s) p STORE_SHA256_MAX)"
proof (rule resolve_as_arch [OF assms(1) _ assms(3)])
  show "store_arch_of c \<noteq> None"
    using assms(1,2) canonical_preserves_parts [of name STORE_NAME_MAX] by (auto simp: canon_of_def)
qed

theorem resolve_named_arch_witness:
  "store_resolve_as calm_env sample_store ''z-1-x86_64.iso'' STORE_SHA256_MAX 64 =
    map_sum id (\<lambda>d. (d, snprintf 64 ''z-1-1-x86_64.iso''))
      (resolve_path calm_env (st_fs sample_store) ''/s/packages/z-1-1-x86_64.iso'' STORE_SHA256_MAX)"
proof (rule resolve_named_arch)
  show "canon_of ''z-1-x86_64.iso'' = Some ''z-1-1-x86_64.iso''" by code_simp
  show "store_arch_of ''z-1-x86_64.iso'' \<noteq> None" by code_simp
  show "raw_entry_path (st_root sample_store) ''z-1-1-x86_64.iso'' = Some ''/s/packages/z-1-1-x86_64.iso''"
    by code_simp
qed

text \<open>
  Aliases resolve alike: a name and its canonical form give the same result, digest, name
  and error included, in every store and environment.
\<close>

theorem resolve_alias:
  assumes "canon_of name = Some c"
  shows "store_resolve_as env s name dsz nsz = store_resolve_as env s c dsz nsz"
proof -
  have c: "canon_of c = Some c" by (rule artifact.canon_fixed [OF assms])
  have v: "store_name_is_valid name" "store_name_is_valid c" using canon_of_valid assms by blast+
  obtain k k' where "store_canonical_name name STORE_NAME_MAX = Some (k, c)"
    "store_canonical_name c STORE_NAME_MAX = Some (k', c)"
    using assms c by (auto simp: canon_of_iff)
  then show ?thesis using v by (simp add: store_resolve_as_def)
qed

theorem resolve_alias_witness:
  "store_resolve_as calm_env sample_store ''z-1.iso'' 65 64 = store_resolve_as calm_env sample_store ''z-1-1.iso'' 65 64"
proof (rule resolve_alias)
  show "canon_of ''z-1.iso'' = Some ''z-1-1.iso''" by code_simp
qed

section \<open>Publishing\<close>

text \<open>
  C17. What is published resolves: when \<^verbatim>\<open>store_publish\<close> reports success, resolving the same name in the
  store it leaves gives the digest that was published, for names with and without an
  architecture, for a first publication and a repeated one.
\<close>

theorem publish_then_resolve:
  assumes "store_publish env s name digest = (STORE_OK, s')"
  shows "store_resolve env s' name STORE_SHA256_MAX = Inr digest"
  by (rule publish_resolve [OF assms])

theorem publish_then_resolve_witness:
  "store_resolve calm_env (snd (store_publish calm_env sample_store ''q-2.tar.gz'' digest_b))
     ''q-2.tar.gz'' STORE_SHA256_MAX = Inr digest_b"
proof (rule publish_then_resolve)
  have "fst (store_publish calm_env sample_store ''q-2.tar.gz'' digest_b) = STORE_OK" by code_simp
  then show "store_publish calm_env sample_store ''q-2.tar.gz'' digest_b =
      (STORE_OK, snd (store_publish calm_env sample_store ''q-2.tar.gz'' digest_b))"
    by (metis prod.collapse)
qed

text \<open>
  C18. A published name is immutable: whatever \<^verbatim>\<open>store_publish\<close> is called with and whatever fails, every
  entry keeps its digest and every blob its node; at most one entry is added, that of the
  canonical name, which carried no digest before and now carries the published one.
\<close>

theorem publish_immutable:
  assumes "store_publish env s name digest = (e, s')"
  shows "(\<forall>n d. entry_digest s n = Some d \<longrightarrow> entry_digest s' n = Some d)
    \<and> (\<forall>d. map_of (st_fs s') (blob_at (st_root s) d) = map_of (st_fs s) (blob_at (st_root s) d))
    \<and> (\<forall>n. entry_digest s' n \<noteq> entry_digest s n \<longrightarrow>
         e = STORE_OK \<and> canon_of name = Some n \<and> entry_digest s n = None \<and> entry_digest s' n = Some digest)"
  using publish_entries [OF assms] publish_blobs [OF assms] by (auto split: if_splits)

theorem publish_immutable_witness:
  "entry_digest (snd (store_publish calm_env sample_store ''z-1.iso'' digest_b)) ''z-1-1.iso'' = Some digest_a"
proof -
  obtain e s' where run: "store_publish calm_env sample_store ''z-1.iso'' digest_b = (e, s')" by (metis prod.exhaust)
  have "entry_digest sample_store ''z-1-1.iso'' = Some digest_a" by code_simp
  then show ?thesis using publish_immutable [OF run] run by simp
qed

text \<open>
  The refusals of \<^verbatim>\<open>store_publish\<close>: on a valid name and a digest whose blob exists, a name that
  resolves to another digest is a conflict, one that resolves to this digest is success without
  any change, an ambiguous or unreadable name reports its own error, and in all these cases the
  store is left exactly as it was.
\<close>

theorem publish_refusals:
  assumes "store_name_is_valid name" and "store_digest_is_valid digest"
    and "store_blob_exists env s digest \<noteq> None"
    and "store_resolve env s name STORE_SHA256_MAX \<noteq> Inl STORE_ERR_NOT_FOUND"
  shows "store_publish env s name digest =
    (case store_resolve env s name STORE_SHA256_MAX of
       Inr d \<Rightarrow> (if d = digest then STORE_OK else STORE_ERR_CONFLICT, s)
     | Inl e \<Rightarrow> (e, s))"
  using assms by (auto simp: store_publish_def split: sum.splits)

theorem publish_refusals_witness:
  "store_publish calm_env sample_store ''z-1.iso'' digest_b = (STORE_ERR_CONFLICT, sample_store)"
proof -
  have "store_name_is_valid ''z-1.iso''" and "store_digest_is_valid digest_b"
    and "store_blob_exists calm_env sample_store digest_b \<noteq> None"
    and r: "store_resolve calm_env sample_store ''z-1.iso'' STORE_SHA256_MAX = Inr digest_a"
    by code_simp+
  from publish_refusals [OF this(1-3)] r show ?thesis by (simp add: digest_a_def digest_b_def)
qed

text \<open>
  A published link leads to its blob wherever the tree is: the relative target that
  \<^verbatim>\<open>store_publish\<close> writes, followed from the entry of any valid name, is the path of the blob, for
  every root.
\<close>

theorem published_link_reaches_blob:
  assumes "store_name_is_valid n"
    and "map_of fs (entry_at root n) = Some (Lnk (''../blobs/'' @ d) m)"
    and "map_of fs (blob_at root d) = Some (Reg b k t)"
  shows "namei fs (entry_at root n) = Some (blob_at root d)"
proof -
  have ns: "CHR ''/'' \<notin> set n" using valid_not_dots [OF assms(1)] by blast
  have "link_path (entry_at root n) (''../blobs/'' @ d) = blob_at root d" by (rule published_target_path [OF ns])
  then show ?thesis using namei_link [OF assms(2)] assms(3) by simp
qed

theorem published_link_reaches_blob_witness:
  "namei sample_fs (entry_at ''/s'' ''z-1-1.iso'') = Some (blob_at ''/s'' digest_a)"
proof (rule published_link_reaches_blob)
  show "store_name_is_valid ''z-1-1.iso''" by code_simp
  show "map_of sample_fs (entry_at ''/s'' ''z-1-1.iso'') = Some (Lnk (''../blobs/'' @ digest_a) 5)" by code_simp
  show "map_of sample_fs (blob_at ''/s'' digest_a) = Some (Reg ''x'' 292 1)" by code_simp
qed

section \<open>Unpublishing\<close>

text \<open>
  Unpublishing takes the signature with the artifact and nothing else: on success the entry of the
  canonical name is gone and so is the entry of its signature, the flag says whether there was
  one, and every other path of the file system is as before; without success the artifact's entry is
  still there, and only the signature's can be gone.
\<close>

theorem unpublish_takes_signature:
  assumes "store_unpublish env s name = (e, removed, s')" and "canon_of name = Some c"
  shows "(e = STORE_OK \<longrightarrow>
      map_of (st_fs s') (entry_at (st_root s) c) = None
      \<and> (\<forall>sp. sig_entry s name = Some sp \<longrightarrow> map_of (st_fs s') sp = None)
      \<and> (removed \<longleftrightarrow> (\<exists>sp. sig_entry s name = Some sp \<and> map_of (st_fs s) sp \<noteq> None)))
    \<and> (\<forall>q. q \<noteq> entry_at (st_root s) c \<longrightarrow> sig_entry s name \<noteq> Some q \<longrightarrow>
         map_of (st_fs s') q = map_of (st_fs s) q)
    \<and> (e \<noteq> STORE_OK \<longrightarrow> sig_entry s name \<noteq> Some (entry_at (st_root s) c) \<longrightarrow>
         map_of (st_fs s') (entry_at (st_root s) c) = map_of (st_fs s) (entry_at (st_root s) c))"
  using assms(1) by (cases rule: unpublish_outcome) (use assms(2) in auto)

theorem unpublish_takes_signature_witness:
  "map_of (st_fs (snd (snd (store_unpublish calm_env sample_store ''z-1.iso'')))) (entry_at ''/s'' ''z-1-1.iso'') = None"
proof -
  have ok: "fst (store_unpublish calm_env sample_store ''z-1.iso'') = STORE_OK" by code_simp
  have c: "canon_of ''z-1.iso'' = Some ''z-1-1.iso''" by code_simp
  obtain r s' where run: "store_unpublish calm_env sample_store ''z-1.iso'' = (STORE_OK, r, s')"
    using ok by (metis prod.collapse)
  have "map_of (st_fs s') (entry_at (st_root sample_store) ''z-1-1.iso'') = None"
    using unpublish_takes_signature [OF run c] by blast
  moreover have "st_root sample_store = ''/s''" by (simp add: sample_store_def)
  ultimately show ?thesis using run by simp
qed

section \<open>Collecting garbage\<close>

lemma sample_wf: "store_wf sample_store"
proof -
  have blob: "map_of sample_fs (blob_at ''/s'' d) =
      (if d = digest_a then Some (Reg ''x'' 292 1) else if d = digest_b then Some (Reg ''yy'' 292 2) else None)" for d
    by (simp add: sample_fs_def blob_at_def)
  have "fs_ok sample_fs" by code_simp
  moreover have "list_all (\<lambda>d. map_of sample_fs d = Some Dir) (store_dirs sample_store)" by code_simp
  ultimately show ?thesis
    by (simp add: store_wf_def sample_store_def blob_bytes_def blob PATH_MAX_def)
qed



text \<open>
  What a failing read costs: when the one \<^verbatim>\<open>readlink\<close> of a published entry fails while the collector
  walks the store, the collector succeeds, the name stays, and its blob is gone.
\<close>

definition unread_env :: env where
  "unread_env = calm_env\<lparr>ev_fails := (\<lambda>c p. c = SYS_readlink)\<rparr>"

lemma unread_name_loses_blob:
  "store_gc unread_env sample_store False = (2, 3, snd (snd (store_gc unread_env sample_store False)))
   \<and> entry_digest (snd (snd (store_gc unread_env sample_store False))) ''z-1-1.iso'' = Some digest_a
   \<and> blob_bytes (snd (snd (store_gc unread_env sample_store False))) digest_a = None"
proof (intro conjI)
  have "fst (store_gc unread_env sample_store False) = 2 \<and> fst (snd (store_gc unread_env sample_store False)) = 3"
    by code_simp
  then show "store_gc unread_env sample_store False = (2, 3, snd (snd (store_gc unread_env sample_store False)))"
    by (metis prod.collapse)
qed code_simp+

text \<open>
  The collector frees everything else: when \<^verbatim>\<open>store_gc\<close> returns a count and the blob's removal does
  not fail, a blob that no visible entry points at is gone afterwards.
\<close>

theorem gc_frees_dead_blobs:
  assumes "store_wf s" and "store_gc env s False = (k, freed, s')" and "0 \<le> k"
    and "store_digest_is_valid d" and "\<nexists>n. store_name_is_valid n \<and> entry_digest s n = Some d"
    and "\<not> ev_fails env SYS_unlink (blob_at (st_root s) d)"
  shows "map_of (st_fs s') (blob_at (st_root s) d) = None"
proof -
  have "d \<notin> live_digests env s"
    using assms(5) raw_digest_entry by (auto simp: live_digests_def visible_def)
  then show ?thesis by (rule gc_complete [OF assms(1-4) _ assms(6)])
qed

theorem gc_frees_dead_blobs_witness:
  "map_of (st_fs (snd (snd (store_gc calm_env sample_store False)))) (blob_at (st_root sample_store) digest_b) = None"
proof -
  have k: "fst (store_gc calm_env sample_store False) = 1" by code_simp
  obtain f s' where run: "store_gc calm_env sample_store False = (1, f, s')" using k by (metis prod.collapse)
  have e: "entry_digest sample_store n = (if n = ''z-1-1.iso'' then Some digest_a else None)" for n
  proof -
    have "map_of sample_fs (entry_at ''/s'' n) =
        (if n = ''z-1-1.iso'' then Some (Lnk (''../blobs/'' @ digest_a) 5) else None)"
      by (simp add: sample_fs_def entry_at_def STORE_DIR_def)
    moreover have "link_digest (Some (Lnk (''../blobs/'' @ digest_a) 5)) = Some digest_a"
      by (rule published_link_digest) code_simp
    ultimately show ?thesis by (simp add: entry_digest_def sample_store_def del: link_digest.simps(1))
  qed
  have v: "store_digest_is_valid digest_b" by code_simp
  have "map_of (st_fs s') (blob_at (st_root sample_store) digest_b) = None"
    by (rule gc_frees_dead_blobs [OF sample_wf run _ v])
      (simp_all add: e calm_env_def digest_a_def digest_b_def)
  then show ?thesis using run by simp
qed

section \<open>Migrations\<close>



text \<open>
  The entry a failing \<^verbatim>\<open>lstat\<close> costs: two artifacts, one named without an architecture; stamping the
  store while \<^verbatim>\<open>lstat\<close> fails overwrites the other one and reports success.
\<close>

definition crowded_store :: store where
  "crowded_store = sample_store\<lparr>st_fs :=
     AList.update ''/s/packages/z-1-1-x86_64.iso'' (Lnk (''../blobs/'' @ digest_b) 6) sample_fs\<rparr>"

definition blind_env :: env where
  "blind_env = calm_env\<lparr>ev_fails := (\<lambda>c p. c = SYS_lstat)\<rparr>"

lemma blind_migration_overwrites:
  "(case store_set_arch blind_env crowded_store ''x86_64'' False of
      (rc, out, s') \<Rightarrow> (rc, out, entry_digest s' ''z-1-1-x86_64.iso'', entry_digest s' ''z-1-1.iso''))
   = (0, Some (1, 0), Some digest_a, None)"
  by code_simp

lemma crowded_entry: "entry_digest crowded_store ''z-1-1-x86_64.iso'' = Some digest_b"
  by code_simp

text \<open>
  A migration that reports neither an error nor a conflict is complete: afterwards every entry with
  a valid name is spelled canonically (or is too long to have a canonical spelling) after
  \<^verbatim>\<open>store_canonicalize\<close>, and carries an architecture after \<^verbatim>\<open>store_set_arch\<close>.
\<close>

theorem migration_complete:
  assumes "reads_ok env" and "store_wf s" and "store_name_is_valid n" and "entry_digest s' n \<noteq> None"
  shows "(store_canonicalize env s False = (0, Some (r, 0), s') \<longrightarrow> canon_of n = Some n \<or> canon_of n = None)
    \<and> (store_set_arch env s arch False = (0, Some (r, 0), s') \<longrightarrow> store_arch_of n \<noteq> None)"
  by (intro conjI impI) (rule canonicalize_finishes [OF assms(1,2) _ assms(4,3)], assumption,
      rule set_arch_finishes [OF assms(1,2) _ assms(4,3)], assumption)

theorem migration_complete_witness:
  "entry_digest (snd (snd (store_set_arch calm_env sample_store ''x86_64'' False))) ''z-1-1-x86_64.iso'' = Some digest_a
   \<and> store_arch_of ''z-1-1-x86_64.iso'' \<noteq> None"
proof -
  have v: "store_name_is_valid ''z-1-1-x86_64.iso''" by code_simp
  have r: "fst (store_set_arch calm_env sample_store ''x86_64'' False) = 0"
    "fst (snd (store_set_arch calm_env sample_store ''x86_64'' False)) = Some (1, 0)" by code_simp+
  obtain s' where run: "store_set_arch calm_env sample_store ''x86_64'' False = (0, Some (1, 0), s')"
    using r by (metis prod.collapse)
  have d: "entry_digest (snd (snd (store_set_arch calm_env sample_store ''x86_64'' False))) ''z-1-1-x86_64.iso'' = Some digest_a"
    by code_simp
  then have "entry_digest s' ''z-1-1-x86_64.iso'' \<noteq> None" by (simp add: run)
  from migration_complete [OF reads_ok_calm sample_wf v this] run have "store_arch_of ''z-1-1-x86_64.iso'' \<noteq> None"
    by blast
  then show ?thesis using d by simp
qed

section \<open>Every reachable store\<close>

text \<open>
  The invariant of the store: in every store reached from a fresh root by any sequence of
  publications, unpublications, uploads, adoptions, files moved in by others, collections and
  migrations, under any failures, a published entry has a valid name and the bytes of every blob
  hash to the digest they are stored under; and when the collections could read the entries, the
  blob of every published entry is present.
\<close>

theorem reachable_store_sound:
  assumes "store_reachable sha care s"
  shows "(\<forall>n d. entry_digest s n = Some d \<longrightarrow>
      store_name_is_valid n \<and> (care \<longrightarrow> (\<exists>b. blob_bytes s d = Some b \<and> sha b = d)))
    \<and> (\<forall>d b. store_digest_is_valid d \<longrightarrow> blob_bytes s d = Some b \<longrightarrow> sha b = d)"
proof -
  have inv: "store_inv sha care s" by (rule reachable_inv [OF assms])
  have "sha b = d" if "store_digest_is_valid d" "blob_bytes s d = Some b" for d b
    using inv that by (auto simp: store_inv_def blob_bytes_def)
  moreover have "\<exists>b. blob_bytes s d = Some b \<and> sha b = d" if care "entry_digest s n = Some d" for n d
    using inv_blob [of sha s n d] inv that by (metis (full_types))
  ultimately show ?thesis using inv_name [OF inv] by blast
qed

text \<open>A run: initialise, upload, adopt, publish.\<close>

definition boot_store :: store where
  "boot_store = snd (store_init calm_env ''/s'' \<lparr>st_root = [], st_fs = [], st_tmp = 0\<rparr>)"

definition upload_store :: store where
  "upload_store = boot_store\<lparr>st_fs := AList.update ''/s/tmp/u'' (Reg ''x'' 384 1) (st_fs boot_store)\<rparr>"

definition adopted_store :: store where
  "adopted_store = snd (store_blob_adopt calm_env upload_store ''/s/tmp/u'' digest_a)"

definition published_store :: store where
  "published_store = snd (store_publish calm_env adopted_store ''z-1.iso'' digest_a)"

definition flat_hash :: "bytes \<Rightarrow> string" where
  "flat_hash b = digest_a"

lemma published_reachable: "store_reachable flat_hash care published_store"
proof -
  have "fresh_root [] ''/s''" by (simp add: fresh_root_def fs_ok_def)
  moreover have "length ''/s'' + 400 < PATH_MAX" by (simp add: PATH_MAX_def)
  moreover have "store_init calm_env ''/s'' \<lparr>st_root = [], st_fs = [], st_tmp = 0\<rparr> = (0, boot_store)"
  proof -
    have "fst (store_init calm_env ''/s'' \<lparr>st_root = [], st_fs = [], st_tmp = 0\<rparr>) = 0" by code_simp
    then show ?thesis unfolding boot_store_def by (metis prod.collapse)
  qed
  ultimately have boot: "store_reachable flat_hash care boot_store" by (rule reach_init)
  have area: "tmp_area ''/s'' ''/s/tmp/u''" unfolding tmp_area_def by (rule exI [of _ "''u''"]) simp
  have roots: "st_root boot_store = ''/s''" "st_root upload_store = ''/s''" by code_simp+
  have up: "store_reachable flat_hash care upload_store"
    unfolding upload_store_def by (rule reach_step [OF boot step_tmp_write]) (simp add: roots area)
  have ad: "store_reachable flat_hash care adopted_store"
  proof (rule reach_step [OF up], rule step_adopt)
    show "staged_at upload_store ''/s/tmp/u''" by (simp add: staged_at_def roots area)
    show "map_of (st_fs upload_store) ''/s/tmp/u'' = Some (Reg ''x'' 384 1)" by code_simp
    show "store_blob_adopt calm_env upload_store ''/s/tmp/u'' (flat_hash ''x'') =
        (fst (store_blob_adopt calm_env upload_store ''/s/tmp/u'' digest_a), adopted_store)"
      by (simp add: adopted_store_def flat_hash_def)
  qed
  show ?thesis
    by (rule reach_step [OF ad], rule step_publish [of calm_env _ "''z-1.iso''" digest_a
          "fst (store_publish calm_env adopted_store ''z-1.iso'' digest_a)"]) (simp add: published_store_def)
qed

lemma published_entry: "entry_digest published_store ''z-1-1.iso'' = Some digest_a"
  by code_simp

theorem reachable_store_sound_witness:
  "store_name_is_valid ''z-1-1.iso'' \<and> (\<exists>b. blob_bytes published_store digest_a = Some b \<and> flat_hash b = digest_a)"
  using reachable_store_sound [OF published_reachable [of True]] published_entry by blast

text \<open>
  What is served is what was published: in a reachable store a name that resolves can be opened
  whenever \<^verbatim>\<open>open\<close> and \<^verbatim>\<open>fstat\<close> do not fail, and what is opened is the blob of the digest reported to
  the client, with the size reported and with bytes that hash to that digest.
\<close>

theorem open_serves_digest:
  assumes "store_reachable sha True s"
    and "store_resolve_as env s name STORE_SHA256_MAX nsz = Inr (d, nm)"
    and "\<not> ev_fails env SYS_open (blob_at (st_root s) d)" and "\<not> ev_fails env SYS_fstat (blob_at (st_root s) d)"
  shows "\<exists>b. store_open env s name nsz = Inr (blob_at (st_root s) d, int (length b), d, nm)
    \<and> blob_bytes s d = Some b \<and> sha b = d"
proof -
  have inv: "store_inv sha True s" by (rule reachable_inv [OF assms(1)])
  obtain n where n: "entry_digest s n = Some d" using resolve_as_entry [OF assms(2)] by blast
  obtain b where b: "blob_bytes s d = Some b" "sha b = d" by (rule inv_blob [OF inv n])
  then obtain m t where node: "map_of (st_fs s) (blob_at (st_root s) d) = Some (Reg b m t)"
    unfolding blob_bytes_def
    by (cases "map_of (st_fs s) (blob_at (st_root s) d)" rule: reg_bytes.cases) auto
  have p: "blob_path (st_root s) d = Some (blob_at (st_root s) d)"
    by (rule wf_blob_path [OF inv_wf [OF inv] entry_digest_valid [OF n]])
  have "namei (st_fs s) (blob_at (st_root s) d) = Some (blob_at (st_root s) d)"
    using node by (intro namei_plain) simp
  then show ?thesis
    using assms(2-4) b p node by (simp add: store_open_def sys_open_def node_size_def)
qed

theorem open_serves_digest_witness:
  "\<exists>b. store_open calm_env published_store ''z-1.iso'' 64 =
      Inr (blob_at (st_root published_store) digest_a, int (length b), digest_a, ''z-1-1.iso'')
    \<and> blob_bytes published_store digest_a = Some b \<and> flat_hash b = digest_a"
proof (rule open_serves_digest [OF published_reachable])
  show "store_resolve_as calm_env published_store ''z-1.iso'' STORE_SHA256_MAX 64 = Inr (digest_a, ''z-1-1.iso'')"
    by code_simp
qed (simp_all add: calm_env_def)



end
