(* ===== verification/C_Lib.thy ===== *)
theory C_Lib
  imports Posix
begin

text \<open>
  The rest of the C library the sources use: casts to \<open>int\<close>, decimal output of signed numbers,
  \<open>strtol\<close>, searches in buffers and strings, and case-insensitive comparison. The file system is in
  \<open>Posix\<close>, strings and comparators are in \<open>Cix_Prelude\<close>.
\<close>

section \<open>Integers\<close>

text \<open>The conversion of a wider integer to a 32-bit \<open>int\<close> or a 64-bit \<open>long\<close>: two's complement.\<close>

definition c_int :: "int \<Rightarrow> int" where
  "c_int x = (x + 2 ^ 31) mod 2 ^ 32 - 2 ^ 31"

definition LONG_MAX :: int where
  "LONG_MAX = 2 ^ 63 - 1"

definition LONG_MIN :: int where
  "LONG_MIN = - (2 ^ 63)"

text \<open>\<open>%d\<close>, \<open>%ld\<close>, \<open>%lld\<close>.\<close>

definition int_dec :: "int \<Rightarrow> string" where
  "int_dec i = (if i < 0 then CHR ''-'' # nat_dec (nat (- i)) else nat_dec (nat i))"

text \<open>The value of a run of decimal digits.\<close>

definition digit_val :: "char \<Rightarrow> int" where
  "digit_val c = int (byte c) - 48"

definition dec_val :: "string \<Rightarrow> int" where
  "dec_val ds = foldl (\<lambda>v c. 10 * v + digit_val c) 0 ds"

definition c_isspace :: "char \<Rightarrow> bool" where
  "c_isspace c \<longleftrightarrow> byte c = 32 \<or> 9 \<le> byte c \<and> byte c \<le> 13"

text \<open>
  \<open>strtol(s, &end, 10)\<close> on a 64-bit \<open>long\<close>: leading white space, an optional sign, digits. The result
  is the value clamped to the range, whether \<open>errno\<close> was set to \<open>ERANGE\<close>, and the number of
  characters consumed, 0 when there is no digit. \<open>strtoll\<close> is the same function.
\<close>

definition c_strtol :: "string \<Rightarrow> int \<times> bool \<times> nat" where
  "c_strtol s =
     (let ws = takeWhile c_isspace s;
          r = drop (length ws) s;
          sgn_len = (if c_at r 0 = CHR ''-'' \<or> c_at r 0 = CHR ''+'' then 1 else 0);
          ds = takeWhile c_isdigit (drop sgn_len r);
          v = (if c_at r 0 = CHR ''-'' then - dec_val ds else dec_val ds)
      in if ds = [] then (0, False, 0)
         else (max LONG_MIN (min LONG_MAX v), v < LONG_MIN \<or> LONG_MAX < v,
               length ws + sgn_len + length ds))"

section \<open>Searching\<close>

text \<open>\<open>memchr\<close> and \<open>strchr\<close>: the offset of the first occurrence.\<close>

fun find_char :: "char \<Rightarrow> string \<Rightarrow> nat option" where
  "find_char c [] = None"
| "find_char c (x # xs) = (if x = c then Some 0 else map_option Suc (find_char c xs))"

definition starts_with :: "string \<Rightarrow> string \<Rightarrow> bool" where
  "starts_with s t \<longleftrightarrow> take (length t) s = t"

text \<open>\<open>memmem\<close> and \<open>strstr\<close> with a needle that is not empty.\<close>

fun find_sub :: "string \<Rightarrow> string \<Rightarrow> nat option" where
  "find_sub needle [] = None"
| "find_sub needle (x # xs) =
     (if starts_with (x # xs) needle then Some 0 else map_option Suc (find_sub needle xs))"

text \<open>\<open>strrchr\<close>: the offset of the last occurrence.\<close>

definition find_last :: "char \<Rightarrow> string \<Rightarrow> nat option" where
  "find_last c s = map_option (\<lambda>i. length s - 1 - i) (find_char c (rev s))"

section \<open>Case-insensitive comparison\<close>

definition c_tolower :: "char \<Rightarrow> char" where
  "c_tolower c = (if 65 \<le> byte c \<and> byte c \<le> 90 then char_of (byte c + 32) else c)"

definition lower :: "string \<Rightarrow> string" where
  "lower s = map c_tolower s"

definition c_strcasecmp :: "string \<Rightarrow> string \<Rightarrow> int" where
  "c_strcasecmp s t = c_strcmp (lower s) (lower t)"

section \<open>Lemmas\<close>

lemma c_int_id [simp]: "- (2 ^ 31) \<le> x \<Longrightarrow> x < 2 ^ 31 \<Longrightarrow> c_int x = x"
  by (simp add: c_int_def)

lemma c_int_range: "- (2 ^ 31) \<le> c_int x \<and> c_int x < 2 ^ 31"
  by (simp add: c_int_def)

lemma c_strcasecmp_eq [simp]: "c_strcasecmp s t = 0 \<longleftrightarrow> lower s = lower t"
  by (simp add: c_strcasecmp_def)

lemma length_lower [simp]: "length (lower s) = length s"
  by (simp add: lower_def)

lemma find_char_None [simp]: "find_char c s = None \<longleftrightarrow> c \<notin> set s"
  by (induction s) auto

lemma find_char_Some: "find_char c s = Some i \<longleftrightarrow> (\<exists>u v. s = u @ c # v \<and> c \<notin> set u \<and> length u = i)"
proof (induction s arbitrary: i)
  case (Cons x s)
  show ?case
  proof (cases "x = c")
    case True
    then show ?thesis by (auto simp: Cons_eq_append_conv)
  next
    case False
    then have "find_char c (x # s) = Some i \<longleftrightarrow> (\<exists>j. find_char c s = Some j \<and> i = Suc j)"
      by auto
    also have "\<dots> \<longleftrightarrow> (\<exists>u v. s = u @ c # v \<and> c \<notin> set u \<and> Suc (length u) = i)"
      using Cons.IH by auto
    also have "\<dots> \<longleftrightarrow> (\<exists>u v. x # s = u @ c # v \<and> c \<notin> set u \<and> length u = i)"
      using False by (auto simp: Cons_eq_append_conv) (metis length_Cons list.simps(15) insert_iff)
    finally show ?thesis .
  qed
qed simp

lemma find_char_append [simp]: "c \<notin> set u \<Longrightarrow> find_char c (u @ c # v) = Some (length u)"
  by (auto simp: find_char_Some)

lemma find_char_less: "find_char c s = Some i \<Longrightarrow> i < length s"
  by (auto simp: find_char_Some)

lemma starts_with_iff: "starts_with s t \<longleftrightarrow> (\<exists>r. s = t @ r)"
  by (metis starts_with_def append_eq_conv_conj append_take_drop_id)

lemma starts_with_append [simp]: "starts_with (t @ r) t"
  by (auto simp: starts_with_iff)

lemma starts_with_Cons [simp]:
  "starts_with (x # xs) (y # ys) \<longleftrightarrow> x = y \<and> starts_with xs ys" "starts_with s []"
  "starts_with [] (y # ys) \<longleftrightarrow> False"
  by (auto simp: starts_with_def)

lemma starts_with_extend: "starts_with s n \<Longrightarrow> starts_with (s @ t) n"
  by (auto simp: starts_with_iff)

lemma starts_with_shorter: "starts_with (s @ t) n \<Longrightarrow> length n \<le> length s \<Longrightarrow> starts_with s n"
  by (simp add: starts_with_def)

text \<open>A found substring stays where it is when the buffer grows.\<close>

lemma find_sub_Some_split: "find_sub n s = Some i \<Longrightarrow> \<exists>u v. s = u @ n @ v \<and> length u = i"
proof (induction s arbitrary: i)
  case (Cons x s)
  show ?case
  proof (cases "starts_with (x # s) n")
    case True
    then show ?thesis using Cons.prems by (auto simp: starts_with_iff)
  next
    case False
    then obtain j where j: "find_sub n s = Some j" "i = Suc j" using Cons.prems by auto
    then obtain u v where "s = u @ n @ v" "length u = j" using Cons.IH by blast
    then have "x # s = (x # u) @ n @ v \<and> length (x # u) = i" using j by simp
    then show ?thesis by blast
  qed
qed simp

lemma find_sub_bound: "find_sub n s = Some i \<Longrightarrow> i + length n \<le> length s"
  by (drule find_sub_Some_split) auto

lemma find_sub_extend: "find_sub n s = Some i \<Longrightarrow> find_sub n (s @ t) = Some i"
proof (induction s arbitrary: i)
  case (Cons x s)
  show ?case
  proof (cases "starts_with (x # s) n")
    case True
    then show ?thesis using Cons.prems starts_with_extend [of "x # s" n t] by simp
  next
    case False
    then obtain j where j: "find_sub n s = Some j" "i = Suc j" using Cons.prems by auto
    then have "\<not> starts_with ((x # s) @ t) n"
      using False starts_with_shorter [of "x # s" t n] find_sub_bound [OF j(1)] by auto
    then show ?thesis using j Cons.IH by simp
  qed
qed simp

lemma find_sub_take:
  assumes "find_sub n (s @ t) = Some i" and "i + length n \<le> length s" and "n \<noteq> []"
  shows "find_sub n s = Some i"
  using assms(1,2)
proof (induction s arbitrary: i)
  case Nil
  then show ?case using assms(3) by simp
next
  case (Cons x s)
  show ?case
  proof (cases "starts_with (x # s @ t) n")
    case True
    then have "i = 0" using Cons.prems by simp
    then have "starts_with (x # s) n"
      using True Cons.prems by (simp add: starts_with_def take_Cons' split: if_splits)
    then show ?thesis using \<open>i = 0\<close> by simp
  next
    case False
    then have "\<not> starts_with (x # s) n" using starts_with_extend [of "x # s" n t] by auto
    moreover obtain j where "find_sub n (s @ t) = Some j" "i = Suc j" using False Cons.prems by auto
    ultimately show ?thesis using Cons by simp
  qed
qed

text \<open>The first occurrence of a text whose first character occurs nowhere before it.\<close>

lemma find_sub_append: "c \<notin> set u \<Longrightarrow> find_sub (c # n) (u @ c # n @ v) = Some (length u)"
  by (induction u) auto

section \<open>Decimal round trip\<close>

lemma digit_val_digit: "d < 10 \<Longrightarrow> digit_val (char_of (48 + d)) = int d"
  by (simp add: digit_val_def byte_digit)

lemma dec_val_append: "dec_val (s @ [c]) = 10 * dec_val s + digit_val c"
  by (simp add: dec_val_def)

lemma dec_val_nat_dec [simp]: "dec_val (nat_dec n) = int n"
proof (induction n rule: nat_dec.induct)
  case (1 n)
  show ?case
  proof (cases "n < 10")
    case True
    then show ?thesis using digit_val_digit [of n] by (simp add: nat_dec.simps [of n] dec_val_def)
  next
    case False
    then have "nat_dec n = nat_dec (n div 10) @ [char_of (48 + n mod 10)]"
      by (simp add: nat_dec.simps [of n])
    then show ?thesis using 1 False digit_val_digit [of "n mod 10"]
      by (simp add: dec_val_append zdiv_int zmod_int)
  qed
qed

lemma nat_dec_all_digits: "list_all c_isdigit (nat_dec n)" "nat_dec n \<noteq> []"
  using nat_dec_digits by auto

lemma c_isdigit_not_sign: "c_isdigit c \<Longrightarrow> c \<noteq> CHR ''-'' \<and> c \<noteq> CHR ''+'' \<and> \<not> c_isspace c \<and> c \<noteq> NUL"
  by (auto simp: c_isdigit_def c_isspace_def byte_def)

lemma digits_head: "list_all c_isdigit ds \<Longrightarrow> ds \<noteq> [] \<Longrightarrow> \<exists>c cs. ds = c # cs \<and> c_isdigit c"
  by (cases ds) auto

lemma takeWhile_digits: "list_all c_isdigit ds \<Longrightarrow> takeWhile c_isdigit ds = ds"
  by (simp add: list_all_iff)

text \<open>\<open>strtol\<close> reads back what \<open>%ld\<close> wrote.\<close>

lemma c_strtol_digits:
  assumes "list_all c_isdigit ds" and "ds \<noteq> []"
  shows "c_strtol ds = (min LONG_MAX (dec_val ds), LONG_MAX < dec_val ds, length ds)"
proof -
  obtain c cs where ds: "ds = c # cs" "c_isdigit c" using digits_head [OF assms] by blast
  have nonneg: "0 \<le> dec_val ds" using assms(1)
  proof (induction ds rule: rev_induct)
    case (snoc x xs)
    then show ?case by (simp add: dec_val_append digit_val_def c_isdigit_def)
  qed (simp add: dec_val_def)
  have "takeWhile c_isspace ds = []" using ds c_isdigit_not_sign by simp
  moreover have "c_at ds 0 \<noteq> CHR ''-''" "c_at ds 0 \<noteq> CHR ''+''" using ds c_isdigit_not_sign by auto
  ultimately show ?thesis
    using assms nonneg by (simp add: c_strtol_def takeWhile_digits LONG_MIN_def Let_def LONG_MAX_def)
qed

lemma c_strtol_nat_dec: "int n \<le> LONG_MAX \<Longrightarrow> c_strtol (nat_dec n) = (int n, False, length (nat_dec n))"
  using c_strtol_digits [OF nat_dec_all_digits, of n] by simp

section \<open>The length of a decimal\<close>

lemma length_nat_dec: "n < 10 ^ k \<Longrightarrow> 0 < k \<Longrightarrow> length (nat_dec n) \<le> k"
proof (induction n arbitrary: k rule: nat_dec.induct)
  case (1 n)
  show ?case
  proof (cases "n < 10")
    case False
    then obtain j where j: "k = Suc j" "0 < j" using "1.prems" by (cases k; cases "k - 1") auto
    then have "length (nat_dec (n div 10)) \<le> j" using 1 False by auto
    then show ?thesis using False j by (simp add: nat_dec.simps [of n])
  qed (use "1.prems" in \<open>simp add: nat_dec.simps [of n]\<close>)
qed

lemma nat_dec_no_NUL: "NUL \<notin> set (nat_dec n)"
  using nat_dec_all_digits(1) [of n] c_isdigit_not_sign by (auto simp: list_all_iff)

lemma c_str_no_NUL: "NUL \<notin> set s \<Longrightarrow> c_str s = s"
  by (simp add: c_str_def takeWhile_absent)

end
