(* ===== verification/Http.thy ===== *)
theory Http
  imports C_Lib
begin

text \<open>
  The request parser and the response formatter (\<^verbatim>\<open>src/src/http.c\<close>). A connection buffers bytes until
  the blank line that ends the headers has been seen (\<open>http_conn_feed\<close>); then the request line and the
  content length are read from that region (\<open>http_conn_try_parse\<close>). Sizes are natural numbers: they
  count bytes of one buffer and stay below \<open>2 ^ 63\<close>; the one narrowing cast, of \<open>headers_end\<close> to
  \<open>int\<close>, is written out.
\<close>

section \<open>State\<close>

definition HTTP_MAX_METHOD :: nat where
  "HTTP_MAX_METHOD = 8"

definition HTTP_MAX_PATH :: nat where
  "HTTP_MAX_PATH = 512"

definition HTTP_MAX_HEADERS :: nat where
  "HTTP_MAX_HEADERS = 8192"

text \<open>\<open>hc_buf\<close> holds the \<open>len\<close> bytes received; \<open>hc_method\<close> and \<open>hc_path\<close> the bytes before the terminator.\<close>

record http_conn =
  hc_buf :: bytes
  hc_cap :: nat
  hc_headers_end :: int
  hc_content_length :: int
  hc_method :: bytes
  hc_path :: bytes

record http_request =
  rq_method :: string
  rq_path :: string
  rq_content_length :: int
  rq_body :: bytes
  rq_headers :: bytes

abbreviation CR :: char where
  "CR \<equiv> CHR 0x0D"

abbreviation LF :: char where
  "LF \<equiv> CHR 0x0A"

abbreviation TAB :: char where
  "TAB \<equiv> CHR 0x09"

definition http_conn_init :: http_conn where
  "http_conn_init =
     \<lparr>hc_buf = [], hc_cap = 0, hc_headers_end = - 1, hc_content_length = - 1, hc_method = [], hc_path = []\<rparr>"

definition http_conn_free :: "http_conn \<Rightarrow> http_conn" where
  "http_conn_free c = c\<lparr>hc_buf := [], hc_cap := 0\<rparr>"

section \<open>Feeding\<close>

text \<open>\<open>while (cap < need) cap *= 2\<close>, for a capacity that is not 0.\<close>

function grow_cap :: "nat \<Rightarrow> nat \<Rightarrow> nat" where
  "grow_cap need cap = (if 0 < cap \<and> cap < need then grow_cap need (cap * 2) else cap)"
  by pat_completeness auto
termination
  by (relation "measure (\<lambda>(need, cap). need - cap)") auto

declare grow_cap.simps [simp del]

text \<open>
  \<open>nomem\<close> tells for which sizes \<open>realloc\<close> fails. \<open>Inl\<close> is the return value -1, with the state it leaves.
\<close>

definition http_conn_feed :: "(nat \<Rightarrow> bool) \<Rightarrow> http_conn \<Rightarrow> bytes \<Rightarrow> http_conn + http_conn" where
  "http_conn_feed nomem c data =
     (let need = length (hc_buf c) + length data + 1;
          cap = (if need > hc_cap c then grow_cap need (if hc_cap c \<noteq> 0 then hc_cap c else 4096)
                 else hc_cap c)
      in if need > hc_cap c \<and> nomem cap then Inl c
         else
           (let buf = hc_buf c @ data;
                headers_end =
                  (if hc_headers_end c < 0 then
                     (case find_sub [CR, LF, CR, LF] buf of
                        Some blank \<Rightarrow> c_int (int blank) + 4
                      | None \<Rightarrow> hc_headers_end c)
                   else hc_headers_end c);
                c' = c\<lparr>hc_buf := buf, hc_cap := cap, hc_headers_end := headers_end\<rparr>
            in if headers_end < 0 \<and> length buf > HTTP_MAX_HEADERS then Inl c'
               else if headers_end > int HTTP_MAX_HEADERS then Inl c'
               else Inr c'))"

section \<open>Headers\<close>

text \<open>The first loop: to the first CRLF, or to the end.\<close>

fun skip_request_line :: "bytes \<Rightarrow> bytes" where
  "skip_request_line [] = []"
| "skip_request_line (c # cs) =
     (if c = CR \<and> cs \<noteq> [] \<and> hd cs = LF then c # cs else skip_request_line cs)"

definition is_blank :: "char \<Rightarrow> bool" where
  "is_blank c \<longleftrightarrow> c = CHR '' '' \<or> c = TAB"

definition trim_blanks :: "string \<Rightarrow> string" where
  "trim_blanks v = rev (dropWhile is_blank (rev (dropWhile is_blank v)))"

text \<open>The loop over the header lines, from \<open>p\<close> to the end.\<close>

function header_loop :: "string \<Rightarrow> nat \<Rightarrow> bytes \<Rightarrow> bytes option" where
  "header_loop name out_size p =
     (if p = [] then None
      else
        (let line = takeWhile (\<lambda>c. c \<noteq> CR) p;
             next_line = drop (length line + 2) p
         in case find_char (CHR '':'') line of
              None \<Rightarrow> header_loop name out_size next_line
            | Some k \<Rightarrow>
                if k \<noteq> length name \<or> c_strcasecmp (take k line) name \<noteq> 0
                then header_loop name out_size next_line
                else
                  (let val = trim_blanks (drop (k + 1) line)
                   in if length val \<ge> out_size then None else Some val)))"
  by pat_completeness auto
termination
  by (relation "measure (\<lambda>(name, out_size, p). length p)") auto

declare header_loop.simps [simp del]

text \<open>\<open>None\<close> is -1, \<open>Some v\<close> the value with its length.\<close>

definition http_find_header :: "bytes \<Rightarrow> string \<Rightarrow> nat \<Rightarrow> bytes option" where
  "http_find_header headers name out_size =
     (let p = skip_request_line headers
      in if p = [] then None else header_loop name out_size (drop 2 p))"

section \<open>Parsing\<close>

definition parse_request_line :: "http_conn \<Rightarrow> bytes \<Rightarrow> http_conn option" where
  "parse_request_line c line =
     (case find_char (CHR '' '') line of
        None \<Rightarrow> None
      | Some method_len \<Rightarrow>
          if method_len = 0 \<or> method_len \<ge> HTTP_MAX_METHOD then None
          else case find_char (CHR '' '') (drop (method_len + 1) line) of
            None \<Rightarrow> None
          | Some path_len \<Rightarrow>
              if path_len = 0 \<or> path_len \<ge> HTTP_MAX_PATH then None
              else Some (c\<lparr>hc_method := take method_len line,
                           hc_path := take path_len (drop (method_len + 1) line)\<rparr>))"

text \<open>The return value (1, 0 or -1), the connection and, with 1, the request.\<close>

definition http_conn_try_parse :: "http_conn \<Rightarrow> int \<times> http_conn \<times> http_request option" where
  "http_conn_try_parse c =
     (if hc_headers_end c < 0 then (0, c, None)
      else
        (let hend = nat (hc_headers_end c)
         in case find_sub [CR, LF] (take hend (hc_buf c)) of
              None \<Rightarrow> (- 1, c, None)
            | Some eol \<Rightarrow>
                (case parse_request_line c (take eol (hc_buf c)) of
                   None \<Rightarrow> (- 1, c, None)
                 | Some c1 \<Rightarrow>
                     (let headers = take (hend - 4) (hc_buf c);
                          c2 = c1\<lparr>hc_content_length := 0\<rparr>;
                          request = (\<lambda>c. \<lparr>rq_method = snprintf HTTP_MAX_METHOD (c_str (hc_method c)),
                                        rq_path = snprintf HTTP_MAX_PATH (c_str (hc_path c)),
                                        rq_content_length = hc_content_length c,
                                        rq_body = drop hend (hc_buf c),
                                        rq_headers = headers\<rparr>)
                      in case http_find_header headers ''Content-Length'' 32 of
                           None \<Rightarrow> (1, c2, Some (request c2))
                         | Some lenbuf \<Rightarrow>
                             (case c_strtol (c_str lenbuf) of
                                (v, _, used) \<Rightarrow>
                                  if used = 0 \<or> v < 0 then (- 1, c2, None)
                                  else (let c3 = c2\<lparr>hc_content_length := v\<rparr>
                                        in (1, c3, Some (request c3))))))))"

section \<open>Responses\<close>

definition http_status_text :: "int \<Rightarrow> string" where
  "http_status_text status =
     (if status = 200 then ''OK''
      else if status = 201 then ''Created''
      else if status = 204 then ''No Content''
      else if status = 400 then ''Bad Request''
      else if status = 401 then ''Unauthorized''
      else if status = 404 then ''Not Found''
      else if status = 405 then ''Method Not Allowed''
      else if status = 409 then ''Conflict''
      else if status = 411 then ''Length Required''
      else if status = 413 then ''Payload Too Large''
      else if status = 500 then ''Internal Server Error''
      else if status = 503 then ''Service Unavailable''
      else ''Error'')"

text \<open>The formatted block, or \<open>None\<close> for -1; a \<open>NULL\<close> \<open>extra\<close> is the empty text.\<close>

definition http_format_header :: "nat \<Rightarrow> int \<Rightarrow> string \<Rightarrow> string \<Rightarrow> int \<Rightarrow> string \<Rightarrow> string option" where
  "http_format_header out_size status status_text content_type content_length extra =
     (let s = ''HTTP/1.1 '' @ int_dec status @ '' '' @ status_text @ [CR, LF]
              @ ''Content-Type: '' @ content_type @ [CR, LF]
              @ ''Content-Length: '' @ int_dec content_length @ [CR, LF]
              @ ''Connection: close'' @ [CR, LF] @ extra @ [CR, LF]
      in if snprintf_fits out_size s then Some s else None)"

section \<open>Percent decoding\<close>

definition hexval :: "char \<Rightarrow> int" where
  "hexval c =
     (if 48 \<le> byte c \<and> byte c \<le> 57 then int (byte c) - 48
      else if 97 \<le> byte c \<and> byte c \<le> 102 then int (byte c) - 97 + 10
      else if 65 \<le> byte c \<and> byte c \<le> 70 then int (byte c) - 65 + 10
      else - 1)"

text \<open>
  The loop of \<open>http_path_decode\<close>, in place: \<open>r\<close> reads, \<open>w\<close> writes. The array is the string with its
  terminator at \<open>length path\<close>.
\<close>

function decode_loop :: "bytes \<Rightarrow> nat \<Rightarrow> nat \<Rightarrow> bytes option" where
  "decode_loop path r w =
     (if c_at path r = NUL then Some (path[w := NUL])
      else if c_at path r = CHR ''%'' then
        (let hi = hexval (c_at path (r + 1));
             lo = (if hi \<ge> 0 then hexval (c_at path (r + 2)) else - 1)
         in if lo < 0 then None
            else decode_loop (path[w := char_of (nat (16 * hi + lo))]) (r + 3) (w + 1))
      else decode_loop (path[w := c_at path r]) (r + 1) (w + 1))"
  by pat_completeness auto
termination
  by (relation "measure (\<lambda>(path, r, w). length path - r)") (auto simp: c_at_def split: if_splits)

declare decode_loop.simps [simp del]

definition http_path_decode :: "string \<Rightarrow> string option" where
  "http_path_decode path = map_option c_str (decode_loop path 0 0)"

section \<open>The buffer\<close>

lemma grow_cap_ge: "0 < cap \<Longrightarrow> need \<le> grow_cap need cap"
  by (induction need cap rule: grow_cap.induct) (simp add: grow_cap.simps)

lemma grow_cap_pos: "0 < cap \<Longrightarrow> 0 < grow_cap need cap"
  by (induction need cap rule: grow_cap.induct) (simp add: grow_cap.simps)

lemma grow_cap_grow: "0 < cap \<Longrightarrow> m \<le> n \<Longrightarrow> grow_cap n (grow_cap m cap) = grow_cap n cap"
proof (induction m cap rule: grow_cap.induct)
  case (1 need cap)
  then show ?case
    by (cases "cap < need") (simp_all add: grow_cap.simps [of need cap] grow_cap.simps [of n cap])
qed

text \<open>What a connection knows of the bytes it holds: where the headers end, and whether they fit.\<close>

definition header_end :: "bytes \<Rightarrow> int" where
  "header_end buf = (case find_sub [CR, LF, CR, LF] buf of Some i \<Rightarrow> int i + 4 | None \<Rightarrow> - 1)"

definition header_fits :: "bytes \<Rightarrow> bool" where
  "header_fits buf \<longleftrightarrow>
     (case find_sub [CR, LF, CR, LF] buf of
        Some i \<Rightarrow> i + 4 \<le> HTTP_MAX_HEADERS | None \<Rightarrow> length buf \<le> HTTP_MAX_HEADERS)"

definition fed_conn :: "bytes \<Rightarrow> http_conn" where
  "fed_conn buf =
     http_conn_init\<lparr>hc_buf := buf, hc_cap := grow_cap (length buf + 1) 4096, hc_headers_end := header_end buf\<rparr>"

lemma header_end_bound: "header_end buf \<le> int (length buf)"
  by (auto simp: header_end_def dest: find_sub_bound split: option.splits)

lemma header_end_extend: "0 \<le> header_end b \<Longrightarrow> header_end (b @ d) = header_end b"
  by (auto simp: header_end_def find_sub_extend split: option.splits)

lemma header_fits_prefix: "header_fits (b @ d) \<Longrightarrow> header_fits b"
proof (cases "find_sub [CR, LF, CR, LF] b")
  case None
  assume fits: "header_fits (b @ d)"
  show ?thesis
  proof (cases "find_sub [CR, LF, CR, LF] (b @ d)")
    case (Some i)
    then have "\<not> i + 4 \<le> length b" using find_sub_take [OF Some] None by auto
    then show ?thesis using fits None Some by (simp add: header_fits_def)
  qed (use fits None in \<open>simp add: header_fits_def\<close>)
qed (simp add: header_fits_def find_sub_extend)

lemma feed_limits:
  "(header_end buf < 0 \<and> length buf > HTTP_MAX_HEADERS) \<or> header_end buf > int HTTP_MAX_HEADERS \<longleftrightarrow> \<not> header_fits buf"
  by (auto simp: header_end_def header_fits_def split: option.splits)

lemma c_int_offset: "find_sub n buf = Some i \<Longrightarrow> length buf < 2 ^ 31 \<Longrightarrow> n \<noteq> [] \<Longrightarrow> c_int (int i) = int i"
  using find_sub_bound [of n buf i] by (intro c_int_id) (auto simp: nat_less_iff)

lemma feed_step:
  assumes cap: "(if length (hc_buf c) + length d + 1 > hc_cap c
      then grow_cap (length (hc_buf c) + length d + 1) (if hc_cap c \<noteq> 0 then hc_cap c else 4096) else hc_cap c) = cap"
    and hend: "(if hc_headers_end c < 0
      then (case find_sub [CR, LF, CR, LF] (hc_buf c @ d) of Some i \<Rightarrow> c_int (int i) + 4 | None \<Rightarrow> hc_headers_end c)
      else hc_headers_end c) = header_end (hc_buf c @ d)"
  defines "c' \<equiv> c\<lparr>hc_buf := hc_buf c @ d, hc_cap := cap, hc_headers_end := header_end (hc_buf c @ d)\<rparr>"
  shows "http_conn_feed (\<lambda>_. False) c d = (if header_fits (hc_buf c @ d) then Inr c' else Inl c')"
  using feed_limits [of "hc_buf c @ d"]
  by (simp only: http_conn_feed_def Let_def cap hend c'_def) auto

lemma header_end_found:
  assumes "length (b @ d) < 2 ^ 31"
  shows "(if header_end b < 0
      then case find_sub [CR, LF, CR, LF] (b @ d) of Some i \<Rightarrow> c_int (int i) + 4 | None \<Rightarrow> header_end b
      else header_end b) = header_end (b @ d)"
  using c_int_offset [OF _ assms, of "[CR, LF, CR, LF]"] header_end_extend [of b d]
  by (auto simp: header_end_def find_sub_extend split: option.splits)

lemma feed_init:
  assumes "length d < 2 ^ 31"
  shows "http_conn_feed (\<lambda>_. False) http_conn_init d = (if header_fits d then Inr (fed_conn d) else Inl (fed_conn d))"
proof -
  have fields: "hc_buf http_conn_init = []" "hc_cap http_conn_init = 0" "hc_headers_end http_conn_init = header_end []"
    by (simp_all add: http_conn_init_def header_end_def)
  have "length ([] @ d) < 2 ^ 31" using assms by simp
  note hend = header_end_found [OF this]
  show ?thesis
    using feed_step [of http_conn_init d "grow_cap (length d + 1) 4096", unfolded fields, OF _ hend]
    by (simp add: fed_conn_def)
qed

lemma feed_fed:
  assumes "length (b @ d) < 2 ^ 31"
  shows "http_conn_feed (\<lambda>_. False) (fed_conn b) d =
    (if header_fits (b @ d) then Inr (fed_conn (b @ d)) else Inl (fed_conn (b @ d)))"
proof -
  let ?need = "length b + length d + 1" and ?cap = "grow_cap (length b + 1) 4096"
  have pos: "?cap \<noteq> 0" using grow_cap_pos [of 4096] by auto
  have cap: "(if ?need > ?cap then grow_cap ?need (if ?cap \<noteq> 0 then ?cap else 4096) else ?cap) = grow_cap ?need 4096"
  proof (cases "?need > ?cap")
    case False
    have "grow_cap ?need ?cap = ?cap" using False by (subst grow_cap.simps) simp
    then show ?thesis using False grow_cap_grow [of 4096 "length b + 1" ?need] by simp
  qed (use pos in \<open>simp add: grow_cap_grow\<close>)
  have fields: "hc_buf (fed_conn b) = b" "hc_cap (fed_conn b) = ?cap" "hc_headers_end (fed_conn b) = header_end b"
    by (simp_all add: fed_conn_def)
  have "http_conn_feed (\<lambda>_. False) (fed_conn b) d =
     (if header_fits (b @ d) then Inr ((fed_conn b)\<lparr>hc_buf := b @ d, hc_cap := grow_cap ?need 4096, hc_headers_end := header_end (b @ d)\<rparr>)
      else Inl ((fed_conn b)\<lparr>hc_buf := b @ d, hc_cap := grow_cap ?need 4096, hc_headers_end := header_end (b @ d)\<rparr>))"
    using feed_step [of "fed_conn b" d "grow_cap ?need 4096", unfolded fields, OF cap header_end_found [OF assms]] .
  then show ?thesis by (simp add: fed_conn_def)
qed

text \<open>Bytes that arrive in several reads, up to the first refusal.\<close>

fun feeds :: "http_conn \<Rightarrow> bytes list \<Rightarrow> http_conn + http_conn" where
  "feeds c [] = Inr c"
| "feeds c (d # ds) =
     (case http_conn_feed (\<lambda>_. False) c d of Inl c' \<Rightarrow> Inl c' | Inr c' \<Rightarrow> feeds c' ds)"

lemma feeds_fed:
  "length (b @ concat ds) < 2 ^ 31 \<Longrightarrow> header_fits b \<Longrightarrow>
   feeds (fed_conn b) ds = Inr c \<longleftrightarrow> header_fits (b @ concat ds) \<and> c = fed_conn (b @ concat ds)"
proof (induction ds arbitrary: b)
  case (Cons d ds)
  have feed: "http_conn_feed (\<lambda>_. False) (fed_conn b) d =
      (if header_fits (b @ d) then Inr (fed_conn (b @ d)) else Inl (fed_conn (b @ d)))"
    using feed_fed [of b d] Cons.prems(1) by simp
  show ?case
  proof (cases "header_fits (b @ d)")
    case True
    then show ?thesis using feed Cons.IH [of "b @ d"] Cons.prems(1) by simp
  next
    case False
    then have "\<not> header_fits ((b @ d) @ concat ds)" using header_fits_prefix by blast
    then show ?thesis using False feed by simp
  qed
qed auto

text \<open>
  How a request is cut into reads does not matter: feeding the pieces one after the other succeeds
  exactly when feeding all the bytes at once does, and leaves the same connection.
\<close>

theorem feed_split_invariant:
  assumes "ds \<noteq> []" and "length (concat ds) < 2 ^ 31"
  shows "feeds http_conn_init ds = Inr c \<longleftrightarrow> http_conn_feed (\<lambda>_. False) http_conn_init (concat ds) = Inr c"
proof -
  obtain d es where ds: "ds = d # es" using assms(1) by (cases ds) auto
  have d: "length d < 2 ^ 31" and b: "length (d @ concat es) < 2 ^ 31" using assms(2) ds by auto
  show ?thesis
    using feed_init [OF d] feed_init [OF assms(2)] feeds_fed [OF b] header_fits_prefix [of d "concat es"]
    by (auto simp: ds)
qed

theorem feed_split_invariant_witness:
  "feeds http_conn_init [''GET /'', '' x'' @ [CR, LF, CR], [LF] @ ''body''] =
     http_conn_feed (\<lambda>_. False) http_conn_init (''GET / x'' @ [CR, LF, CR, LF] @ ''body'')"
proof -
  let ?ds = "[''GET /'', '' x'' @ [CR, LF, CR], [LF] @ ''body'']"
  have ds: "?ds \<noteq> []" "length (concat ?ds) < 2 ^ 31" by simp_all
  obtain c where c: "http_conn_feed (\<lambda>_. False) http_conn_init (concat ?ds) = Inr c"
    using feed_init [of "concat ?ds"] by (simp add: header_fits_def HTTP_MAX_HEADERS_def)
  have "feeds http_conn_init ?ds = Inr c" using feed_split_invariant [OF ds, of c] c by blast
  then show ?thesis using c by simp
qed

text \<open>
  The two limits of a connection: a first read is accepted exactly when the blank line is found and
  the header section before and including it is at most \<^verbatim>\<open>HTTP_MAX_HEADERS\<close> bytes, however long the
  body behind it is, or when it is not found and no more bytes than that have come.
\<close>

theorem feed_header_limit:
  assumes "length d < 2 ^ 31"
  shows "(\<exists>c. http_conn_feed (\<lambda>_. False) http_conn_init d = Inr c) \<longleftrightarrow>
    (\<exists>h body. d = h @ [CR, LF, CR, LF] @ body \<and> find_sub [CR, LF, CR, LF] d = Some (length h) \<and> length h + 4 \<le> HTTP_MAX_HEADERS)
    \<or> find_sub [CR, LF, CR, LF] d = None \<and> length d \<le> HTTP_MAX_HEADERS"
proof (cases "find_sub [CR, LF, CR, LF] d")
  case None
  then show ?thesis using feed_init [OF assms] by (auto simp: header_fits_def)
next
  case (Some i)
  then obtain h body where "d = h @ [CR, LF, CR, LF] @ body" "length h = i"
    using find_sub_Some_split by blast
  then show ?thesis using feed_init [OF assms] Some by (auto simp: header_fits_def)
qed

theorem feed_header_limit_witness:
  "\<exists>c. http_conn_feed (\<lambda>_. False) http_conn_init (''GET / x'' @ [CR, LF, CR, LF] @ ''body'') = Inr c"
proof -
  have len: "length (''GET / x'' @ [CR, LF, CR, LF] @ ''body'') < 2 ^ 31" by simp
  have found: "find_sub [CR, LF, CR, LF] (''GET / x'' @ [CR, LF, CR, LF] @ ''body'') = Some (length ''GET / x'')"
    using find_sub_append [of CR "''GET / x''" "[LF, CR, LF]" "''body''"] by simp
  have small: "length ''GET / x'' + 4 \<le> HTTP_MAX_HEADERS" by (simp add: HTTP_MAX_HEADERS_def)
  show ?thesis using feed_header_limit [OF len] found small by blast
qed

section \<open>Percent decoding is decoding\<close>

fun pct_decode :: "string \<Rightarrow> string option" where
  "pct_decode [] = Some []"
| "pct_decode (c # cs) =
     (if c = CHR ''%'' then
        (case cs of
           h # l # r \<Rightarrow>
             if hexval h \<ge> 0 \<and> hexval l \<ge> 0
             then map_option ((#) (char_of (nat (16 * hexval h + hexval l)))) (pct_decode r) else None
         | _ \<Rightarrow> None)
      else map_option ((#) c) (pct_decode cs))"

lemma hexval_NUL [simp]: "hexval NUL = - 1"
  by (simp add: hexval_def byte_def)

lemma c_str_update: "w \<le> length p \<Longrightarrow> c_str (p[w := NUL]) = c_str (take w p)"
  by (cases "w < length p") (simp_all add: c_str_def upd_conv_take_nth_drop takeWhile_tail list_update_beyond)

lemma c_at_drop: "c_at p (r + k) = c_at (drop r p) k"
  by (auto simp: c_at_def add.commute)

lemma decode_loop_unfold:
  "decode_loop p r w =
     (case drop r p of
        [] \<Rightarrow> Some (p[w := NUL])
      | c # cs \<Rightarrow>
          if c = NUL then Some (p[w := NUL])
          else if c = CHR ''%'' then
            (let hi = hexval (c_at cs 0); lo = (if hi \<ge> 0 then hexval (c_at cs 1) else - 1)
             in if lo < 0 then None
                else decode_loop (p[w := char_of (nat (16 * hi + lo))]) (r + 3) (w + 1))
          else decode_loop (p[w := c]) (r + 1) (w + 1))"
  using c_at_drop [of p r 0] c_at_drop [of p r 1] c_at_drop [of p r 2]
  by (subst decode_loop.simps, cases "drop r p") (simp_all add: numeral_2_eq_2 cong: if_cong)

lemma decode_loop_reference:
  "w \<le> r \<Longrightarrow> r \<le> length p \<Longrightarrow> NUL \<notin> set (drop r p) \<Longrightarrow>
   map_option c_str (decode_loop p r w) = map_option (\<lambda>t. c_str (take w p @ t)) (pct_decode (drop r p))"
proof (induction "drop r p" arbitrary: p r w rule: pct_decode.induct)
  case 1
  then show ?case using decode_loop_unfold [of p r w] by (simp add: c_str_update)
next
  case (2 c cs)
  have d: "drop r p = c # cs" and r: "r < length p" using "2.hyps"(3) by (auto dest: sym) (metis drop_all linorder_not_le list.distinct(1))
  have cs: "cs = drop (Suc r) p" using d by (metis drop_Suc list.sel(3) tl_drop)
  have step: "take (Suc w) (p[w := x]) = take w p @ [x]" for x
    using r "2.prems"(1) by (simp add: take_Suc_conv_app_nth)
  have nul: "c \<noteq> NUL" "NUL \<notin> set cs" using "2.prems"(3) d by auto
  consider (plain) "c \<noteq> CHR ''%''" | (bad) "c = CHR ''%''" "hexval (c_at cs 0) < 0 \<or> hexval (c_at cs 1) < 0"
    | (esc) h l t where "c = CHR ''%''" "cs = h # l # t" "hexval h \<ge> 0" "hexval l \<ge> 0"
  proof (cases "hexval (c_at cs 0) \<ge> 0 \<and> hexval (c_at cs 1) \<ge> 0")
    case True
    then obtain h l t where "cs = h # l # t" by (cases cs; cases "tl cs") (auto simp: c_at_def)
    then show thesis using that True by fastforce
  qed (use that in fastforce)
  then show ?case
  proof cases
    case plain
    then show ?thesis
      using "2.hyps"(2) [OF plain, of "Suc r" "p[w := c]" "Suc w"] "2.prems" r d cs nul step
      by (simp add: decode_loop_unfold [of p r w] option.map_comp comp_def)
  next
    case bad
    then have "pct_decode (c # cs) = None" by (auto simp: c_at_def split: list.splits)
    then show ?thesis using bad d nul by (auto simp: decode_loop_unfold [of p r w] Let_def)
  next
    case esc
    have "drop 3 (drop r p) = t" using d esc(2) by (simp add: numeral_3_eq_3)
    then have t: "t = drop (r + 3) p" by (simp add: add.commute)
    have "length (drop r p) \<ge> 3" using d esc(2) by simp
    then have r3: "r + 3 \<le> length p" by simp
    let ?x = "char_of (nat (16 * hexval h + hexval l))"
    have "map_option c_str (decode_loop (p[w := ?x]) (r + 3) (Suc w)) =
        map_option (\<lambda>u. c_str (take (Suc w) (p[w := ?x]) @ u)) (pct_decode t)"
      using "2.hyps"(1) [OF esc(1,2), of l "r + 3" p "Suc w"] "2.hyps"(1) [OF esc(1,2), of l "r + 3" "p[w := ?x]" "Suc w"]
        t r3 esc nul "2.prems"(1) by (simp add: drop_update_cancel)
    moreover have "decode_loop p r w = decode_loop (p[w := ?x]) (r + 3) (Suc w)"
      using d nul esc by (subst decode_loop_unfold) (simp add: Let_def)
    moreover have "pct_decode (drop r p) = map_option ((#) ?x) (pct_decode t)"
      using d esc by simp
    ultimately show ?thesis by (simp add: step option.map_comp comp_def)
  qed
qed

lemma path_decode_reference: "NUL \<notin> set s \<Longrightarrow> http_path_decode s = map_option c_str (pct_decode s)"
  using decode_loop_reference [of 0 0 s] by (simp add: http_path_decode_def)

text \<open>The spellings of a text: any character but the percent sign may stand for itself, any may be escaped.\<close>

inductive pct_spells :: "string \<Rightarrow> string \<Rightarrow> bool" where
  nil: "pct_spells [] []"
| plain: "c \<noteq> CHR ''%'' \<Longrightarrow> pct_spells t e \<Longrightarrow> pct_spells (c # t) (c # e)"
| escaped: "0 \<le> hexval h \<Longrightarrow> 0 \<le> hexval l \<Longrightarrow> int (byte c) = 16 * hexval h + hexval l \<Longrightarrow>
    pct_spells t e \<Longrightarrow> pct_spells (c # t) (CHR ''%'' # h # l # e)"

inductive_cases pct_spells_nilE: "pct_spells t []"

lemma hexval_range: "hexval c < 16"
  by (simp add: hexval_def)

lemma char_of_hex: "0 \<le> hexval h \<Longrightarrow> 0 \<le> hexval l \<Longrightarrow> int (byte (char_of (nat (16 * hexval h + hexval l)))) = 16 * hexval h + hexval l"
  using hexval_range [of h] hexval_range [of l] by (simp add: byte_def nat_less_iff)

lemma pct_decode_spells: "pct_decode e = Some t \<Longrightarrow> pct_spells t e"
proof (induction e arbitrary: t rule: pct_decode.induct)
  case (2 c cs)
  then show ?case
  proof (cases "c = CHR ''%''")
    case True
    then obtain h l r u where "cs = h # l # r" "0 \<le> hexval h" "0 \<le> hexval l" "pct_decode r = Some u"
        "t = char_of (nat (16 * hexval h + hexval l)) # u"
      using "2.prems" by (auto split: if_splits list.splits)
    then show ?thesis using True "2.IH"(1) by (simp add: pct_spells.escaped char_of_hex)
  next
    case False
    then obtain u where "pct_decode cs = Some u" "t = c # u" using "2.prems" by auto
    then show ?thesis using False "2.IH"(2) by (simp add: pct_spells.plain)
  qed
qed (auto intro: pct_spells.nil)

lemma spells_pct_decode: "pct_spells t e \<Longrightarrow> pct_decode e = Some t"
proof (induction rule: pct_spells.induct)
  case (escaped h l c t e)
  then have "c = char_of (nat (16 * hexval h + hexval l))" by (metis byte_def char_of_char nat_int)
  then show ?case using escaped by simp
qed auto

text \<open>
  Decoding inverts every percent-encoding of a path: the in-place loop returns a text exactly when
  the path spells it, each character standing for itself or escaped with two hexadecimal digits of
  either case, cut at an escaped NUL; on anything else it fails.
\<close>

theorem path_decode_inverts:
  assumes "NUL \<notin> set e"
  shows "http_path_decode e = Some s \<longleftrightarrow> (\<exists>t. pct_spells t e \<and> s = c_str t)"
proof -
  have "pct_spells t e \<longleftrightarrow> pct_decode e = Some t" for t
    by (blast intro: pct_decode_spells spells_pct_decode)
  then show ?thesis by (cases "pct_decode e") (auto simp: path_decode_reference [OF assms])
qed

theorem path_decode_inverts_witness:
  "http_path_decode ''/z%2b%2B1.iso'' = Some ''/z++1.iso'' \<and> http_path_decode ''/z%2'' \<noteq> Some ''/z''"
proof -
  have a: "NUL \<notin> set ''/z%2b%2B1.iso''" "NUL \<notin> set ''/z%2''" by simp_all
  have "pct_spells ''/z++1.iso'' ''/z%2b%2B1.iso''"
    by (intro pct_spells.intros) (simp_all add: hexval_def byte_def)
  moreover have "c_str ''/z++1.iso'' = ''/z++1.iso''" by (simp add: c_str_def)
  moreover have "\<not> pct_spells t ''/z%2''" for t by (auto dest: spells_pct_decode)
  ultimately show ?thesis using path_decode_inverts [OF a(1)] path_decode_inverts [OF a(2)] by metis
qed

end
