(* ===== verification/Http_Props.thy ===== *)
theory Http_Props
  imports Http
begin

text \<open>
  What the request parser reads out of a well-formed request, header by header, and what it makes of
  the ones that are not: the round trip between a request and its text, the bounds of everything
  parsed, and the response block the header search reads back.
\<close>

section \<open>Requests as text\<close>

text \<open>A header field; the text of a header section, each field on a line of its own.\<close>

type_synonym field = "string \<times> string"

definition field_ok :: "field \<Rightarrow> bool" where
  "field_ok f \<longleftrightarrow> CR \<notin> set (fst f) \<and> CHR '':'' \<notin> set (fst f) \<and> CR \<notin> set (snd f)"

definition field_line :: "field \<Rightarrow> string" where
  "field_line f = fst f @ '':'' @ snd f"

definition field_lines :: "field list \<Rightarrow> string" where
  "field_lines fs = concat (map (\<lambda>f. [CR, LF] @ field_line f) fs)"

definition request_text :: "string \<Rightarrow> string \<Rightarrow> string \<Rightarrow> field list \<Rightarrow> bytes \<Rightarrow> bytes" where
  "request_text m p ver fs body = (m @ '' '' @ p @ '' '' @ ver @ field_lines fs) @ [CR, LF, CR, LF] @ body"

text \<open>The value of the first field of a name, whatever its case, without the blanks around it.\<close>

definition field_value :: "string \<Rightarrow> field list \<Rightarrow> string option" where
  "field_value name fs = map_option (trim_blanks \<circ> snd) (find (\<lambda>f. lower (fst f) = lower name) fs)"

definition fitting :: "nat \<Rightarrow> bytes option \<Rightarrow> bytes option" where
  "fitting n v = (case v of Some x \<Rightarrow> if length x < n then Some x else None | None \<Rightarrow> None)"

section \<open>Header search\<close>

lemma takeWhile_not_CR:
  "CR \<notin> set line \<Longrightarrow> takeWhile (\<lambda>c. c \<noteq> CR) (line @ CR # r) = line" "CR \<notin> set line \<Longrightarrow> takeWhile (\<lambda>c. c \<noteq> CR) line = line"
  by (auto simp: takeWhile_tail takeWhile_append2 takeWhile_absent)

lemma field_line_no_CR: "field_ok f \<Longrightarrow> CR \<notin> set (field_line f)"
  by (auto simp: field_ok_def field_line_def)

lemma find_colon: "field_ok f \<Longrightarrow> find_char (CHR '':'') (field_line f) = Some (length (fst f))"
  using find_char_append [of "CHR '':''" "fst f" "snd f"] by (simp add: field_ok_def field_line_def)

lemma lower_eq_length: "lower s = lower t \<Longrightarrow> length s = length t"
  by (metis length_lower)

lemma header_loop_first:
  assumes "field_ok f" and that: "rest = [] \<or> (\<exists>r. rest = CR # LF # r)"
  shows "header_loop name n (field_line f @ rest) =
    (if lower (fst f) = lower name then fitting n (Some (trim_blanks (snd f)))
     else header_loop name n (drop 2 rest))"
proof -
  let ?line = "field_line f"
  have ne: "(?line @ rest = []) = False" by (simp add: field_line_def)
  have tw: "takeWhile (\<lambda>c. c \<noteq> CR) (?line @ rest) = ?line"
    using that
  proof (elim disjE exE)
    fix r assume "rest = CR # LF # r"
    then show ?thesis using takeWhile_not_CR(1) [OF field_line_no_CR [OF assms(1)]] by simp
  qed (use takeWhile_not_CR(2) [OF field_line_no_CR [OF assms(1)]] in simp)
  have dr: "drop (length ?line + 2) (?line @ rest) = drop 2 rest" by simp
  have tk: "take (length (fst f)) ?line = fst f" and val: "drop (length (fst f) + 1) ?line = snd f"
    by (simp_all add: field_line_def)
  note unfolded = header_loop.simps [of name n "?line @ rest", unfolded ne if_False tw dr Let_def find_colon [OF assms(1)] option.case tk val]
  show ?thesis
  proof (cases "lower (fst f) = lower name")
    case True
    then show ?thesis using lower_eq_length [OF True] by (simp add: unfolded fitting_def)
  qed (simp add: unfolded)
qed

lemma field_lines_Cons: "field_lines (f # fs) = CR # LF # field_line f @ field_lines fs"
  by (simp add: field_lines_def)

lemma field_lines_cases: "field_lines fs = [] \<or> (\<exists>r. field_lines fs = CR # LF # r)"
  by (cases fs) (simp_all add: field_lines_Cons field_lines_def)

lemma header_loop_fields:
  "list_all field_ok fs \<Longrightarrow> header_loop name n (drop 2 (field_lines fs)) = fitting n (field_value name fs)"
proof (induction fs)
  case Nil
  then show ?case by (simp add: field_lines_def header_loop.simps [of name n "[]"] field_value_def fitting_def)
next
  case (Cons f fs)
  then show ?case
    using header_loop_first [of f "field_lines fs" name n] field_lines_cases [of fs]
    by (simp add: field_lines_Cons field_value_def)
qed

lemma skip_request_line_fields:
  "CR \<notin> set line \<Longrightarrow> skip_request_line (line @ field_lines fs) = field_lines fs"
proof (induction line)
  case Nil
  then show ?case by (cases fs) (simp_all add: field_lines_Cons field_lines_def)
qed auto

lemma find_header_fields:
  assumes "CR \<notin> set line" and "list_all field_ok fs"
  shows "http_find_header (line @ field_lines fs) name n = fitting n (field_value name fs)"
proof (cases fs)
  case Nil
  then show ?thesis
    using skip_request_line_fields [OF assms(1), of fs]
    by (simp add: http_find_header_def field_lines_def field_value_def fitting_def)
next
  case (Cons f fs')
  then show ?thesis
    using skip_request_line_fields [OF assms(1), of fs] header_loop_fields [OF assms(2)]
    by (simp add: http_find_header_def field_lines_Cons)
qed

section \<open>The blank line\<close>

lemma find_sub_skip: "c \<notin> set u \<Longrightarrow> find_sub (c # n) (u @ r) = map_option ((+) (length u)) (find_sub (c # n) r)"
  by (induction u; cases "find_sub (c # n) r") auto

lemma find_blank_line:
  "list_all field_ok fs \<Longrightarrow>
   find_sub [CR, LF, CR, LF] (field_lines fs @ [CR, LF, CR, LF] @ body) = Some (length (field_lines fs))"
proof (induction fs)
  case (Cons f fs)
  let ?tail = "field_lines fs @ [CR, LF, CR, LF] @ body"
  have noCR: "CR \<notin> set (field_line f)" using Cons.prems field_line_no_CR by simp
  have "\<exists>c cs. field_line f = c # cs \<and> c \<noteq> CR"
    using noCR by (cases "field_line f") (auto, simp add: field_line_def)
  then obtain c cs where line: "field_line f = c # cs" "c \<noteq> CR" by blast
  have "find_sub [CR, LF, CR, LF] (CR # LF # field_line f @ ?tail) =
      map_option (Suc \<circ> Suc) (find_sub [CR, LF, CR, LF] (field_line f @ ?tail))"
    using line by (simp add: option.map_comp comp_assoc)
  also have "find_sub [CR, LF, CR, LF] (field_line f @ ?tail) = Some (length (field_line f) + length (field_lines fs))"
    using find_sub_skip [OF noCR] Cons by simp
  finally show ?case by (simp add: field_lines_Cons)
qed (simp add: field_lines_def)

section \<open>The round trip\<close>

text \<open>The content length a list of fields states: none for 0, or a number that fits a \<open>long\<close>.\<close>

definition states_length :: "field list \<Rightarrow> nat \<Rightarrow> bool" where
  "states_length fs n \<longleftrightarrow>
     (case field_value ''Content-Length'' fs of
        None \<Rightarrow> n = 0 | Some v \<Rightarrow> v = nat_dec n \<and> int n \<le> LONG_MAX)"

text \<open>What the parser makes of the field: \<open>None\<close> is a refused request.\<close>

definition read_length :: "field list \<Rightarrow> int option" where
  "read_length fs =
     (case fitting 32 (field_value ''Content-Length'' fs) of
        None \<Rightarrow> Some 0
      | Some v \<Rightarrow>
          (case c_strtol (c_str v) of (x, _, used) \<Rightarrow> if used = 0 \<or> x < 0 then None else Some x))"

definition token_ok :: "nat \<Rightarrow> string \<Rightarrow> bool" where
  "token_ok n t \<longleftrightarrow> t \<noteq> [] \<and> length t < n \<and> CHR '' '' \<notin> set t \<and> CR \<notin> set t \<and> NUL \<notin> set t"

lemma request_line_parses:
  assumes "token_ok HTTP_MAX_METHOD m" and "token_ok HTTP_MAX_PATH p"
  shows "parse_request_line c (m @ '' '' @ p @ '' '' @ ver) = Some (c\<lparr>hc_method := m, hc_path := p\<rparr>)"
  using assms find_char_append [of "CHR '' ''" m "p @ '' '' @ ver"] find_char_append [of "CHR '' ''" p ver]
  by (simp add: parse_request_line_def token_ok_def)

lemma content_length_parses:
  assumes "int n \<le> LONG_MAX"
  shows "fitting 32 (Some (nat_dec n)) = Some (nat_dec n)"
    "c_strtol (c_str (nat_dec n)) = (int n, False, length (nat_dec n))"
proof -
  have "n < 10 ^ 19" using assms by (simp add: LONG_MAX_def)
  then have "length (nat_dec n) \<le> 19" by (rule length_nat_dec) simp
  then show "fitting 32 (Some (nat_dec n)) = Some (nat_dec n)" by (simp add: fitting_def)
  show "c_strtol (c_str (nat_dec n)) = (int n, False, length (nat_dec n))"
    using c_strtol_nat_dec [OF assms] by (simp add: c_str_no_NUL nat_dec_no_NUL)
qed

lemma blank_split:
  "take (length h + 4) (h @ [CR, LF, CR, LF] @ body) = h @ [CR, LF, CR, LF]"
  "take (length h) (h @ [CR, LF, CR, LF] @ body) = h" "drop (length h + 4) (h @ [CR, LF, CR, LF] @ body) = body"
  by simp_all

lemma try_parse_request:
  fixes body :: bytes
  assumes m: "token_ok HTTP_MAX_METHOD m" and p: "token_ok HTTP_MAX_PATH p" and v: "CR \<notin> set ver"
    and fs: "list_all field_ok fs"
  defines "whole \<equiv> request_text m p ver fs body"
  defines "req \<equiv> \<lambda>n. \<lparr>rq_method = m, rq_path = p, rq_content_length = n, rq_body = body,
    rq_headers = m @ '' '' @ p @ '' '' @ ver @ field_lines fs\<rparr>"
  shows "header_end whole = int (length (m @ '' '' @ p @ '' '' @ ver @ field_lines fs)) + 4"
    and "\<exists>c'. http_conn_try_parse (fed_conn whole) =
      (case read_length fs of Some n \<Rightarrow> (1, c', Some (req n)) | None \<Rightarrow> (- 1, c', None))"
proof -
  let ?line = "m @ '' '' @ p @ '' '' @ ver"
  let ?hs = "?line @ field_lines fs"
  have noCR: "CR \<notin> set ?line" using m p v by (simp add: token_ok_def)
  have whole: "whole = ?hs @ [CR, LF, CR, LF] @ body" by (simp add: whole_def request_text_def)
  have "find_sub [CR, LF, CR, LF] whole = Some (length ?hs)"
    using find_sub_skip [OF noCR, of "[LF, CR, LF]"] find_blank_line [OF fs, of body]
    by (simp add: whole)
  then have hend: "header_end whole = int (length ?hs) + 4" by (simp add: header_end_def)
  then show "header_end whole = int (length (m @ '' '' @ p @ '' '' @ ver @ field_lines fs)) + 4" by simp
  have nat_end: "nat (int (length ?hs) + 4) = length ?hs + 4" by simp
  have hd: "take (length ?hs + 4) whole = ?hs @ [CR, LF, CR, LF]"
    unfolding whole by (rule blank_split)
  have "\<exists>r. field_lines fs @ [CR, LF, CR, LF] = CR # [LF] @ r"
    using field_lines_cases [of fs] by auto
  then obtain r where "field_lines fs @ [CR, LF, CR, LF] = CR # [LF] @ r" by blast
  then have eol: "find_sub [CR, LF] (?hs @ [CR, LF, CR, LF]) = Some (length ?line)"
    using find_sub_append [OF noCR, of "[LF]" r] by simp
  have line: "take (length ?line) whole = ?line" by (simp add: whole)
  have hdr: "http_find_header ?hs ''Content-Length'' 32 = fitting 32 (field_value ''Content-Length'' fs)"
    by (rule find_header_fields [OF noCR fs])
  have mp: "snprintf HTTP_MAX_METHOD (c_str m) = m" "snprintf HTTP_MAX_PATH (c_str p) = p"
    using m p by (auto simp: token_ok_def snprintf_def c_str_no_NUL HTTP_MAX_METHOD_def HTTP_MAX_PATH_def)
  have fields: "hc_headers_end (fed_conn whole) = int (length ?hs) + 4" "hc_buf (fed_conn whole) = whole"
    using hend by (simp_all add: fed_conn_def)
  have body: "drop (length ?hs + 4) whole = body" and hs: "take (length ?hs) whole = ?hs"
    unfolding whole by (rule blank_split)+
  have pos: "\<not> int (length ?hs) + 4 < 0" by simp
  note parse = http_conn_try_parse_def [of "fed_conn whole", unfolded fields nat_end Let_def hd eol
      option.case line request_line_parses [OF m p] add_diff_cancel_right' hs hdr]
  show "\<exists>c'. http_conn_try_parse (fed_conn whole) =
      (case read_length fs of Some n \<Rightarrow> (1, c', Some (req n)) | None \<Rightarrow> (- 1, c', None))"
  proof (cases "fitting 32 (field_value ''Content-Length'' fs)")
    case None
    then show ?thesis using pos parse by (simp add: read_length_def req_def mp body [simplified] fields)
  next
    case (Some w)
    obtain x e used where "c_strtol (c_str w) = (x, e, used)" by (metis prod.exhaust)
    then show ?thesis
      using pos parse Some by (simp add: read_length_def req_def mp body [simplified] fields)
  qed
qed

lemma states_read_length: "states_length fs n \<Longrightarrow> read_length fs = Some (int n)"
  using content_length_parses [of n] nat_dec_all_digits(2) [of n]
  by (auto simp: states_length_def read_length_def fitting_def split: option.splits)

lemma request_reads_back:
  assumes "token_ok HTTP_MAX_METHOD m" and "token_ok HTTP_MAX_PATH p" and "CR \<notin> set ver"
    and "list_all field_ok fs" and "states_length fs n"
    and "length (m @ p @ ver @ field_lines fs) + 6 \<le> HTTP_MAX_HEADERS"
    and "length (request_text m p ver fs body) < 2 ^ 31"
  shows "\<exists>c c' req. http_conn_feed (\<lambda>_. False) http_conn_init (request_text m p ver fs body) = Inr c
    \<and> http_conn_try_parse c = (1, c', Some req)
    \<and> rq_method req = m \<and> rq_path req = p \<and> rq_content_length req = int n \<and> rq_body req = body
    \<and> (\<forall>name size. http_find_header (rq_headers req) name size = fitting size (field_value name fs))"
proof -
  let ?txt = "request_text m p ver fs body"
  note parses = try_parse_request [OF assms(1-4), of body]
  have "header_fits ?txt"
    using parses(1) assms(6) by (auto simp: header_end_def header_fits_def split: option.splits)
  then have fed: "http_conn_feed (\<lambda>_. False) http_conn_init ?txt = Inr (fed_conn ?txt)"
    using feed_init [OF assms(7)] by simp
  have "CR \<notin> set (m @ '' '' @ p @ '' '' @ ver)" using assms(1-3) by (simp add: token_ok_def)
  note find = find_header_fields [OF this assms(4)]
  obtain c' where c': "http_conn_try_parse (fed_conn ?txt) = (1, c', Some \<lparr>rq_method = m, rq_path = p,
      rq_content_length = int n, rq_body = body, rq_headers = m @ '' '' @ p @ '' '' @ ver @ field_lines fs\<rparr>)"
    using parses(2) states_read_length [OF assms(5)] by auto
  have find': "\<forall>name size. http_find_header (m @ '' '' @ p @ '' '' @ ver @ field_lines fs) name size
      = fitting size (field_value name fs)"
    using find by simp
  show ?thesis
    by (intro exI conjI, rule fed, rule c') (use find' in simp_all)
qed

text \<open>
  The server understands every well-formed request whose head fits: fed the text of a request, the
  connection parses it into exactly that method, path, content length and body, and searching its
  headers for a name finds the first field of that name, whatever the case, without the blanks around
  its value, when the value fits the caller's buffer.
\<close>

theorem request_round_trip:
  assumes "token_ok HTTP_MAX_METHOD m" and "token_ok HTTP_MAX_PATH p" and "CR \<notin> set ver"
    and "list_all field_ok fs" and "states_length fs n"
    and "length (m @ p @ ver @ field_lines fs) + 6 \<le> HTTP_MAX_HEADERS"
    and "length (request_text m p ver fs body) < 2 ^ 31"
  shows "\<exists>c c' req. http_conn_feed (\<lambda>_. False) http_conn_init (request_text m p ver fs body) = Inr c
    \<and> http_conn_try_parse c = (1, c', Some req)
    \<and> rq_method req = m \<and> rq_path req = p \<and> rq_content_length req = int n \<and> rq_body req = body
    \<and> (\<forall>name size. http_find_header (rq_headers req) name size = fitting size (field_value name fs))"
  by (rule request_reads_back [OF assms])

theorem request_round_trip_witness:
  "\<exists>c c' req. http_conn_feed (\<lambda>_. False) http_conn_init
      (request_text ''PUT'' ''/z.iso'' ''HTTP/1.1'' [(''Host'', '' h''), (''content-LENGTH'', '' 4'')] ''body'') = Inr c
    \<and> http_conn_try_parse c = (1, c', Some req) \<and> rq_path req = ''/z.iso'' \<and> rq_content_length req = 4
    \<and> rq_body req = ''body'' \<and> http_find_header (rq_headers req) ''HOST'' 8 = Some ''h''"
proof -
  let ?fs = "[(''Host'', '' h''), (''content-LENGTH'', '' 4'')]"
  have ok: "token_ok HTTP_MAX_METHOD ''PUT''" "token_ok HTTP_MAX_PATH ''/z.iso''" "CR \<notin> set ''HTTP/1.1''"
    "list_all field_ok ?fs"
    "length (''PUT'' @ ''/z.iso'' @ ''HTTP/1.1'' @ field_lines ?fs) + 6 \<le> HTTP_MAX_HEADERS"
    "length (request_text ''PUT'' ''/z.iso'' ''HTTP/1.1'' ?fs ''body'') < 2 ^ 31"
    by (simp_all add: token_ok_def field_ok_def HTTP_MAX_METHOD_def HTTP_MAX_PATH_def HTTP_MAX_HEADERS_def
        field_lines_def field_line_def request_text_def)
  have host: "fitting 8 (field_value ''HOST'' ?fs) = Some ''h''" by code_simp
  have "states_length ?fs 4" by code_simp
  then show ?thesis
    using request_round_trip [OF ok(1-4) _ ok(5,6), of 4] host by force
qed

text \<open>
  What the parser makes of a content length. A field that names no number, or a negative one, is a
  malformed request; a value followed by other text counts for its leading digits; one too large for a
  \<^verbatim>\<open>long\<close> counts as the largest; and one of 32 characters or more counts as 0, as if the field were not
  there, with the request accepted.
\<close>

theorem content_length_reading:
  assumes "token_ok HTTP_MAX_METHOD m" and "token_ok HTTP_MAX_PATH p" and "CR \<notin> set ver"
    and "list_all field_ok fs" and "field_value ''Content-Length'' fs = Some v" and "NUL \<notin> set v"
  shows "case http_conn_try_parse (fed_conn (request_text m p ver fs body)) of (rc, _, req) \<Rightarrow>
    case c_strtol v of (x, _, used) \<Rightarrow>
      if length v < 32 \<and> (used = 0 \<or> x < 0) then rc = - 1 \<and> req = None
      else rc = 1 \<and> map_option rq_content_length req = Some (if length v < 32 then x else 0)"
proof -
  obtain x e used where x: "c_strtol v = (x, e, used)" by (metis prod.exhaust)
  have "read_length fs = (if length v < 32 then if used = 0 \<or> x < 0 then None else Some x else Some 0)"
    using assms(5,6) by (simp add: read_length_def fitting_def c_str_no_NUL x)
  then show ?thesis
    using try_parse_request(2) [OF assms(1-4), of body] by (auto simp: x split: if_splits)
qed

theorem content_length_reading_witness:
  "map_option rq_content_length (snd (snd (http_conn_try_parse (fed_conn
     (request_text ''PUT'' ''/z.iso'' ''HTTP/1.1'' [(''Content-Length'', replicate 31 (CHR ''0'') @ ''4'')] ''body''))))) = Some 0"
proof -
  let ?v = "replicate 31 (CHR ''0'') @ ''4''"
  have ok: "token_ok HTTP_MAX_METHOD ''PUT''" "token_ok HTTP_MAX_PATH ''/z.iso''" "CR \<notin> set ''HTTP/1.1''"
    "list_all field_ok [(''Content-Length'', ?v)]" "NUL \<notin> set ?v" "\<not> length ?v < 32"
    by (simp_all add: token_ok_def field_ok_def HTTP_MAX_METHOD_def HTTP_MAX_PATH_def)
  have val: "field_value ''Content-Length'' [(''Content-Length'', ?v)] = Some ?v" by code_simp
  show ?thesis
    using content_length_reading [OF ok(1-4) val ok(5), of "''body''"] ok(6) by (auto split: prod.splits if_splits)
qed

end
