(* ===== verification/Conf.thy ===== *)
theory Conf
  imports Http
begin

text \<open>
  The server's configuration (\<^verbatim>\<open>src/src/conf.c\<close>): a text of \<^verbatim>\<open>key=value\<close> lines overlaid on defaults. A buffer
  \<^verbatim>\<open>char f[n]\<close> of the configuration is the string it holds; \<open>snprintf\<close> cuts what does not fit.
\<close>

section \<open>State\<close>

definition CONF_PATH_MAX :: nat where
  "CONF_PATH_MAX = 512"

definition CONF_TOKEN_MAX :: nat where
  "CONF_TOKEN_MAX = 256"

definition CONF_BIND_MAX :: nat where
  "CONF_BIND_MAX = 64"

record conf =
  cf_root :: string
  cf_bind :: string
  cf_port :: int
  cf_web_root :: string
  cf_push_token :: string
  cf_pull_token :: string
  cf_require_signature :: string

definition conf_defaults :: conf where
  "conf_defaults =
     \<lparr>cf_root = ''cache'', cf_bind = ''0.0.0.0'', cf_port = 8080, cf_web_root = ''web'',
      cf_push_token = '''', cf_pull_token = '''', cf_require_signature = ''.iso''\<rparr>"

section \<open>Ports\<close>

text \<open>\<open>None\<close> in the argument is a null pointer, in the result the return value -1.\<close>

definition conf_parse_port :: "string option \<Rightarrow> int option" where
  "conf_parse_port s =
     (case s of
        None \<Rightarrow> None
      | Some t \<Rightarrow>
          if t = [] then None
          else (case c_strtol t of
                  (v, erange, used) \<Rightarrow>
                    if erange \<or> used = 0 \<or> used \<noteq> length t then None
                    else if v < 1 \<or> v > 65535 then None
                    else Some v))"

section \<open>Lines\<close>

text \<open>What follows the key on the first line that starts with it.\<close>

fun find_key_line :: "string \<Rightarrow> bool \<Rightarrow> string \<Rightarrow> string option" where
  "find_key_line key at_line_start [] = None"
| "find_key_line key at_line_start (c # cs) =
     (if at_line_start \<and> c_strncmp (c # cs) key (length key) = 0
      then Some (drop (length key) (c # cs))
      else find_key_line key (c = LF) cs)"

definition is_trailing :: "char \<Rightarrow> bool" where
  "is_trailing c \<longleftrightarrow> c = CHR '' '' \<or> c = TAB \<or> c = CR"

definition rtrim :: "string \<Rightarrow> string" where
  "rtrim v = rev (dropWhile is_trailing (rev v))"

text \<open>\<open>None\<close> is -1 (and an empty output), \<open>Some v\<close> the value written.\<close>

definition conf_extract :: "string \<Rightarrow> string \<Rightarrow> nat \<Rightarrow> string option" where
  "conf_extract buf key out_size =
     (case find_key_line key True buf of
        None \<Rightarrow> None
      | Some val0 \<Rightarrow>
          (let quoted = (c_at val0 0 = CHR 0x22 \<or> c_at val0 0 = CHR 0x27);
               val = (if quoted then drop 1 val0 else val0);
               stop = (\<lambda>c. c = LF \<or> quoted \<and> c = c_at val0 0);
               v = rtrim (takeWhile (\<lambda>c. \<not> stop c) val)
           in if length v \<ge> out_size then None else Some v))"

definition overlay :: "string \<Rightarrow> string \<Rightarrow> nat \<Rightarrow> string \<Rightarrow> string" where
  "overlay buf key out_size out =
     (if out_size > CONF_PATH_MAX then out
      else case conf_extract buf key CONF_PATH_MAX of
        None \<Rightarrow> out
      | Some tmp \<Rightarrow> snprintf out_size tmp)"

section \<open>Loading\<close>

text \<open>How reading the file went: \<open>fopen\<close> failed, a later step failed, or the bytes read.\<close>

datatype conf_file = Fopen_Failed | Read_Failed | Contents bytes

definition conf_overlays :: "string \<Rightarrow> conf \<Rightarrow> conf" where
  "conf_overlays buf c =
     c\<lparr>cf_root := overlay buf ''root='' CONF_PATH_MAX (cf_root c),
       cf_bind := overlay buf ''bind='' CONF_BIND_MAX (cf_bind c),
       cf_web_root := overlay buf ''web_root='' CONF_PATH_MAX (cf_web_root c),
       cf_push_token := overlay buf ''push_token='' CONF_TOKEN_MAX (cf_push_token c),
       cf_pull_token := overlay buf ''pull_token='' CONF_TOKEN_MAX (cf_pull_token c),
       cf_require_signature := overlay buf ''require_signature='' CONF_TOKEN_MAX (cf_require_signature c)\<rparr>"

definition conf_load :: "conf \<Rightarrow> conf_file \<Rightarrow> int \<times> conf" where
  "conf_load c file =
     (case file of
        Fopen_Failed \<Rightarrow> (0, c)
      | Read_Failed \<Rightarrow> (- 1, c)
      | Contents bytes \<Rightarrow>
          (let buf = c_str bytes; c1 = conf_overlays buf c
           in case conf_extract buf ''port='' 32 of
                None \<Rightarrow> (0, c1)
              | Some portbuf \<Rightarrow>
                  (case conf_parse_port (Some portbuf) of
                     None \<Rightarrow> (- 1, c1)
                   | Some port \<Rightarrow> (0, c1\<lparr>cf_port := port\<rparr>))))"

section \<open>What a port looks like\<close>

definition port_text :: "string \<Rightarrow> int \<Rightarrow> bool" where
  "port_text s v \<longleftrightarrow>
     (\<exists>ws sg ds. s = ws @ sg @ ds \<and> list_all c_isspace ws \<and> sg \<in> {'''', ''+''}
        \<and> ds \<noteq> [] \<and> list_all c_isdigit ds \<and> dec_val ds = v \<and> 1 \<le> v \<and> v \<le> 65535)"

lemma dec_val_nonneg: "list_all c_isdigit ds \<Longrightarrow> 0 \<le> dec_val ds"
proof (induction ds rule: rev_induct)
  case (snoc x xs)
  then show ?case by (simp add: dec_val_append digit_val_def c_isdigit_def)
qed (simp add: dec_val_def)

lemma takeWhile_all_append: "list_all P xs \<Longrightarrow> takeWhile P (xs @ ys) = xs @ takeWhile P ys"
  by (simp add: list_all_iff takeWhile_append2)

lemma takeWhile_is: "list_all P (takeWhile P xs)"
  by (induction xs) auto

lemma strtol_parts:
  assumes "list_all c_isspace ws" and "sg \<in> {'''', ''+''}" and "ds \<noteq> []" and "list_all c_isdigit ds"
  shows "c_strtol (ws @ sg @ ds) = (min LONG_MAX (dec_val ds), LONG_MAX < dec_val ds, length ws + length sg + length ds)"
proof -
  obtain d ds' where ds: "ds = d # ds'" "c_isdigit d" using digits_head [OF assms(4,3)] by blast
  have sg: "sg = '''' \<or> sg = ''+''" using assms(2) by simp
  have first: "\<not> c_isspace d" "d \<noteq> CHR ''-''" "d \<noteq> CHR ''+''" using c_isdigit_not_sign [OF ds(2)] by simp_all
  have plus: "\<not> c_isspace (CHR ''+'')" by (simp add: c_isspace_def byte_def)
  have "takeWhile c_isspace (sg @ ds) = []"
    using sg first plus ds(1) by (elim disjE) simp_all
  then have ws: "takeWhile c_isspace (ws @ sg @ ds) = ws"
    using assms(1) by (simp add: takeWhile_all_append)
  have nn: "- (2 ^ 63) \<le> dec_val ds" using dec_val_nonneg [OF assms(4)] by simp
  have sgn: "c_at (sg @ ds) 0 \<noteq> CHR ''-''" "(c_at (sg @ ds) 0 = CHR ''+'') = (sg = ''+'')"
    using sg first ds(1) by (elim disjE; simp)+
  have "takeWhile c_isdigit (drop (if c_at (sg @ ds) 0 = CHR ''-'' \<or> c_at (sg @ ds) 0 = CHR ''+'' then 1 else 0) (sg @ ds)) = ds"
    using sg sgn first ds(1) takeWhile_digits [OF assms(4)] by (elim disjE) simp_all
  moreover have "drop (length ws) (ws @ sg @ ds) = sg @ ds" by simp
  moreover have "(if c_at (sg @ ds) 0 = CHR ''-'' \<or> c_at (sg @ ds) 0 = CHR ''+'' then 1 else 0) = length sg"
    using sg sgn by (elim disjE) simp_all
  ultimately show ?thesis
    using assms(3) sgn(1) nn by (simp add: takeWhile_digits [OF assms(4)] c_strtol_def ws Let_def LONG_MIN_def LONG_MAX_def)
qed

lemma strtol_shape:
  assumes "c_strtol s = (v, False, length s)" and "s \<noteq> []" and "0 < v"
  shows "\<exists>ws sg ds. s = ws @ sg @ ds \<and> list_all c_isspace ws \<and> sg \<in> {'''', ''+''}
    \<and> ds \<noteq> [] \<and> list_all c_isdigit ds \<and> dec_val ds = v"
proof -
  define ws where "ws = takeWhile c_isspace s"
  define r where "r = drop (length ws) s"
  define k :: nat where "k = (if c_at r 0 = CHR ''-'' \<or> c_at r 0 = CHR ''+'' then 1 else 0)"
  define ds where "ds = takeWhile c_isdigit (drop k r)"
  have s: "s = ws @ r" by (simp add: ws_def r_def flip: dropWhile_eq_drop)
  define x where "x = (if c_at r 0 = CHR ''-'' then - dec_val ds else dec_val ds)"
  have eq: "c_strtol s = (if ds = [] then (0, False, 0)
      else (max LONG_MIN (min LONG_MAX x), x < LONG_MIN \<or> LONG_MAX < x, length ws + k + length ds))"
    by (simp add: c_strtol_def Let_def x_def ds_def k_def r_def ws_def)
  have ne: "ds \<noteq> []" using eq assms by auto
  then have x: "x = v" and len: "length ws + k + length ds = length s"
    using eq assms(1) by (auto simp: not_less)
  have dig: "list_all c_isdigit ds" by (simp add: ds_def takeWhile_is)
  have pos: "c_at r 0 \<noteq> CHR ''-''" using x assms(3) dec_val_nonneg [OF dig] by (auto simp: x_def)
  have "length (drop k r) = length ds" using len s by (simp add: k_def)
  then have "drop k r = ds" by (metis ds_def append.right_neutral append_eq_append_conv takeWhile_dropWhile_id)
  then have "r = take k r @ ds" by (metis append_take_drop_id)
  moreover have sg: "take k r \<in> {'''', ''+''}"
    using pos by (cases r) (auto simp: k_def)
  ultimately have s': "s = ws @ take k r @ ds" using s by simp
  have ws: "list_all c_isspace ws" by (simp add: ws_def takeWhile_is)
  have v: "dec_val ds = v" using x pos by (simp add: x_def)
  show ?thesis by (intro exI conjI) (rule s' ws sg ne dig v)+
qed

text \<open>
  A port is accepted exactly when the whole text is a decimal number between 1 and 65535, white
  space and a plus sign allowed before it; the value is that number.
\<close>

theorem parse_port_exact:
  "conf_parse_port s = Some v \<longleftrightarrow> (\<exists>t. s = Some t \<and> port_text t v)"
proof
  assume "conf_parse_port s = Some v"
  then obtain t where "s = Some t" "t \<noteq> []" "c_strtol t = (v, False, length t)" "1 \<le> v" "v \<le> 65535"
    by (auto simp: conf_parse_port_def split: option.splits if_splits prod.splits)
  then show "\<exists>t. s = Some t \<and> port_text t v"
    using strtol_shape [of t v] by (auto simp: port_text_def)
next
  assume "\<exists>t. s = Some t \<and> port_text t v"
  then obtain ws sg ds where s: "s = Some (ws @ sg @ ds)" and w: "list_all c_isspace ws"
    and sg: "sg \<in> {'''', ''+''}" and ds: "ds \<noteq> []" "list_all c_isdigit ds" "dec_val ds = v" "1 \<le> v" "v \<le> 65535"
    by (auto simp: port_text_def)
  have "c_strtol (ws @ sg @ ds) = (v, False, length (ws @ sg @ ds))"
    using strtol_parts [OF w sg ds(1,2)] ds by (simp add: LONG_MAX_def)
  then show "conf_parse_port s = Some v" using ds by (simp add: conf_parse_port_def s)
qed

section \<open>Files as lists of settings\<close>

definition setting_line :: "string \<times> string \<Rightarrow> string" where
  "setting_line kv = fst kv @ ''='' @ snd kv"

definition config_text :: "(string \<times> string) list \<Rightarrow> string" where
  "config_text ls = concat (map (\<lambda>kv. setting_line kv @ [LF]) ls)"

definition key_ok :: "string \<Rightarrow> bool" where
  "key_ok k \<longleftrightarrow> LF \<notin> set k \<and> CHR ''='' \<notin> set k \<and> NUL \<notin> set k"

text \<open>A value that stands for itself: on one line, not quoted, no blank at its end.\<close>

definition value_ok :: "string \<Rightarrow> bool" where
  "value_ok v \<longleftrightarrow> LF \<notin> set v \<and> NUL \<notin> set v \<and> c_at v 0 \<noteq> CHR 0x22 \<and> c_at v 0 \<noteq> CHR 0x27 \<and> rtrim v = v"

definition settings_ok :: "(string \<times> string) list \<Rightarrow> bool" where
  "settings_ok ls \<longleftrightarrow> list_all (\<lambda>kv. key_ok (fst kv) \<and> value_ok (snd kv)) ls"

lemma strncmp_prefix: "c_strncmp s t (length t) = 0 \<longleftrightarrow> starts_with s t"
  by (simp add: c_strncmp_def starts_with_def)

lemma find_key_line_inside: "LF \<notin> set u \<Longrightarrow> find_key_line key False (u @ LF # r) = find_key_line key True r"
  by (induction u) auto

lemma find_key_line_step:
  assumes "LF \<notin> set line"
  shows "find_key_line key True (line @ LF # r) =
    (if starts_with (line @ LF # r) key then Some (drop (length key) (line @ LF # r)) else find_key_line key True r)"
  using assms find_key_line_inside [of "tl line" key r] by (cases line) (auto simp: strncmp_prefix)

lemma separator_unique:
  "c \<notin> set a \<Longrightarrow> c \<notin> set b \<Longrightarrow> a @ c # v = b @ c # w \<Longrightarrow> a = b \<and> v = w"
  by (auto simp: append_eq_append_conv2 Cons_eq_append_conv append_eq_Cons_conv)

lemma setting_line_starts:
  assumes "CHR ''='' \<notin> set k" and "CHR ''='' \<notin> set key"
  shows "starts_with (setting_line (k, v) @ r) (key @ ''='') \<longleftrightarrow> k = key"
  using separator_unique [OF assms] by (auto simp: starts_with_iff setting_line_def)

lemma find_key_line_config:
  assumes "settings_ok ls" and "CHR ''='' \<notin> set key"
  shows "(case map_of ls key of
      None \<Rightarrow> find_key_line (key @ ''='') True (config_text ls) = None
    | Some v \<Rightarrow> \<exists>r. find_key_line (key @ ''='') True (config_text ls) = Some (v @ LF # r))"
  using assms(1)
proof (induction ls)
  case (Cons kv ls)
  obtain k v where kv: "kv = (k, v)" by (cases kv)
  have ok: "key_ok k" "value_ok v" "settings_ok ls" using Cons.prems by (simp_all add: settings_ok_def kv)
  have noLF: "LF \<notin> set (setting_line kv)" using ok by (simp add: kv setting_line_def key_ok_def value_ok_def)
  have starts: "starts_with (setting_line kv @ LF # config_text ls) (key @ ''='') \<longleftrightarrow> k = key"
    using setting_line_starts [OF _ assms(2)] ok(1) by (simp add: kv key_ok_def)
  show ?case
    using Cons.IH [OF ok(3)] find_key_line_step [OF noLF, of "key @ ''=''" "config_text ls"] starts
    by (auto simp: config_text_def kv setting_line_def split: option.splits)
qed (simp add: config_text_def)

lemma conf_extract_config:
  assumes "settings_ok ls" and "CHR ''='' \<notin> set key"
  shows "conf_extract (config_text ls) (key @ ''='') n =
    (case map_of ls key of None \<Rightarrow> None | Some v \<Rightarrow> if length v < n then Some v else None)"
proof (cases "map_of ls key")
  case None
  then show ?thesis using find_key_line_config [OF assms] by (simp add: conf_extract_def)
next
  case (Some v)
  then obtain r where r: "find_key_line (key @ ''='') True (config_text ls) = Some (v @ LF # r)"
    using find_key_line_config [OF assms] by auto
  have v: "value_ok v" using map_of_SomeD [OF Some] assms(1) by (auto simp: settings_ok_def list_all_iff)
  have first: "c_at (v @ LF # r) 0 \<noteq> CHR 0x22" "c_at (v @ LF # r) 0 \<noteq> CHR 0x27"
    using v by (cases v; simp add: value_ok_def)+
  have "takeWhile (\<lambda>c. c \<noteq> LF) (v @ LF # r) = v"
    using v by (simp add: value_ok_def takeWhile_tail takeWhile_absent)
  then show ?thesis using v first Some by (simp add: conf_extract_def r Let_def value_ok_def)
qed

text \<open>What a setting does to a field of the configuration.\<close>

definition set_field :: "(string \<times> string) list \<Rightarrow> string \<Rightarrow> nat \<Rightarrow> string \<Rightarrow> string" where
  "set_field ls key n old =
     (case map_of ls key of
        None \<Rightarrow> old | Some v \<Rightarrow> if length v < CONF_PATH_MAX then take (n - 1) v else old)"

lemma overlay_config:
  assumes "settings_ok ls" and "CHR ''='' \<notin> set key" and "n \<le> CONF_PATH_MAX"
  shows "overlay (config_text ls) (key @ ''='') n old = set_field ls key n old"
  using assms(3) conf_extract_config [OF assms(1,2), of CONF_PATH_MAX]
  by (auto simp: overlay_def set_field_def snprintf_def split: option.splits)

lemma config_text_no_NUL: "settings_ok ls \<Longrightarrow> c_str (config_text ls) = config_text ls"
proof -
  assume "settings_ok ls"
  then have "NUL \<notin> set (config_text ls)"
    by (induction ls) (auto simp: settings_ok_def config_text_def setting_line_def key_ok_def value_ok_def)
  then show ?thesis by (simp add: c_str_def takeWhile_absent)
qed



end
