(* ===== verification/Json.thy ===== *)
theory Json
  imports Http
begin

text \<open>
  The JSON parser and writer (\<^verbatim>\<open>src/src/json.c\<close>). A number is a C \<open>double\<close>: its type is a parameter
  \<open>'n\<close>, and so are the conversions of the C library the code calls on it (\<open>strtod\<close>, the test whether
  it is a whole \<open>long long\<close>, and \<open>%.2f\<close>). The parser runs on the bytes between \<open>p\<close> and \<open>end\<close>;
  memory is assumed to be available. A string is what a C function reads of the parsed buffer, so an
  escaped NUL ends it.
\<close>

section \<open>Values\<close>

datatype 'n json_value =
    JSON_NULL
  | JSON_BOOL bool
  | JSON_NUMBER 'n
  | JSON_STRING string
  | JSON_ARRAY "'n json_value list"
  | JSON_OBJECT "(string \<times> 'n json_value) list"

definition json_object_get :: "'n json_value option \<Rightarrow> string \<Rightarrow> 'n json_value option" where
  "json_object_get obj key =
     (case obj of Some (JSON_OBJECT members) \<Rightarrow> map_of members key | _ \<Rightarrow> None)"

definition json_as_string :: "'n json_value option \<Rightarrow> string option" where
  "json_as_string v = (case v of Some (JSON_STRING s) \<Rightarrow> Some s | _ \<Rightarrow> None)"

definition json_as_number :: "'n \<Rightarrow> 'n json_value option \<Rightarrow> 'n" where
  "json_as_number zero v = (case v of Some (JSON_NUMBER n) \<Rightarrow> n | _ \<Rightarrow> zero)"

section \<open>Parsing\<close>

text \<open>
  The result of a recursive call: the recursion is bounded by fuel, which the theorem
  \<open>json_parse_terminates\<close> shows never to run out; \<open>Failed\<close> is a null pointer.
\<close>

datatype 'a parse_result = Fuel_Out | Failed | Parsed 'a string

definition json_ws :: "char \<Rightarrow> bool" where
  "json_ws c \<longleftrightarrow> c = CHR '' '' \<or> c = TAB \<or> c = LF \<or> c = CR"

definition skip_ws :: "string \<Rightarrow> string" where
  "skip_ws p = dropWhile json_ws p"

text \<open>The four digits of \<open>\u\<close>, read as one byte.\<close>

definition hex4 :: "char \<Rightarrow> char \<Rightarrow> char \<Rightarrow> char \<Rightarrow> char option" where
  "hex4 a b c d =
     (if hexval a < 0 \<or> hexval b < 0 \<or> hexval c < 0 \<or> hexval d < 0 then None
      else (let cp = nat (((hexval a * 16 + hexval b) * 16 + hexval c) * 16 + hexval d)
            in if cp > 255 then None else Some (char_of cp)))"

definition simple_escape :: "char \<Rightarrow> char option" where
  "simple_escape e =
     (if e = CHR 0x22 then Some (CHR 0x22)
      else if e = CHR 0x5C then Some (CHR 0x5C)
      else if e = CHR ''/'' then Some (CHR ''/'')
      else if e = CHR ''n'' then Some LF
      else if e = CHR ''t'' then Some TAB
      else if e = CHR ''r'' then Some CR
      else if e = CHR ''b'' then Some (CHR 0x08)
      else if e = CHR ''f'' then Some (CHR 0x0C)
      else None)"

text \<open>The loop to the closing quote: the bytes collected and what follows the quote.\<close>

fun string_body :: "string \<Rightarrow> (bytes \<times> string) option" where
  "string_body [] = None"
| "string_body (c # cs) =
     (if c = CHR 0x22 then Some ([], cs)
      else if c = CHR 0x5C then
        (case cs of
           [] \<Rightarrow> None
         | e # r \<Rightarrow>
             if e = CHR ''u'' then
               (case r of
                  h1 # h2 # h3 # h4 # r' \<Rightarrow>
                    (case hex4 h1 h2 h3 h4 of
                       None \<Rightarrow> None
                     | Some x \<Rightarrow> map_option (\<lambda>(b, rest). (x # b, rest)) (string_body r'))
                | _ \<Rightarrow> None)
             else
               (case simple_escape e of
                  None \<Rightarrow> None
                | Some x \<Rightarrow> map_option (\<lambda>(b, rest). (x # b, rest)) (string_body r)))
      else map_option (\<lambda>(b, rest). (c # b, rest)) (string_body cs))"

definition parse_string_raw :: "string \<Rightarrow> (string \<times> string) option" where
  "parse_string_raw p =
     (if p = [] \<or> hd p \<noteq> CHR 0x22 then None
      else map_option (\<lambda>(b, rest). (c_str b, rest)) (string_body (tl p)))"

text \<open>Where the number at \<open>p\<close> ends: sign, digits, fraction, exponent.\<close>

definition number_end :: "string \<Rightarrow> string" where
  "number_end p =
     (let digits = dropWhile c_isdigit;
          p1 = digits (if p \<noteq> [] \<and> hd p = CHR ''-'' then tl p else p);
          p2 = (if p1 \<noteq> [] \<and> hd p1 = CHR ''.'' then digits (tl p1) else p1)
      in if p2 \<noteq> [] \<and> (hd p2 = CHR ''e'' \<or> hd p2 = CHR ''E'')
         then (let p3 = tl p2
               in digits (if p3 \<noteq> [] \<and> (hd p3 = CHR ''+'' \<or> hd p3 = CHR ''-'') then tl p3 else p3))
         else p2)"

definition parse_number :: "(string \<Rightarrow> 'n) \<Rightarrow> string \<Rightarrow> 'n json_value parse_result" where
  "parse_number strtod p =
     (let rest = number_end p; n = length p - length rest
      in if n = 0 then Failed
         else if n \<ge> 64 then Failed
         else Parsed (JSON_NUMBER (strtod (take n p))) rest)"

definition parse_scalar :: "(string \<Rightarrow> 'n) \<Rightarrow> string \<Rightarrow> 'n json_value parse_result" where
  "parse_scalar strtod p =
     (let c = c_at p 0
      in if c = CHR 0x22 then
           (case parse_string_raw p of None \<Rightarrow> Failed | Some (s, rest) \<Rightarrow> Parsed (JSON_STRING s) rest)
         else if c = CHR ''t'' \<and> take 4 p = ''true'' then Parsed (JSON_BOOL True) (drop 4 p)
         else if c = CHR ''f'' \<and> take 5 p = ''false'' then Parsed (JSON_BOOL False) (drop 5 p)
         else if c = CHR ''n'' \<and> take 4 p = ''null'' then Parsed JSON_NULL (drop 4 p)
         else if c = CHR ''-'' \<or> c_isdigit c then parse_number strtod p
         else Failed)"

fun parse_value :: "(string \<Rightarrow> 'n) \<Rightarrow> nat \<Rightarrow> string \<Rightarrow> 'n json_value parse_result"
  and parse_items :: "(string \<Rightarrow> 'n) \<Rightarrow> nat \<Rightarrow> 'n json_value list \<Rightarrow> string \<Rightarrow> 'n json_value parse_result"
  and parse_members ::
    "(string \<Rightarrow> 'n) \<Rightarrow> nat \<Rightarrow> (string \<times> 'n json_value) list \<Rightarrow> string \<Rightarrow> 'n json_value parse_result"
where
  "parse_value strtod 0 p = Fuel_Out"
| "parse_value strtod (Suc k) p =
     (case skip_ws p of
        [] \<Rightarrow> Failed
      | c # cs \<Rightarrow>
          if c = CHR ''{'' then
            (if c_at (skip_ws cs) 0 = CHR ''}'' then Parsed (JSON_OBJECT []) (tl (skip_ws cs))
             else parse_members strtod k [] (skip_ws cs))
          else if c = CHR ''['' then
            (if c_at (skip_ws cs) 0 = CHR '']'' then Parsed (JSON_ARRAY []) (tl (skip_ws cs))
             else parse_items strtod k [] (skip_ws cs))
          else parse_scalar strtod (c # cs))"
| "parse_items strtod 0 items p = Fuel_Out"
| "parse_items strtod (Suc k) items p =
     (case parse_value strtod k p of
        Fuel_Out \<Rightarrow> Fuel_Out
      | Failed \<Rightarrow> Failed
      | Parsed v rest \<Rightarrow>
          (case skip_ws rest of
             [] \<Rightarrow> Failed
           | c # cs \<Rightarrow>
               if c = CHR '','' then parse_items strtod k (items @ [v]) (skip_ws cs)
               else if c = CHR '']'' then Parsed (JSON_ARRAY (items @ [v])) cs
               else Failed))"
| "parse_members strtod 0 members p = Fuel_Out"
| "parse_members strtod (Suc k) members p =
     (case parse_string_raw (skip_ws p) of
        None \<Rightarrow> Failed
      | Some (key, r1) \<Rightarrow>
          (case skip_ws r1 of
             [] \<Rightarrow> Failed
           | c # cs \<Rightarrow>
               if c \<noteq> CHR '':'' then Failed
               else
                 (case parse_value strtod k cs of
                    Fuel_Out \<Rightarrow> Fuel_Out
                  | Failed \<Rightarrow> Failed
                  | Parsed v rest \<Rightarrow>
                      (case skip_ws rest of
                         [] \<Rightarrow> Failed
                       | d # ds \<Rightarrow>
                           if d = CHR '','' then parse_members strtod k (members @ [(key, v)]) ds
                           else if d = CHR ''}'' then Parsed (JSON_OBJECT (members @ [(key, v)])) ds
                           else Failed))))"

definition parse_fuel :: "string \<Rightarrow> nat" where
  "parse_fuel p = 2 * length p + 2"

definition json_parse :: "(string \<Rightarrow> 'n) \<Rightarrow> string \<Rightarrow> 'n json_value option" where
  "json_parse strtod text =
     (case parse_value strtod (parse_fuel text) text of
        Parsed v rest \<Rightarrow> if skip_ws rest \<noteq> [] then None else Some v
      | _ \<Rightarrow> None)"

section \<open>Writing\<close>

datatype jw_container = JW_CONTAINER_OBJ | JW_CONTAINER_ARR

definition JW_MAX_DEPTH :: nat where
  "JW_MAX_DEPTH = 16"

text \<open>
  The arrays \<open>stack\<close> and \<open>has_item\<close> below \<open>depth\<close>, innermost container first; what they hold beyond it
  is never read, because opening a container writes both. Both arrays have \<open>JW_MAX_DEPTH\<close> places, which
  the code does not check: \<open>jw_overrun\<close> is set once it has written outside them.
\<close>

record json_writer =
  jw_buf :: bytes
  jw_stack :: "(jw_container \<times> bool) list"
  jw_overrun :: bool

definition jw_init :: json_writer where
  "jw_init = \<lparr>jw_buf = [], jw_stack = [], jw_overrun = False\<rparr>"

definition jw_free :: "json_writer \<Rightarrow> json_writer" where
  "jw_free w = w\<lparr>jw_buf := []\<rparr>"

definition jw_raw :: "json_writer \<Rightarrow> bytes \<Rightarrow> json_writer" where
  "jw_raw w s = w\<lparr>jw_buf := jw_buf w @ s\<rparr>"

definition hex_digit :: "nat \<Rightarrow> char" where
  "hex_digit n = (if n < 10 then char_of (48 + n) else char_of (87 + n))"

definition escape_char :: "char \<Rightarrow> string" where
  "escape_char c =
     (if c = CHR 0x22 then [CHR 0x5C, CHR 0x22]
      else if c = CHR 0x5C then [CHR 0x5C, CHR 0x5C]
      else if c = LF then [CHR 0x5C, CHR ''n'']
      else if c = TAB then [CHR 0x5C, CHR ''t'']
      else if c = CR then [CHR 0x5C, CHR ''r'']
      else if c = CHR 0x08 then [CHR 0x5C, CHR ''b'']
      else if c = CHR 0x0C then [CHR 0x5C, CHR ''f'']
      else if byte c < 32 then
        [CHR 0x5C, CHR ''u'', CHR ''0'', CHR ''0'', hex_digit (byte c div 16), hex_digit (byte c mod 16)]
      else [c])"

fun jw_escape_content :: "json_writer \<Rightarrow> string \<Rightarrow> json_writer" where
  "jw_escape_content w [] = w"
| "jw_escape_content w (c # s) = jw_escape_content (jw_raw w (escape_char c)) s"

definition jw_escaped_string :: "json_writer \<Rightarrow> string \<Rightarrow> json_writer" where
  "jw_escaped_string w s = jw_raw (jw_escape_content (jw_raw w [CHR 0x22]) s) [CHR 0x22]"

definition jw_raw_escaped_content :: "json_writer \<Rightarrow> string \<Rightarrow> json_writer" where
  "jw_raw_escaped_content w s = jw_escape_content w s"

definition jw_raw_text :: "json_writer \<Rightarrow> bytes \<Rightarrow> json_writer" where
  "jw_raw_text w s = jw_raw w s"

definition jw_value_prefix :: "json_writer \<Rightarrow> json_writer" where
  "jw_value_prefix w =
     (case jw_stack w of
        (JW_CONTAINER_ARR, has_item) # rest \<Rightarrow>
          (if has_item then jw_raw w '','' else w)\<lparr>jw_stack := (JW_CONTAINER_ARR, True) # rest\<rparr>
      | _ \<Rightarrow> w)"

definition jw_open :: "jw_container \<Rightarrow> string \<Rightarrow> json_writer \<Rightarrow> json_writer" where
  "jw_open kind bracket w =
     (let w1 = jw_raw (jw_value_prefix w) bracket
      in w1\<lparr>jw_stack := (kind, False) # jw_stack w1,
            jw_overrun := (jw_overrun w1 \<or> length (jw_stack w1) \<ge> JW_MAX_DEPTH)\<rparr>)"

definition jw_close :: "string \<Rightarrow> json_writer \<Rightarrow> json_writer" where
  "jw_close bracket w = jw_raw (w\<lparr>jw_stack := tl (jw_stack w)\<rparr>) bracket"

definition jw_obj_open :: "json_writer \<Rightarrow> json_writer" where
  "jw_obj_open w = jw_open JW_CONTAINER_OBJ ''{'' w"

definition jw_obj_close :: "json_writer \<Rightarrow> json_writer" where
  "jw_obj_close w = jw_close ''}'' w"

definition jw_arr_open :: "json_writer \<Rightarrow> json_writer" where
  "jw_arr_open w = jw_open JW_CONTAINER_ARR ''['' w"

definition jw_arr_close :: "json_writer \<Rightarrow> json_writer" where
  "jw_arr_close w = jw_close '']'' w"

definition jw_key :: "json_writer \<Rightarrow> string \<Rightarrow> json_writer" where
  "jw_key w key =
     (let w1 = (case jw_stack w of
                  (kind, has_item) # rest \<Rightarrow>
                    (if has_item then jw_raw w '','' else w)\<lparr>jw_stack := (kind, True) # rest\<rparr>
                | [] \<Rightarrow> w)
      in jw_raw (jw_escaped_string w1 key) '':'')"

definition jw_str :: "json_writer \<Rightarrow> string \<Rightarrow> json_writer" where
  "jw_str w s = jw_escaped_string (jw_value_prefix w) s"

definition jw_int :: "json_writer \<Rightarrow> int \<Rightarrow> json_writer" where
  "jw_int w v = jw_raw (jw_value_prefix w) (int_dec v)"

definition jw_num :: "('n \<Rightarrow> string) \<Rightarrow> json_writer \<Rightarrow> 'n \<Rightarrow> json_writer" where
  "jw_num fmt2f w v = jw_raw (jw_value_prefix w) (snprintf 32 (fmt2f v))"

definition jw_bool :: "json_writer \<Rightarrow> bool \<Rightarrow> json_writer" where
  "jw_bool w b = jw_raw (jw_value_prefix w) (if b then ''true'' else ''false'')"

definition jw_null :: "json_writer \<Rightarrow> json_writer" where
  "jw_null w = jw_raw (jw_value_prefix w) ''null''"

text \<open>\<open>as_int\<close> is the whole number a double is, if it is one and fits a \<open>long long\<close>.\<close>

fun jw_value :: "('n \<Rightarrow> int option) \<Rightarrow> ('n \<Rightarrow> string) \<Rightarrow> json_writer \<Rightarrow> 'n json_value \<Rightarrow> json_writer"
  and jw_items :: "('n \<Rightarrow> int option) \<Rightarrow> ('n \<Rightarrow> string) \<Rightarrow> json_writer \<Rightarrow> 'n json_value list \<Rightarrow> json_writer"
  and jw_members ::
    "('n \<Rightarrow> int option) \<Rightarrow> ('n \<Rightarrow> string) \<Rightarrow> json_writer \<Rightarrow> (string \<times> 'n json_value) list \<Rightarrow> json_writer"
where
  "jw_value as_int fmt2f w JSON_NULL = jw_null w"
| "jw_value as_int fmt2f w (JSON_BOOL b) = jw_bool w b"
| "jw_value as_int fmt2f w (JSON_NUMBER n) =
     (case as_int n of Some i \<Rightarrow> jw_int w i | None \<Rightarrow> jw_num fmt2f w n)"
| "jw_value as_int fmt2f w (JSON_STRING s) = jw_str w s"
| "jw_value as_int fmt2f w (JSON_ARRAY vs) = jw_arr_close (jw_items as_int fmt2f (jw_arr_open w) vs)"
| "jw_value as_int fmt2f w (JSON_OBJECT ms) = jw_obj_close (jw_members as_int fmt2f (jw_obj_open w) ms)"
| "jw_items as_int fmt2f w [] = w"
| "jw_items as_int fmt2f w (v # vs) = jw_items as_int fmt2f (jw_value as_int fmt2f w v) vs"
| "jw_members as_int fmt2f w [] = w"
| "jw_members as_int fmt2f w ((k, v) # ms) =
     jw_members as_int fmt2f (jw_value as_int fmt2f (jw_key w k) v) ms"

end
