(* ===== verification/Json_Props.thy ===== *)
theory Json_Props
  imports Json
begin

text \<open>
  The parser always finishes, and it reads back what the writer wrote: the text of a value is defined
  by recursion on the value, the writer's calls are shown to append exactly that text, and the parser
  to return the value from it.
\<close>

section \<open>Strings\<close>

definition escape :: "string \<Rightarrow> string" where
  "escape s = concat (map escape_char s)"

definition quoted :: "string \<Rightarrow> string" where
  "quoted s = CHR 0x22 # escape s @ [CHR 0x22]"

lemma jw_raw_raw [simp]: "jw_raw (jw_raw w s) t = jw_raw w (s @ t)"
  by (simp add: jw_raw_def)

lemma jw_raw_Nil [simp]: "jw_raw w [] = w"
  by (simp add: jw_raw_def)

lemma jw_escape_content_eq: "jw_escape_content w s = jw_raw w (escape s)"
  by (induction s arbitrary: w) (simp_all add: escape_def)

lemma jw_escaped_string_eq [simp]: "jw_escaped_string w s = jw_raw w (quoted s)"
  by (simp add: jw_escaped_string_def jw_escape_content_eq quoted_def)

lemma hexval_hex_digit: "n < 16 \<Longrightarrow> hexval (hex_digit n) = int n"
  by (auto simp: hexval_def hex_digit_def byte_def)

lemma hex4_control:
  assumes "byte c < 32"
  shows "hex4 (CHR ''0'') (CHR ''0'') (hex_digit (byte c div 16)) (hex_digit (byte c mod 16)) = Some c"
proof -
  have digits: "hexval (hex_digit (byte c div 16)) = int (byte c div 16)" "hexval (hex_digit (byte c mod 16)) = int (byte c mod 16)"
    using assms by (simp_all add: hexval_hex_digit)
  have zero: "hexval (CHR ''0'') = 0" by (simp add: hexval_def byte_def)
  have "int (byte c div 16) * 16 + int (byte c mod 16) = int (byte c)"
    by (metis div_mult_mod_eq of_nat_add of_nat_mult of_nat_numeral)
  moreover have "char_of (byte c) = c" by (simp add: byte_def)
  ultimately show ?thesis using assms by (simp add: hex4_def digits zero)
qed

lemma string_body_escape_char:
  "string_body (escape_char c @ t) = map_option (\<lambda>(b, rest). (c # b, rest)) (string_body t)"
proof (cases "c = CHR 0x22 \<or> c = CHR 0x5C \<or> c = LF \<or> c = TAB \<or> c = CR \<or> c = CHR 0x08 \<or> c = CHR 0x0C")
  case True
  then show ?thesis by (elim disjE) (simp_all add: escape_char_def simple_escape_def)
next
  case False
  then show ?thesis
  proof (cases "byte c < 32")
    case True
    have "escape_char c = [CHR 0x5C, CHR ''u'', CHR ''0'', CHR ''0'', hex_digit (byte c div 16), hex_digit (byte c mod 16)]"
      using False True by (simp add: escape_char_def)
    then show ?thesis using hex4_control [OF True] by simp
  qed (use False in \<open>simp add: escape_char_def\<close>)
qed

lemma string_body_escape: "string_body (escape s @ CHR 0x22 # rest) = Some (s, rest)"
  by (induction s) (simp_all add: escape_def string_body_escape_char)

lemma parse_string_quoted: "NUL \<notin> set s \<Longrightarrow> parse_string_raw (quoted s @ rest) = Some (s, rest)"
  using string_body_escape [of s rest]
  by (simp add: parse_string_raw_def quoted_def c_str_def takeWhile_absent)

section \<open>The text of a value\<close>

fun commas :: "string list \<Rightarrow> string" where
  "commas [] = ''''"
| "commas [s] = s"
| "commas (s # t # ts) = s @ '','' @ commas (t # ts)"

fun render :: "('n \<Rightarrow> int option) \<Rightarrow> ('n \<Rightarrow> string) \<Rightarrow> 'n json_value \<Rightarrow> string" where
  "render ai ff JSON_NULL = ''null''"
| "render ai ff (JSON_BOOL b) = (if b then ''true'' else ''false'')"
| "render ai ff (JSON_NUMBER n) = (case ai n of Some i \<Rightarrow> int_dec i | None \<Rightarrow> snprintf 32 (ff n))"
| "render ai ff (JSON_STRING s) = quoted s"
| "render ai ff (JSON_ARRAY vs) = ''['' @ commas (map (render ai ff) vs) @ '']''"
| "render ai ff (JSON_OBJECT ms) = ''{'' @ commas (map (\<lambda>(k, v). quoted k @ '':'' @ render ai ff v) ms) @ ''}''"

lemma commas_Cons: "commas (s # ts) = s @ (if ts = [] then '''' else '','' @ commas ts)"
  by (cases ts) simp_all

text \<open>How deep the containers of a value nest.\<close>

fun json_depth :: "'n json_value \<Rightarrow> nat" where
  "json_depth (JSON_ARRAY vs) = Suc (foldr max (map json_depth vs) 0)"
| "json_depth (JSON_OBJECT ms) = Suc (foldr max (map (\<lambda>(k, v). json_depth v) ms) 0)"
| "json_depth v = 0"

text \<open>A writer after \<open>d\<close> more containers have been opened, one in the other, and closed again.\<close>

definition jw_deep :: "nat \<Rightarrow> json_writer \<Rightarrow> json_writer" where
  "jw_deep d w = w\<lparr>jw_overrun := (jw_overrun w \<or> d \<noteq> 0 \<and> length (jw_stack w) + d > JW_MAX_DEPTH)\<rparr>"

lemma jw_deep_simps [simp]:
  "jw_deep 0 w = w" "jw_buf (jw_deep d w) = jw_buf w" "jw_stack (jw_deep d w) = jw_stack w"
  "jw_deep b (jw_deep a w) = jw_deep (max a b) w"
  by (auto simp: jw_deep_def max_def intro!: arg_cong [where f = "\<lambda>x. w\<lparr>jw_overrun := x\<rparr>"])

lemma jw_deep_raw: "jw_raw (jw_deep d w) s = jw_deep d (jw_raw w s)"
  by (simp add: jw_deep_def jw_raw_def)

text \<open>What a list of texts adds to an open container.\<close>

definition jw_elements :: "json_writer \<Rightarrow> string list \<Rightarrow> json_writer" where
  "jw_elements w ts =
     (case jw_stack w of
        (kind, has_item) # rest \<Rightarrow>
          (jw_raw w (if ts = [] then '''' else (if has_item then '','' else '''') @ commas ts))
            \<lparr>jw_stack := (kind, has_item \<or> ts \<noteq> []) # rest\<rparr>
      | [] \<Rightarrow> w)"

lemma jw_stack_raw [simp]: "jw_stack (jw_raw w s) = jw_stack w"
  by (simp add: jw_raw_def)

lemma jw_stack_update_raw: "(jw_raw w s)\<lparr>jw_stack := x\<rparr> = jw_raw (w\<lparr>jw_stack := x\<rparr>) s"
  by (simp add: jw_raw_def)

lemma jw_elements_Nil: "jw_stack w \<noteq> [] \<Longrightarrow> jw_elements w [] = w"
  by (cases w) (auto simp: jw_elements_def neq_Nil_conv)

lemma jw_elements_array:
  "jw_stack w = (JW_CONTAINER_ARR, h) # rest \<Longrightarrow> jw_elements w [t] = jw_raw (jw_value_prefix w) t"
  by (simp add: jw_elements_def jw_value_prefix_def jw_stack_update_raw)

lemma jw_elements_append:
  "jw_stack w \<noteq> [] \<Longrightarrow> jw_elements (jw_elements w [t]) ts = jw_elements w (t # ts)"
  by (auto simp: neq_Nil_conv jw_elements_def jw_stack_update_raw commas_Cons)

lemma jw_elements_stack:
  "jw_stack w = (kind, h) # rest \<Longrightarrow> \<exists>h'. jw_stack (jw_elements w ts) = (kind, h') # rest"
  by (simp add: jw_elements_def)

lemma jw_elements_deep: "jw_elements (jw_deep d w) ts = jw_deep d (jw_elements w ts)"
  by (auto simp: jw_elements_def jw_deep_def jw_raw_def split: list.split)

lemma jw_prefix_depth [simp]: "length (jw_stack (jw_value_prefix w)) = length (jw_stack w)"
  by (auto simp: jw_value_prefix_def split: list.split jw_container.split)

lemma jw_key_depth [simp]: "length (jw_stack (jw_key w k)) = length (jw_stack w)"
  by (auto simp: jw_key_def Let_def split: list.split)

lemma jw_key_value:
  assumes "jw_stack w = (JW_CONTAINER_OBJ, h) # rest"
  shows "jw_raw (jw_value_prefix (jw_key w k)) t = jw_elements w [quoted k @ '':'' @ t]"
  using assms by (simp add: jw_key_def jw_value_prefix_def jw_elements_def jw_stack_update_raw)

lemma jw_close_open:
  "jw_close b (jw_deep d (jw_elements (jw_open kind a w) ts)) = jw_deep (Suc d) (jw_raw (jw_value_prefix w) (a @ commas ts @ b))"
  by (cases "jw_value_prefix w")
    (auto simp: jw_close_def jw_open_def jw_elements_def jw_raw_def jw_deep_def Let_def)

lemma jw_value_render:
  "jw_value ai ff w v = jw_deep (json_depth v) (jw_raw (jw_value_prefix w) (render ai ff v))"
  "jw_stack w = (JW_CONTAINER_ARR, h) # rest \<Longrightarrow>
     jw_items ai ff w vs = jw_deep (foldr max (map json_depth vs) 0) (jw_elements w (map (render ai ff) vs))"
  "jw_stack w = (JW_CONTAINER_OBJ, h) # rest \<Longrightarrow>
     jw_members ai ff w ms = jw_deep (foldr max (map (\<lambda>(k, v). json_depth v) ms) 0)
       (jw_elements w (map (\<lambda>(k, v). quoted k @ '':'' @ render ai ff v) ms))"
proof (induction ai ff w v and ai ff w vs and ai ff w ms arbitrary: and h rest and h rest
    rule: jw_value_jw_items_jw_members.induct)
  case (5 ai ff w vs)
  have "jw_stack (jw_arr_open w) = (JW_CONTAINER_ARR, False) # jw_stack (jw_value_prefix w)"
    by (simp add: jw_arr_open_def jw_open_def Let_def)
  from "5.IH" [OF this] show ?case by (simp add: jw_arr_open_def jw_arr_close_def jw_close_open)
next
  case (6 ai ff w ms)
  have "jw_stack (jw_obj_open w) = (JW_CONTAINER_OBJ, False) # jw_stack (jw_value_prefix w)"
    by (simp add: jw_obj_open_def jw_open_def Let_def)
  from "6.IH" [OF this] show ?case by (simp add: jw_obj_open_def jw_obj_close_def jw_close_open)
next
  case (8 ai ff w v vs)
  have val: "jw_value ai ff w v = jw_deep (json_depth v) (jw_elements w [render ai ff v])"
    using "8.IH"(1) jw_elements_array [OF "8.prems"] by simp
  obtain h' where "jw_stack (jw_elements w [render ai ff v]) = (JW_CONTAINER_ARR, h') # rest"
    using jw_elements_stack [OF "8.prems"] by blast
  then show ?case using "8.IH"(2) [of h' rest] val "8.prems" by (simp add: jw_elements_append jw_elements_deep)
next
  case (10 ai ff w k v ms)
  have val: "jw_value ai ff (jw_key w k) v = jw_deep (json_depth v) (jw_elements w [quoted k @ '':'' @ render ai ff v])"
    using "10.IH"(1) jw_key_value [OF "10.prems"] by simp
  obtain h' where "jw_stack (jw_elements w [quoted k @ '':'' @ render ai ff v]) = (JW_CONTAINER_OBJ, h') # rest"
    using jw_elements_stack [OF "10.prems"] by blast
  then show ?case using "10.IH"(2) [of h' rest] val "10.prems" by (simp add: jw_elements_append jw_elements_deep)
qed (auto simp: jw_null_def jw_bool_def jw_str_def jw_int_def jw_num_def jw_elements_Nil split: option.splits)

lemma jw_overrun_iff: "jw_overrun (jw_value ai ff jw_init v) \<longleftrightarrow> JW_MAX_DEPTH < json_depth v"
  by (auto simp: jw_value_render jw_init_def jw_value_prefix_def jw_raw_def jw_deep_def)

section \<open>The parser finishes\<close>

lemma length_skip_ws: "length (skip_ws p) \<le> length p"
  by (simp add: skip_ws_def length_dropWhile_le)

lemma skip_ws_Cons: "skip_ws p = c # cs \<Longrightarrow> length cs < length p"
  using length_skip_ws [of p] by simp

lemma string_body_shorter: "string_body p = Some (b, r) \<Longrightarrow> length r < length p"
proof (induction p arbitrary: b r rule: string_body.induct)
  case (2 c cs)
  show ?case
  proof (cases "c = CHR 0x22 \<or> c \<noteq> CHR 0x5C")
    case True
    then show ?thesis using 2 by (auto split: if_splits dest: "2.IH"(3))
  next
    case False
    then obtain e q where cs: "cs = e # q" using "2.prems" by (auto split: list.splits)
    show ?thesis
    proof (cases "e = CHR ''u''")
      case True
      then obtain h1 h2 h3 h4 q' x b' where "q = h1 # h2 # h3 # h4 # q'" "hex4 h1 h2 h3 h4 = Some x" "string_body q' = Some (b', r)"
        using False cs "2.prems" by (auto split: list.splits option.splits)
      then show ?thesis using "2.IH"(1) False cs True by fastforce
    next
      case u: False
      then obtain x b' where "simple_escape e = Some x" "string_body q = Some (b', r)"
        using False cs "2.prems" by (auto split: option.splits)
      then show ?thesis using "2.IH"(2) False cs u by fastforce
    qed
  qed
qed simp

lemma parse_string_shorter: "parse_string_raw p = Some (s, r) \<Longrightarrow> length r < length p"
  by (cases p) (auto simp: parse_string_raw_def split: if_splits dest!: string_body_shorter)

lemma parse_number_shorter: "parse_number strtod p = Parsed v r \<Longrightarrow> length r < length p"
  by (auto simp: parse_number_def Let_def split: if_splits)

lemma parse_scalar_shorter:
  assumes "parse_scalar strtod p = Parsed v r" and "p \<noteq> []"
  shows "length r < length p"
proof -
  consider s where "parse_string_raw p = Some (s, r)" | n where "r = drop (Suc n) p" | "parse_number strtod p = Parsed v r"
    using assms(1) unfolding parse_scalar_def Let_def
    by (simp only: split: if_split_asm option.split_asm prod.split_asm) (auto simp: numeral_eq_Suc)
  then show ?thesis
    by cases (use assms(2) in \<open>auto dest: parse_string_shorter parse_number_shorter\<close>)
qed

lemma parse_scalar_fuel: "parse_scalar strtod p \<noteq> Fuel_Out"
  by (simp add: parse_scalar_def parse_number_def Let_def split: option.split)

lemma tl_skip_ws: "c_at (skip_ws p) 0 \<noteq> NUL \<Longrightarrow> length (tl (skip_ws p)) < length p"
  using length_skip_ws [of p] by (cases "skip_ws p") simp_all

lemma parse_shorter:
  "parse_value strtod k p = Parsed v r \<Longrightarrow> length r < length p"
  "parse_items strtod k vs p = Parsed v r \<Longrightarrow> length r < length p"
  "parse_members strtod k ms p = Parsed v r \<Longrightarrow> length r < length p"
proof (induction strtod k p and strtod k vs p and strtod k ms p arbitrary: v r and v r and v r
    rule: parse_value_parse_items_parse_members.induct)
  case (2 strtod k p)
  obtain c cs where c: "skip_ws p = c # cs" using "2.prems" by (auto split: list.splits)
  note len = skip_ws_Cons [OF c]
  note val = "2.prems" [unfolded parse_value.simps c list.case]
  consider (obj) "c = CHR ''{''" | (arr) "c \<noteq> CHR ''{''" "c = CHR ''[''" | (scalar) "c \<noteq> CHR ''{''" "c \<noteq> CHR ''[''"
    by blast
  then show ?case
  proof cases
    case obj
    show ?thesis
    proof (cases "c_at (skip_ws cs) 0 = CHR ''}''")
      case True
      then show ?thesis using val obj len tl_skip_ws [of cs] by simp
    next
      case False
      then show ?thesis using val obj len "2.IH"(1) [OF c obj False] length_skip_ws [of cs] by fastforce
    qed
  next
    case arr
    show ?thesis
    proof (cases "c_at (skip_ws cs) 0 = CHR '']''")
      case True
      then show ?thesis using val arr len tl_skip_ws [of cs] by simp
    next
      case False
      then show ?thesis using val arr len "2.IH"(2) [OF c arr False] length_skip_ws [of cs] by fastforce
    qed
  next
    case scalar
    then have "length r < length (c # cs)" using val parse_scalar_shorter [of strtod "c # cs"] by simp
    then show ?thesis using length_skip_ws [of p] c by simp
  qed
next
  case (4 strtod k vs p)
  then obtain w rest where w: "parse_value strtod k p = Parsed w rest" by (auto split: parse_result.splits)
  then obtain c cs where c: "skip_ws rest = c # cs" using "4.prems" by (auto split: list.splits)
  have lt: "length cs < length p" using "4.IH"(1) [OF w] skip_ws_Cons [OF c] by simp
  show ?case
    using "4.prems" "4.IH"(2) [OF w c] lt length_skip_ws [of cs] by (fastforce simp: w c split: if_splits)
next
  case (6 strtod k ms p)
  then obtain key r1 where key: "parse_string_raw (skip_ws p) = Some (key, r1)" by (auto split: option.splits)
  then obtain c cs where c: "skip_ws r1 = c # cs" using "6.prems" by (auto split: list.splits)
  then have colon: "\<not> c \<noteq> CHR '':''" using "6.prems" key by (auto split: if_splits)
  then obtain w rest where w: "parse_value strtod k cs = Parsed w rest"
    using "6.prems" key c by (auto split: parse_result.splits)
  then obtain d ds where d: "skip_ws rest = d # ds" using "6.prems" key c colon by (auto split: list.splits)
  have lt: "length ds < length p"
    using parse_string_shorter [OF key] skip_ws_Cons [OF c] "6.IH"(1) [OF key refl c colon w]
      skip_ws_Cons [OF d] length_skip_ws [of p] by simp
  show ?case
    using "6.prems" "6.IH"(2) [OF key refl c colon w d] lt by (fastforce simp: key c colon w d split: if_splits)
qed simp_all

text \<open>Fuel enough for the text never runs out, and more of it changes nothing.\<close>

lemma parse_fuel_enough:
  "2 * length p < k \<Longrightarrow> parse_value strtod k p \<noteq> Fuel_Out"
  "2 * length p + 1 < k \<Longrightarrow> parse_items strtod k vs p \<noteq> Fuel_Out"
  "2 * length p + 1 < k \<Longrightarrow> parse_members strtod k ms p \<noteq> Fuel_Out"
proof (induction strtod k p and strtod k vs p and strtod k ms p rule: parse_value_parse_items_parse_members.induct)
  case (2 strtod k p)
  show ?case
  proof (cases "skip_ws p")
    case (Cons c cs)
    have "2 * length (skip_ws cs) + 1 < k" using "2.prems" skip_ws_Cons [OF Cons] length_skip_ws [of cs] by simp
    then show ?thesis using "2.IH" [OF Cons] parse_scalar_fuel [of strtod "c # cs"] by (simp add: Cons)
  qed simp
next
  case (4 strtod k vs p)
  show ?case
  proof (cases "parse_value strtod k p")
    case (Parsed v rest)
    note lt = parse_shorter(1) [OF Parsed]
    show ?thesis
    proof (cases "skip_ws rest")
      case (Cons c cs)
      have "2 * length (skip_ws cs) + 1 < k"
        using "4.prems" lt skip_ws_Cons [OF Cons] length_skip_ws [of cs] by simp
      then show ?thesis using "4.IH"(2) [OF Parsed Cons] by (simp add: Parsed Cons)
    qed (simp add: Parsed)
  qed (use "4.IH"(1) "4.prems" in simp_all)
next
  case (6 strtod k ms p)
  show ?case
  proof (cases "parse_string_raw (skip_ws p)")
    case (Some kr)
    obtain key r1 where kr: "kr = (key, r1)" by (cases kr)
    note key = Some [unfolded kr]
    show ?thesis
    proof (cases "skip_ws r1")
      case (Cons c cs)
      have cs: "length cs + 1 < length p"
        using parse_string_shorter [OF key] skip_ws_Cons [OF Cons] length_skip_ws [of p] by simp
      show ?thesis
      proof (cases "c = CHR '':''")
        case True
        then have colon: "\<not> c \<noteq> CHR '':''" by simp
        note IH = "6.IH" [OF key refl Cons colon]
        show ?thesis
        proof (cases "parse_value strtod k cs")
          case (Parsed v rest)
          show ?thesis
          proof (cases "skip_ws rest")
            case Nil
            then show ?thesis by (simp add: key Cons Parsed)
          next
            fix d ds assume d: "skip_ws rest = d # ds"
            have "2 * length ds + 1 < k"
              using "6.prems" cs parse_shorter(1) [OF Parsed] skip_ws_Cons [OF d] by simp
            then show ?thesis using IH(2) [OF Parsed d] by (simp add: key Cons Parsed d)
          qed
        qed (use IH(1) "6.prems" cs in \<open>simp_all add: key Cons\<close>)
      qed (simp add: key Cons)
    qed (simp add: key)
  qed simp
qed simp_all

lemma parse_fuel_mono:
  "parse_value strtod k p \<noteq> Fuel_Out \<Longrightarrow> parse_value strtod (Suc k) p = parse_value strtod k p"
  "parse_items strtod k vs p \<noteq> Fuel_Out \<Longrightarrow> parse_items strtod (Suc k) vs p = parse_items strtod k vs p"
  "parse_members strtod k ms p \<noteq> Fuel_Out \<Longrightarrow> parse_members strtod (Suc k) ms p = parse_members strtod k ms p"
proof (induction strtod k p and strtod k vs p and strtod k ms p rule: parse_value_parse_items_parse_members.induct)
  case (2 strtod k p)
  show ?case
  proof (cases "skip_ws p")
    case (Cons c cs)
    show ?thesis
      using "2.prems" "2.IH" [OF Cons] unfolding parse_value.simps(2) Cons list.case
      by (simp del: parse_items.simps parse_members.simps cong: if_cong split: if_splits)
  qed simp
next
  case (4 strtod k vs p)
  show ?case
  proof (cases "parse_value strtod k p")
    case (Parsed v rest)
    then have more: "parse_value strtod (Suc k) p = Parsed v rest" using "4.IH"(1) by simp
    show ?thesis
    proof (cases "skip_ws rest")
      case (Cons c cs)
      show ?thesis
        using "4.prems" "4.IH"(2) [OF Parsed Cons]
        unfolding parse_items.simps(2) more Parsed parse_result.case Cons list.case
        by (cases "c = CHR '',''") (simp_all del: parse_items.simps)
    next
      case Nil
      then show ?thesis unfolding parse_items.simps(2) more Parsed parse_result.case by simp
    qed
  next
    case Failed
    then have "parse_value strtod (Suc k) p = Failed" using "4.IH"(1) by simp
    then show ?thesis unfolding parse_items.simps(2) Failed by simp
  qed (use "4.prems" in simp)
next
  case (6 strtod k ms p)
  show ?case
  proof (cases "parse_string_raw (skip_ws p)")
    case (Some kr)
    obtain key r1 where kr: "kr = (key, r1)" by (cases kr)
    note key = Some [unfolded kr]
    show ?thesis
    proof (cases "skip_ws r1")
      case (Cons c cs)
      show ?thesis
      proof (cases "c = CHR '':''")
        case True
        then have colon: "\<not> c \<noteq> CHR '':''" by simp
        note IH = "6.IH" [OF key refl Cons colon]
        show ?thesis
        proof (cases "parse_value strtod k cs")
          case (Parsed v rest)
          then have more: "parse_value strtod (Suc k) cs = Parsed v rest" using IH(1) by simp
          show ?thesis
          proof (cases "skip_ws rest")
            case Nil
            then show ?thesis
              unfolding parse_members.simps(2) key option.case prod.case Cons list.case more Parsed parse_result.case by simp
          next
            fix d ds assume d: "skip_ws rest = d # ds"
            show ?thesis
              using "6.prems" IH(2) [OF Parsed d] True
              unfolding parse_members.simps(2) key option.case prod.case Cons list.case more Parsed parse_result.case d
              by (cases "d = CHR '',''") (simp_all del: parse_members.simps)
          qed
        next
          case Failed
          then have "parse_value strtod (Suc k) cs = Failed" using IH(1) by simp
          then show ?thesis
            unfolding parse_members.simps(2) key option.case prod.case Cons list.case Failed by simp
        qed (use "6.prems" key Cons True in simp)
      qed (simp add: key Cons)
    qed (simp add: key)
  qed simp
qed simp_all

lemma parse_fuel_more:
  "parse_value strtod k p \<noteq> Fuel_Out \<Longrightarrow> k \<le> m \<Longrightarrow> parse_value strtod m p = parse_value strtod k p"
proof (induction "m - k" arbitrary: m)
  case (Suc n)
  then obtain m' where m: "m = Suc m'" "k \<le> m'" "n = m' - k" by (cases m) auto
  then have "parse_value strtod m' p = parse_value strtod k p" using Suc by simp
  then show ?case using parse_fuel_mono(1) [of strtod m' p] Suc.prems(1) m by simp
qed simp

text \<open>
  C25. The parser terminates on every text: the fuel of \<open>json_parse\<close> does not run out, and any larger amount
  gives the same result, so the result is that of the recursion of the code.
\<close>

theorem json_parse_terminates:
  "parse_value strtod (parse_fuel p) p \<noteq> Fuel_Out
   \<and> parse_value strtod (parse_fuel p + extra) p = parse_value strtod (parse_fuel p) p"
  using parse_fuel_enough(1) [of p "parse_fuel p" strtod] parse_fuel_more [of strtod "parse_fuel p" p "parse_fuel p + extra"]
  by (simp add: parse_fuel_def)

section \<open>Reading back what was written\<close>

text \<open>What may follow a value: the end, or a character that cannot continue a number.\<close>

definition delimited :: "string \<Rightarrow> bool" where
  "delimited r \<longleftrightarrow>
     r = [] \<or> \<not> c_isdigit (hd r) \<and> hd r \<noteq> CHR ''.'' \<and> hd r \<noteq> CHR ''e'' \<and> hd r \<noteq> CHR ''E''"

text \<open>
  The values the writer keeps exactly: strings and keys without NUL, and whole numbers whose decimal
  text the C library reads back as the number it came from.
\<close>

fun json_exact :: "(string \<Rightarrow> 'n) \<Rightarrow> ('n \<Rightarrow> int option) \<Rightarrow> 'n json_value \<Rightarrow> bool" where
  "json_exact strtod ai JSON_NULL = True"
| "json_exact strtod ai (JSON_BOOL b) = True"
| "json_exact strtod ai (JSON_NUMBER n) =
     (case ai n of None \<Rightarrow> False | Some i \<Rightarrow> LONG_MIN \<le> i \<and> i \<le> LONG_MAX \<and> strtod (int_dec i) = n)"
| "json_exact strtod ai (JSON_STRING s) = (NUL \<notin> set s)"
| "json_exact strtod ai (JSON_ARRAY vs) = list_all (json_exact strtod ai) vs"
| "json_exact strtod ai (JSON_OBJECT ms) = list_all (\<lambda>(k, v). NUL \<notin> set k \<and> json_exact strtod ai v) ms"

lemma skip_ws_id: "p \<noteq> [] \<Longrightarrow> \<not> json_ws (hd p) \<Longrightarrow> skip_ws p = p"
  by (cases p) (simp_all add: skip_ws_def)

lemma digits_stop: "list_all c_isdigit ds \<Longrightarrow> delimited r \<Longrightarrow> dropWhile c_isdigit (ds @ r) = r"
  by (induction ds) (auto simp: delimited_def dropWhile_eq_self_iff)

lemma number_end_digits: "list_all c_isdigit ds \<Longrightarrow> ds \<noteq> [] \<Longrightarrow> delimited r \<Longrightarrow> number_end (ds @ r) = r"
proof -
  assume ds: "list_all c_isdigit ds" "ds \<noteq> []" and r: "delimited r"
  obtain d ds' where "ds = d # ds'" "c_isdigit d" using digits_head [OF ds] by blast
  then have "hd (ds @ r) \<noteq> CHR ''-''" using c_isdigit_not_sign by auto
  then show ?thesis using digits_stop [OF ds(1) r] r ds(2) by (cases r) (simp_all add: number_end_def Let_def delimited_def)
qed

lemma number_end_dec: "delimited r \<Longrightarrow> number_end (int_dec i @ r) = r"
proof (cases "i < 0")
  case True
  assume r: "delimited r"
  have "number_end (CHR ''-'' # nat_dec (nat (- i)) @ r) = number_end (nat_dec (nat (- i)) @ r)"
    using nat_dec_all_digits [of "nat (- i)"] c_isdigit_not_sign
    by (cases "nat_dec (nat (- i))") (auto simp: number_end_def Let_def)
  then show ?thesis using True number_end_digits [OF nat_dec_all_digits r] by (simp add: int_dec_def)
next
  case False
  assume "delimited r"
  then show ?thesis using False number_end_digits [OF nat_dec_all_digits] by (simp add: int_dec_def)
qed

lemma length_int_dec: "LONG_MIN \<le> i \<Longrightarrow> i \<le> LONG_MAX \<Longrightarrow> length (int_dec i) < 64 \<and> int_dec i \<noteq> []"
proof -
  assume "LONG_MIN \<le> i" "i \<le> LONG_MAX"
  then have "nat (- i) < 10 ^ 19" "nat i < 10 ^ 19" by (auto simp: LONG_MIN_def LONG_MAX_def)
  then have "length (nat_dec (nat (- i))) \<le> 19" "length (nat_dec (nat i)) \<le> 19"
    by (auto intro: length_nat_dec)
  then show ?thesis using nat_dec_all_digits(2) by (auto simp: int_dec_def)
qed

lemma int_dec_head: "\<exists>c cs. int_dec i = c # cs \<and> (c = CHR ''-'' \<or> c_isdigit c)"
  using digits_head [OF nat_dec_all_digits, of "nat i"] by (auto simp: int_dec_def)

text \<open>The first character of a value's text tells the parser what to do.\<close>

lemma render_head:
  assumes "json_exact strtod ai v"
  shows "\<exists>c cs. render ai ff v = c # cs \<and> \<not> json_ws c \<and> c \<noteq> CHR '']''"
proof (cases v)
  case (JSON_NUMBER n)
  then obtain i where "ai n = Some i" using assms by (auto split: option.splits)
  then show ?thesis using JSON_NUMBER int_dec_head [of i] c_isdigit_not_sign
    by (auto simp: json_ws_def c_isdigit_def byte_def)
qed (auto simp: json_ws_def quoted_def)

lemma parse_rendered_scalar:
  assumes "json_exact strtod ai v" and "delimited r" and "\<nexists>vs. v = JSON_ARRAY vs" and "\<nexists>ms. v = JSON_OBJECT ms"
  shows "parse_value strtod (Suc k) (render ai ff v @ r) = Parsed v r"
proof -
  obtain c cs where hd: "render ai ff v = c # cs" "\<not> json_ws c" using render_head [OF assms(1)] by blast
  have skip: "skip_ws (render ai ff v @ r) = c # cs @ r" using hd by (simp add: skip_ws_id)
  show ?thesis
  proof (cases v)
    case (JSON_STRING s)
    then have "parse_string_raw (c # cs @ r) = Some (s, r)"
      using parse_string_quoted [of s r] assms(1) hd by simp
    moreover have "c = CHR 0x22" using hd(1) JSON_STRING by (simp add: quoted_def)
    ultimately show ?thesis
      unfolding parse_value.simps skip list.case unfolding JSON_STRING by (simp add: parse_scalar_def)
  next
    case (JSON_NUMBER n)
    then obtain i where i: "ai n = Some i" "LONG_MIN \<le> i" "i \<le> LONG_MAX" "strtod (int_dec i) = n"
      using assms(1) by (auto split: option.splits)
    have cs: "int_dec i = c # cs" using hd JSON_NUMBER i by simp
    have c: "c = CHR ''-'' \<or> c_isdigit c" using int_dec_head [of i] cs by auto
    have num: "parse_number strtod (c # cs @ r) = Parsed v r"
      using number_end_dec [OF assms(2), of i] length_int_dec [OF i(2,3)] i(4) JSON_NUMBER cs
      by (simp add: parse_number_def Let_def)
    have "c \<noteq> CHR 0x22" "c \<noteq> CHR ''t''" "c \<noteq> CHR ''f''" "c \<noteq> CHR ''n''" "c \<noteq> CHR ''{''" "c \<noteq> CHR ''[''"
      using c by (auto simp: c_isdigit_def byte_def)
    then show ?thesis
      using c num unfolding parse_value.simps skip list.case by (simp add: parse_scalar_def)
  qed (use assms in \<open>auto simp: skip_ws_id json_ws_def parse_scalar_def\<close>)
qed

lemma parse_rendered_items:
  assumes "\<And>v k r. v \<in> set vs \<Longrightarrow> delimited r \<Longrightarrow> 2 * length (render ai ff v @ r) < k \<Longrightarrow>
      parse_value strtod k (render ai ff v @ r) = Parsed v r"
    and "list_all (json_exact strtod ai) vs" and "vs \<noteq> []"
    and "2 * length (commas (map (render ai ff) vs) @ CHR '']'' # r) + 1 < k"
  shows "parse_items strtod k acc (commas (map (render ai ff) vs) @ CHR '']'' # r) = Parsed (JSON_ARRAY (acc @ vs)) r"
  using assms
proof (induction vs arbitrary: k acc)
  case (Cons v vs)
  obtain k' where k: "k = Suc k'" using Cons.prems(4) by (cases k) auto
  show ?case
  proof (cases vs)
    case Nil
    have "parse_value strtod k' (render ai ff v @ CHR '']'' # r) = Parsed v (CHR '']'' # r)"
      by (rule Cons.prems(1)) (use Cons.prems(4) k Nil in \<open>simp_all add: delimited_def c_isdigit_def byte_def\<close>)
    moreover have "skip_ws (CHR '']'' # r) = CHR '']'' # r" by (simp add: skip_ws_id json_ws_def)
    ultimately show ?thesis by (simp add: k Nil)
  next
    case (Cons u us)
    note vs = this
    let ?rest = "commas (map (render ai ff) vs) @ CHR '']'' # r"
    have step: "commas (map (render ai ff) (v # vs)) @ CHR '']'' # r = render ai ff v @ CHR '','' # ?rest"
      by (simp add: vs)
    have "parse_value strtod k' (render ai ff v @ CHR '','' # ?rest) = Parsed v (CHR '','' # ?rest)"
      by (rule Cons.prems(1)) (use Cons.prems(4) k step in \<open>simp_all add: delimited_def c_isdigit_def byte_def\<close>)
    moreover have "skip_ws (CHR '','' # ?rest) = CHR '','' # ?rest" by (simp add: skip_ws_id json_ws_def)
    moreover have "skip_ws ?rest = ?rest"
    proof -
      obtain c cs where "render ai ff u = c # cs" "\<not> json_ws c"
        using render_head [of strtod ai u ff] Cons.prems(2) vs by auto
      then show ?thesis using vs by (simp add: commas_Cons skip_ws_id)
    qed
    moreover have "parse_items strtod k' (acc @ [v]) ?rest = Parsed (JSON_ARRAY ((acc @ [v]) @ vs)) r"
      by (rule Cons.IH) (use Cons.prems k step vs in \<open>simp_all\<close>)
    ultimately show ?thesis unfolding step by (simp add: k)
  qed
qed simp

lemma parse_rendered_members:
  assumes "\<And>key v k r. (key, v) \<in> set ms \<Longrightarrow> delimited r \<Longrightarrow> 2 * length (render ai ff v @ r) < k \<Longrightarrow>
      parse_value strtod k (render ai ff v @ r) = Parsed v r"
    and "list_all (\<lambda>(key, v). NUL \<notin> set key \<and> json_exact strtod ai v) ms" and "ms \<noteq> []"
    and "2 * length (commas (map (\<lambda>(key, v). quoted key @ '':'' @ render ai ff v) ms) @ CHR ''}'' # r) + 1 < k"
  shows "parse_members strtod k acc (commas (map (\<lambda>(key, v). quoted key @ '':'' @ render ai ff v) ms) @ CHR ''}'' # r)
    = Parsed (JSON_OBJECT (acc @ ms)) r"
  using assms
proof (induction ms arbitrary: k acc)
  case (Cons kv ms)
  obtain key v where kv: "kv = (key, v)" by (cases kv)
  obtain k' where k: "k = Suc k'" using Cons.prems(4) by (cases k) auto
  have nul: "NUL \<notin> set key" using Cons.prems(2) kv by simp
  have str: "parse_string_raw (skip_ws (quoted key @ t)) = Some (key, t)" for t
    using parse_string_quoted [OF nul, of t] by (simp add: quoted_def skip_ws_id json_ws_def)
  have colon: "skip_ws (CHR '':'' # t) = CHR '':'' # t" for t by (simp add: skip_ws_id json_ws_def)
  show ?case
  proof (cases ms)
    case Nil
    have "parse_value strtod k' (render ai ff v @ CHR ''}'' # r) = Parsed v (CHR ''}'' # r)"
      by (rule Cons.prems(1) [of key]) (use Cons.prems(4) k Nil kv in \<open>simp_all add: delimited_def c_isdigit_def byte_def\<close>)
    moreover have "skip_ws (CHR ''}'' # r) = CHR ''}'' # r" by (simp add: skip_ws_id json_ws_def)
    ultimately show ?thesis by (simp add: k kv Nil str colon)
  next
    case (Cons u us)
    note ms = this
    let ?rest = "commas (map (\<lambda>(key, v). quoted key @ '':'' @ render ai ff v) ms) @ CHR ''}'' # r"
    have step: "commas (map (\<lambda>(key, v). quoted key @ '':'' @ render ai ff v) (kv # ms)) @ CHR ''}'' # r
        = quoted key @ CHR '':'' # render ai ff v @ CHR '','' # ?rest"
      by (simp add: ms kv)
    have "parse_value strtod k' (render ai ff v @ CHR '','' # ?rest) = Parsed v (CHR '','' # ?rest)"
      by (rule Cons.prems(1) [of key]) (use Cons.prems(4) k step kv in \<open>simp_all add: delimited_def c_isdigit_def byte_def\<close>)
    moreover have "skip_ws (CHR '','' # ?rest) = CHR '','' # ?rest" by (simp add: skip_ws_id json_ws_def)
    moreover have "parse_members strtod k' (acc @ [(key, v)]) ?rest = Parsed (JSON_OBJECT ((acc @ [(key, v)]) @ ms)) r"
      by (rule Cons.IH) (use Cons.prems k step ms kv in \<open>auto\<close>)
    ultimately show ?thesis unfolding step by (simp add: k kv str colon)
  qed
qed simp

lemma parse_rendered:
  "json_exact strtod ai v \<Longrightarrow> delimited r \<Longrightarrow> 2 * length (render ai ff v @ r) < k \<Longrightarrow>
   parse_value strtod k (render ai ff v @ r) = Parsed v r"
proof (induction v arbitrary: k r)
  case (JSON_ARRAY vs)
  obtain k' where k: "k = Suc k'" using JSON_ARRAY.prems(3) by (cases k) auto
  have skip: "skip_ws (CHR ''['' # t) = CHR ''['' # t" for t by (simp add: skip_ws_id json_ws_def)
  show ?case
  proof (cases vs)
    case Nil
    have "skip_ws (CHR '']'' # r) = CHR '']'' # r" by (simp add: skip_ws_id json_ws_def)
    then show ?thesis by (simp add: k Nil skip)
  next
    case (Cons u us)
    let ?body = "commas (map (render ai ff) vs) @ CHR '']'' # r"
    obtain c cs where "render ai ff u = c # cs" "\<not> json_ws c" "c \<noteq> CHR '']''"
      using render_head [of strtod ai u ff] JSON_ARRAY.prems(1) Cons by auto
    then have body: "skip_ws ?body = ?body" "c_at ?body 0 \<noteq> CHR '']''"
      using Cons by (simp_all add: commas_Cons skip_ws_id)
    have "parse_items strtod k' [] ?body = Parsed (JSON_ARRAY ([] @ vs)) r"
      by (rule parse_rendered_items) (use JSON_ARRAY k Cons in \<open>auto simp: list_all_iff\<close>)
    then show ?thesis using body by (simp add: k skip)
  qed
next
  case (JSON_OBJECT ms)
  obtain k' where k: "k = Suc k'" using JSON_OBJECT.prems(3) by (cases k) auto
  have skip: "skip_ws (CHR ''{'' # t) = CHR ''{'' # t" for t by (simp add: skip_ws_id json_ws_def)
  show ?case
  proof (cases ms)
    case Nil
    have "skip_ws (CHR ''}'' # r) = CHR ''}'' # r" by (simp add: skip_ws_id json_ws_def)
    then show ?thesis by (simp add: k Nil skip)
  next
    case (Cons u us)
    let ?body = "commas (map (\<lambda>(key, v). quoted key @ '':'' @ render ai ff v) ms) @ CHR ''}'' # r"
    have body: "skip_ws ?body = ?body" "c_at ?body 0 \<noteq> CHR ''}''"
      using Cons by (cases u; simp add: commas_Cons skip_ws_id quoted_def json_ws_def)+
    have "parse_members strtod k' [] ?body = Parsed (JSON_OBJECT ([] @ ms)) r"
    proof (rule parse_rendered_members)
      fix key v k r
      assume "(key, v) \<in> set ms" and "delimited r" and "2 * length (render ai ff v @ r) < k"
      then show "parse_value strtod k (render ai ff v @ r) = Parsed v r"
        using JSON_OBJECT.IH [of "(key, v)" v r k] JSON_OBJECT.prems(1) by (auto simp: list_all_iff)
    qed (use JSON_OBJECT.prems k Cons in \<open>simp_all\<close>)
    then show ?thesis using body by (simp add: k skip)
  qed
next
  case (JSON_STRING s)
  then show ?case using parse_rendered_scalar [of strtod ai "JSON_STRING s" r "k - 1" ff] by (cases k) simp_all
next
  case (JSON_NUMBER n)
  then show ?case using parse_rendered_scalar [of strtod ai "JSON_NUMBER n" r "k - 1" ff] by (cases k) simp_all
next
  case (JSON_BOOL b)
  then show ?case using parse_rendered_scalar [of strtod ai "JSON_BOOL b" r "k - 1" ff] by (cases k) simp_all
next
  case JSON_NULL
  then show ?case using parse_rendered_scalar [of strtod ai JSON_NULL r "k - 1" ff] by (cases k) simp_all
qed

lemma json_parse_render: "json_exact strtod ai v \<Longrightarrow> json_parse strtod (render ai ff v) = Some v"
  using parse_rendered [of strtod ai v "[]" ff "parse_fuel (render ai ff v)"]
  by (simp add: json_parse_def parse_fuel_def delimited_def skip_ws_def)

text \<open>
  C24. What the writer writes the parser reads: a value whose strings hold no NUL and whose numbers are
  whole, written out by \<open>jw_value\<close> and parsed again, comes back unchanged; the writer stays within its arrays
  exactly when no more than \<open>JW_MAX_DEPTH\<close> containers of the value are open at once.
\<close>

theorem json_round_trip:
  assumes "json_exact strtod as_int v"
  shows "json_parse strtod (jw_buf (jw_value as_int fmt2f jw_init v)) = Some v
    \<and> (jw_overrun (jw_value as_int fmt2f jw_init v) \<longleftrightarrow> JW_MAX_DEPTH < json_depth v)"
  using json_parse_render [OF assms] jw_overrun_iff
  by (simp add: jw_value_render jw_init_def jw_value_prefix_def jw_raw_def)

text \<open>Whole numbers for doubles: \<open>strtod\<close> reads a decimal text of digits and a sign.\<close>

definition whole_strtod :: "string \<Rightarrow> int" where
  "whole_strtod s = (if c_at s 0 = CHR ''-'' then - dec_val (tl s) else dec_val s)"

lemma whole_strtod_dec: "whole_strtod (int_dec i) = i"
  using digits_head [OF nat_dec_all_digits, of "nat i"] c_isdigit_not_sign
  by (auto simp: whole_strtod_def int_dec_def)

theorem json_round_trip_witness:
  "json_parse whole_strtod (jw_buf (jw_value Some (\<lambda>_. '''') jw_init
      (JSON_OBJECT [(''a'', JSON_ARRAY [JSON_NUMBER (- 7), JSON_STRING ''q'', JSON_NULL])])))
   = Some (JSON_OBJECT [(''a'', JSON_ARRAY [JSON_NUMBER (- 7), JSON_STRING ''q'', JSON_NULL])])"
proof -
  have "json_exact whole_strtod Some (JSON_OBJECT [(''a'', JSON_ARRAY [JSON_NUMBER (- 7), JSON_STRING ''q'', JSON_NULL])])"
    by (simp add: whole_strtod_dec LONG_MIN_def LONG_MAX_def)
  then show ?thesis by (rule json_round_trip [THEN conjunct1])
qed

end
