(* ===== verification/Json_Numbers.thy ===== *)
theory Json_Numbers
  imports Json_Props
begin

text \<open>
  The parser treats numbers abstractly: whatever \<open>strtod\<close> does, the parsed tree is the tree of number
  texts with \<open>strtod\<close> applied to each. So a text of whole numbers parses to the tree it was written
  from, each number being what \<open>strtod\<close> makes of its decimal text.
\<close>

fun map_result :: "('a \<Rightarrow> 'b) \<Rightarrow> 'a parse_result \<Rightarrow> 'b parse_result" where
  "map_result f Fuel_Out = Fuel_Out"
| "map_result f Failed = Failed"
| "map_result f (Parsed v r) = Parsed (f v) r"

lemma parse_scalar_natural:
  "parse_scalar strtod p = map_result (map_json_value strtod) (parse_scalar (\<lambda>s. s) p)"
  by (simp add: parse_scalar_def parse_number_def Let_def split: option.split)

lemma parse_natural:
  "parse_value strtod k p = map_result (map_json_value strtod) (parse_value (\<lambda>s. s) k p)"
  "parse_items strtod k (map (map_json_value strtod) vs) p = map_result (map_json_value strtod) (parse_items (\<lambda>s. s) k vs p)"
  "parse_members strtod k (map (map_prod id (map_json_value strtod)) ms) p
     = map_result (map_json_value strtod) (parse_members (\<lambda>s. s) k ms p)"
proof (induction "\<lambda>s :: string. s" k p and "\<lambda>s :: string. s" k vs p and "\<lambda>s :: string. s" k ms p
    rule: parse_value_parse_items_parse_members.induct)
  case (2 k p)
  show ?case
  proof (cases "skip_ws p")
    case (Cons c cs)
    then show ?thesis
      using "2.hyps"(1) [OF Cons] "2.hyps"(2) [OF Cons] parse_scalar_natural [of strtod "c # cs"] by simp
  qed simp
next
  case (4 k vs p)
  show ?case
  proof (cases "parse_value (\<lambda>s. s) k p")
    case (Parsed v rest)
    then have v: "parse_value strtod k p = Parsed (map_json_value strtod v) rest" using "4.hyps"(1) by simp
    show ?thesis
    proof (cases "skip_ws rest")
      case (Cons c cs)
      then show ?thesis using "4.hyps"(2) [OF Parsed Cons] by (simp add: Parsed v)
    qed (simp add: Parsed v)
  qed (use "4.hyps"(1) in simp_all)
next
  case (6 k ms p)
  show ?case
  proof (cases "parse_string_raw (skip_ws p)")
    case (Some kr)
    obtain key r1 where kr: "kr = (key, r1)" by (cases kr)
    note key = Some [unfolded kr]
    show ?thesis
    proof (cases "skip_ws r1")
      case (Cons c cs)
      show ?thesis
      proof (cases "c = CHR '':''")
        case True
        then have colon: "\<not> c \<noteq> CHR '':''" by simp
        note IH = "6.hyps" [OF key refl Cons colon]
        show ?thesis
        proof (cases "parse_value (\<lambda>s. s) k cs")
          case (Parsed v rest)
          then have v: "parse_value strtod k cs = Parsed (map_json_value strtod v) rest" using IH(1) by simp
          show ?thesis
          proof (cases "skip_ws rest")
            case Nil
            then show ?thesis by (simp add: key Cons Parsed v)
          next
            fix d ds assume d: "skip_ws rest = d # ds"
            then show ?thesis using IH(2) [OF Parsed d] by (simp add: key Cons Parsed v d)
          qed
        qed (use IH(1) in \<open>simp_all add: key Cons\<close>)
      qed (simp add: key Cons)
    qed (simp add: key)
  qed simp
qed simp_all

lemma json_parse_natural:
  "json_parse strtod p = map_option (map_json_value strtod) (json_parse (\<lambda>s. s) p)"
  using parse_natural(1) [of strtod "parse_fuel p" p]
  by (cases "parse_value (\<lambda>s. s) (parse_fuel p) p") (simp_all add: json_parse_def)

section \<open>Trees of whole numbers\<close>

text \<open>Strings without NUL, numbers in the range of \<open>long long\<close>.\<close>

fun json_plain :: "int json_value \<Rightarrow> bool" where
  "json_plain JSON_NULL = True"
| "json_plain (JSON_BOOL b) = True"
| "json_plain (JSON_NUMBER i) = (LONG_MIN \<le> i \<and> i \<le> LONG_MAX)"
| "json_plain (JSON_STRING s) = (NUL \<notin> set s)"
| "json_plain (JSON_ARRAY vs) = list_all json_plain vs"
| "json_plain (JSON_OBJECT ms) = list_all (\<lambda>(k, v). NUL \<notin> set k \<and> json_plain v) ms"

definition token_int :: "string \<Rightarrow> int option" where
  "token_int s = Some (whole_strtod s)"

lemma token_int_dec [simp]: "token_int (int_dec i) = Some i"
  by (simp add: token_int_def whole_strtod_dec)

lemma json_plain_exact: "json_plain v \<Longrightarrow> json_exact (\<lambda>s. s) token_int (map_json_value int_dec v)"
  by (induction v) (auto simp: list_all_iff)

lemma render_int_dec: "render token_int ff (map_json_value int_dec v) = render Some gg v"
proof (induction v)
  case (JSON_ARRAY vs)
  then have "map (render token_int ff) (map (map_json_value int_dec) vs) = map (render Some gg) vs" by simp
  then show ?case by (simp del: map_map)
next
  case (JSON_OBJECT ms)
  then have "map (\<lambda>(k, v). quoted k @ '':'' @ render token_int ff v) (map (map_prod id (map_json_value int_dec)) ms)
      = map (\<lambda>(k, v). quoted k @ '':'' @ render Some gg v) ms" by (auto 4 3)
  then show ?case by (simp del: map_map)
qed simp_all

lemma json_parse_plain:
  assumes "json_plain v"
  shows "json_parse strtod (render Some gg v) = Some (map_json_value (strtod \<circ> int_dec) v)"
proof -
  have "json_parse (\<lambda>s. s) (render Some gg v) = Some (map_json_value int_dec v)"
    using json_parse_render [OF json_plain_exact [OF assms], of undefined] render_int_dec [of undefined v gg] by simp
  then show ?thesis using json_parse_natural [of strtod "render Some gg v"] by (simp add: json_value.map_comp)
qed

text \<open>The text a run of writer calls leaves in a fresh buffer, and what it parses to.\<close>

lemma jw_value_text: "jw_buf (jw_value Some ff jw_init v) = render Some ff v"
  by (simp add: jw_value_render jw_init_def jw_value_prefix_def jw_raw_def)

lemma jw_members_append: "jw_members ai ff w (xs @ ys) = jw_members ai ff (jw_members ai ff w xs) ys"
  by (induction xs arbitrary: w) auto

lemma jw_items_append: "jw_items ai ff w (xs @ ys) = jw_items ai ff (jw_items ai ff w xs) ys"
  by (induction xs arbitrary: w) auto

end
