(* ===== verification/Manifest.thy ===== *)
theory Manifest
  imports Json_Numbers Store_Props
begin

text \<open>
  The generated manifest (\<^verbatim>\<open>src/src/manifest.c\<close>): the listing of the store written as JSON, one record per
  identity, in two sections. Each emitting function takes the writer and returns it.
\<close>

section \<open>Emitting\<close>

definition emit_key :: "json_writer \<Rightarrow> string \<Rightarrow> json_writer" where
  "emit_key w name = jw_key w (store_stem_of name STORE_NAME_MAX)"

definition emit_body :: "json_writer \<Rightarrow> string \<Rightarrow> string \<Rightarrow> int \<Rightarrow> json_writer" where
  "emit_body w name digest sz =
     (let file = snprintf (STORE_NAME_MAX + 16) (STORE_DIR @ ''/'' @ name);
          w1 = jw_str (jw_key w ''file'') file;
          w2 = jw_str (jw_key w1 ''sha256'') digest
      in jw_int (jw_key w2 ''bytes'') sz)"

definition emit_signature :: "env \<Rightarrow> store \<Rightarrow> json_writer \<Rightarrow> string \<Rightarrow> json_writer" where
  "emit_signature env s w name =
     (case store_signature_name name STORE_NAME_MAX of
        None \<Rightarrow> w
      | Some sg \<Rightarrow>
          (case store_resolve env s sg STORE_SHA256_MAX of
             Inl _ \<Rightarrow> w
           | Inr digest \<Rightarrow>
               (let sz = (case store_blob_exists env s digest of None \<Rightarrow> 0 | Some z \<Rightarrow> z)
                in jw_obj_close (emit_body (jw_obj_open (jw_key w ''signature'')) sg digest sz))))"

definition emit_format :: "env \<Rightarrow> store \<Rightarrow> json_writer \<Rightarrow> store_entry \<Rightarrow> json_writer" where
  "emit_format env s w e =
     (let ext = store_suffix_of (e_name e);
          w1 = jw_str (jw_key (jw_obj_open w) ''format'') (case ext of Some x \<Rightarrow> x | None \<Rightarrow> '''');
          w2 = emit_body w1 (e_name e) (e_digest e) (e_size e)
      in jw_obj_close (emit_signature env s w2 (e_name e)))"

definition cmp_stem_then_name :: "store_entry \<Rightarrow> store_entry \<Rightarrow> int" where
  "cmp_stem_then_name x y =
     (let r = c_strcmp (store_stem_of (e_name x) STORE_NAME_MAX) (store_stem_of (e_name y) STORE_NAME_MAX)
      in if r \<noteq> 0 then r else c_strcmp (e_name x) (e_name y))"

fun emit_formats :: "env \<Rightarrow> store \<Rightarrow> json_writer \<Rightarrow> store_entry list \<Rightarrow> json_writer" where
  "emit_formats env s w [] = w"
| "emit_formats env s w (e # es) = emit_formats env s (emit_format env s w e) es"

text \<open>The outer loop: one object for each run of rows with the same stem.\<close>

function write_groups :: "env \<Rightarrow> store \<Rightarrow> json_writer \<Rightarrow> store_entry list \<Rightarrow> json_writer" where
  "write_groups env s w [] = w"
| "write_groups env s w (r # rows) =
     (let stem = store_stem_of (e_name r) STORE_NAME_MAX;
          same = (\<lambda>x. store_stem_of (e_name x) STORE_NAME_MAX = stem);
          w1 = jw_arr_open (jw_key (jw_obj_open (emit_key w (e_name r))) ''formats'');
          w2 = emit_formats env s w1 (r # takeWhile same rows)
      in write_groups env s (jw_obj_close (jw_arr_close w2)) (dropWhile same rows))"
  by pat_completeness auto
termination
  by (relation "measure (\<lambda>(env, s, w, rows). length rows)") (auto simp: le_imp_less_Suc length_dropWhile_le)

text \<open>The rows of a tier, in the order of the section.\<close>

definition section_rows :: "store_entry list \<Rightarrow> bool \<Rightarrow> store_entry list" where
  "section_rows ents installer_tier =
     c_qsort cmp_stem_then_name
       (filter (\<lambda>e. \<not> store_is_signature (e_name e) \<and> store_is_installer (e_name e) = installer_tier) ents)"

definition write_section :: "env \<Rightarrow> store \<Rightarrow> json_writer \<Rightarrow> store_entry list \<Rightarrow> bool \<Rightarrow> json_writer" where
  "write_section env s w ents installer_tier =
     (let w1 = jw_obj_open w
      in if ents = [] \<or> ev_nomem env (8 * length ents) then jw_obj_close w1
         else jw_obj_close (write_groups env s w1 (section_rows ents installer_tier)))"

text \<open>A listing that failed is written like an empty one.\<close>

definition manifest_entries :: "env \<Rightarrow> store \<Rightarrow> store_entry list" where
  "manifest_entries env s =
     (case store_list env s of None \<Rightarrow> [] | Some ents \<Rightarrow> c_qsort store_cmp_name ents)"

definition manifest_write_json :: "env \<Rightarrow> store \<Rightarrow> json_writer \<Rightarrow> json_writer" where
  "manifest_write_json env s w =
     (let ents = manifest_entries env s;
          w1 = jw_obj_open w;
          w2 = write_section env s (jw_key w1 ''packages'') ents False;
          w3 = write_section env s (jw_key w2 ''installers'') ents True
      in jw_obj_close w3)"

section \<open>The tree the manifest is\<close>

definition body_members :: "string \<Rightarrow> string \<Rightarrow> int \<Rightarrow> (string \<times> int json_value) list" where
  "body_members name digest sz =
     [(''file'', JSON_STRING (snprintf (STORE_NAME_MAX + 16) (STORE_DIR @ ''/'' @ name))),
      (''sha256'', JSON_STRING digest), (''bytes'', JSON_NUMBER sz)]"

definition signature_members :: "env \<Rightarrow> store \<Rightarrow> string \<Rightarrow> (string \<times> int json_value) list" where
  "signature_members env s name =
     (case store_signature_name name STORE_NAME_MAX of
        None \<Rightarrow> []
      | Some sg \<Rightarrow>
          (case store_resolve env s sg STORE_SHA256_MAX of
             Inl _ \<Rightarrow> []
           | Inr digest \<Rightarrow>
               [(''signature'', JSON_OBJECT (body_members sg digest
                   (case store_blob_exists env s digest of None \<Rightarrow> 0 | Some z \<Rightarrow> z)))]))"

definition format_value :: "env \<Rightarrow> store \<Rightarrow> store_entry \<Rightarrow> int json_value" where
  "format_value env s e =
     JSON_OBJECT ((''format'', JSON_STRING (case store_suffix_of (e_name e) of Some x \<Rightarrow> x | None \<Rightarrow> ''''))
       # body_members (e_name e) (e_digest e) (e_size e) @ signature_members env s (e_name e))"

definition stem_of :: "store_entry \<Rightarrow> string" where
  "stem_of e = store_stem_of (e_name e) STORE_NAME_MAX"

definition identity_value :: "env \<Rightarrow> store \<Rightarrow> store_entry list \<Rightarrow> string \<Rightarrow> int json_value" where
  "identity_value env s rows stem =
     JSON_OBJECT [(''formats'', JSON_ARRAY (map (format_value env s) (filter (\<lambda>e. stem_of e = stem) rows)))]"

text \<open>One member per stem, in the order of the rows.\<close>

definition section_value :: "env \<Rightarrow> store \<Rightarrow> store_entry list \<Rightarrow> int json_value" where
  "section_value env s rows =
     JSON_OBJECT (map (\<lambda>stem. (stem, identity_value env s rows stem)) (remdups_adj (map stem_of rows)))"

definition manifest_value :: "env \<Rightarrow> store \<Rightarrow> int json_value" where
  "manifest_value env s =
     (let ents = manifest_entries env s;
          rows = (\<lambda>tier. if ents = [] \<or> ev_nomem env (8 * length ents) then [] else section_rows ents tier)
      in JSON_OBJECT [(''packages'', section_value env s (rows False)), (''installers'', section_value env s (rows True))])"

section \<open>The writer's calls write that tree\<close>

abbreviation put_members :: "json_writer \<Rightarrow> (string \<times> int json_value) list \<Rightarrow> json_writer" where
  "put_members \<equiv> jw_members Some (\<lambda>_. '''')"

abbreviation put_value :: "json_writer \<Rightarrow> int json_value \<Rightarrow> json_writer" where
  "put_value \<equiv> jw_value Some (\<lambda>_. '''')"

lemma emit_body_members: "emit_body w name digest sz = put_members w (body_members name digest sz)"
  by (simp add: emit_body_def body_members_def Let_def)

lemma emit_signature_members: "emit_signature env s w name = put_members w (signature_members env s name)"
  by (simp add: emit_signature_def signature_members_def emit_body_members split: option.split sum.split)

lemma emit_format_value: "emit_format env s w e = put_value w (format_value env s e)"
  by (simp add: emit_format_def format_value_def emit_body_members emit_signature_members Let_def jw_members_append)

lemma emit_formats_items: "emit_formats env s w es = jw_items Some (\<lambda>_. '''') w (map (format_value env s) es)"
  by (induction es arbitrary: w) (simp_all add: emit_format_value)

text \<open>Rows sorted by stem: the rows of the first stem come first.\<close>

definition stem_sorted :: "store_entry list \<Rightarrow> bool" where
  "stem_sorted rows \<longleftrightarrow> sorted_wrt (\<lambda>a b. c_strcmp (stem_of a) (stem_of b) \<le> 0) rows"

lemma stem_sorted_first:
  assumes "stem_sorted (r # rows)"
  shows "filter (\<lambda>e. stem_of e = stem_of r) (r # rows) = r # takeWhile (\<lambda>x. stem_of x = stem_of r) rows"
    and "\<forall>x \<in> set (dropWhile (\<lambda>x. stem_of x = stem_of r) rows). stem_of x \<noteq> stem_of r"
proof -
  have key: "filter (\<lambda>e. stem_of e = stem_of r) rows = takeWhile (\<lambda>x. stem_of x = stem_of r) rows
      \<and> (\<forall>x \<in> set (dropWhile (\<lambda>x. stem_of x = stem_of r) rows). stem_of x \<noteq> stem_of r)"
    using assms
  proof (induction rows)
    case (Cons x rows)
    show ?case
    proof (cases "stem_of x = stem_of r")
      case True
      have "stem_sorted (r # rows)" using Cons.prems by (simp add: stem_sorted_def)
      from Cons.IH [OF this] show ?thesis
        by (simp only: filter.simps takeWhile.simps dropWhile.simps True if_True list.inject simp_thms) blast
    next
      case False
      have "stem_of y \<noteq> stem_of r" if "y \<in> set rows" for y
      proof
        assume y: "stem_of y = stem_of r"
        have "c_strcmp (stem_of r) (stem_of x) \<le> 0" "c_strcmp (stem_of x) (stem_of y) \<le> 0"
          using Cons.prems that by (simp_all add: stem_sorted_def)
        then have "c_strcmp (stem_of x) (stem_of r) = 0"
          using y strcmp.cmp_le_iff [of "stem_of r" "stem_of x"] by simp
        then show False using False by simp
      qed
      then show ?thesis using False by (auto simp: filter_empty_conv)
    qed
  qed simp
  show "filter (\<lambda>e. stem_of e = stem_of r) (r # rows) = r # takeWhile (\<lambda>x. stem_of x = stem_of r) rows"
    using conjunct1 [OF key] by simp
  show "\<forall>x \<in> set (dropWhile (\<lambda>x. stem_of x = stem_of r) rows). stem_of x \<noteq> stem_of r"
    by (rule conjunct2 [OF key])
qed

lemma remdups_adj_group:
  "remdups_adj (map f (r # rows)) = f r # remdups_adj (map f (dropWhile (\<lambda>x. f x = f r) rows))"
  by (induction rows arbitrary: r) (auto simp: remdups_adj_Cons')

lemma write_groups_members:
  "stem_sorted rows \<Longrightarrow> write_groups env s w rows =
    put_members w (map (\<lambda>stem. (stem, identity_value env s rows stem)) (remdups_adj (map stem_of rows)))"
proof (induction rows arbitrary: w rule: length_induct)
  case (1 rows)
  show ?case
  proof (cases rows)
    case (Cons r rest)
    let ?same = "\<lambda>x. stem_of x = stem_of r"
    let ?tail = "dropWhile ?same rest"
    have sorted: "stem_sorted ?tail"
      using "1.prems" unfolding Cons stem_sorted_def
      by (metis append_Cons dropWhile_eq_drop sorted_wrt.simps(2) sorted_wrt_append takeWhile_dropWhile_id)
    have len: "length ?tail < length rows" using Cons by (simp add: le_imp_less_Suc length_dropWhile_le)
    note first = stem_sorted_first [OF "1.prems" [unfolded Cons]]
    have later: "identity_value env s rows stem = identity_value env s ?tail stem" if "stem \<in> set (map stem_of ?tail)" for stem
    proof -
      from that have "stem \<in> stem_of ` set ?tail" by (simp only: set_map)
      then obtain x where x: "x \<in> set ?tail" "stem = stem_of x" by (rule imageE) blast
      have ne: "stem \<noteq> stem_of r" unfolding x(2) by (rule bspec [OF first(2) x(1)])
      have head: "filter (\<lambda>e. stem_of e = stem) (takeWhile ?same rest) = []"
        unfolding filter_empty_conv
      proof
        fix e assume "e \<in> set (takeWhile ?same rest)"
        then have "stem_of e = stem_of r" by (rule conjunct2 [OF set_takeWhileD])
        then show "stem_of e \<noteq> stem" using ne by metis
      qed
      have "filter (\<lambda>e. stem_of e = stem) rest = filter (\<lambda>e. stem_of e = stem) (takeWhile ?same rest @ ?tail)"
        by (simp only: takeWhile_dropWhile_id)
      then have "filter (\<lambda>e. stem_of e = stem) rows = filter (\<lambda>e. stem_of e = stem) ?tail"
        using ne by (simp only: Cons filter.simps filter_append head append_Nil) (metis (lifting))
      then show ?thesis by (simp add: identity_value_def)
    qed
    have "write_groups env s w rows =
        write_groups env s (put_value (jw_key w (stem_of r)) (identity_value env s rows (stem_of r))) ?tail"
      using first(1) Cons
      by (simp add: emit_formats_items emit_key_def identity_value_def stem_of_def Let_def)
    also have "\<dots> = put_members (put_value (jw_key w (stem_of r)) (identity_value env s rows (stem_of r)))
        (map (\<lambda>stem. (stem, identity_value env s ?tail stem)) (remdups_adj (map stem_of ?tail)))"
      using "1.IH" len sorted by blast
    also have "map (\<lambda>stem. (stem, identity_value env s ?tail stem)) (remdups_adj (map stem_of ?tail))
        = map (\<lambda>stem. (stem, identity_value env s rows stem)) (remdups_adj (map stem_of ?tail))"
      using later by (intro map_cong) auto
    finally show ?thesis using Cons remdups_adj_group [of stem_of r rest] by simp
  qed simp
qed

lemma stem_sorted_tail: "stem_sorted (r # rest) \<Longrightarrow> stem_sorted (dropWhile P rest)"
  unfolding stem_sorted_def by (metis sorted_wrt.simps(2) sorted_wrt_append takeWhile_dropWhile_id)

lemma stems_distinct: "stem_sorted rows \<Longrightarrow> distinct (remdups_adj (map stem_of rows))"
proof (induction rows rule: length_induct)
  case (1 rows)
  show ?case
  proof (cases rows)
    case (Cons r rest)
    let ?tail = "dropWhile (\<lambda>x. stem_of x = stem_of r) rest"
    note sorted = "1.prems" [unfolded Cons]
    have "length ?tail < length rows" using Cons by (simp add: le_imp_less_Suc length_dropWhile_le)
    then have "distinct (remdups_adj (map stem_of ?tail))" using "1.IH" stem_sorted_tail [OF sorted] by blast
    moreover have "stem_of r \<notin> set (map stem_of ?tail)"
    proof
      assume "stem_of r \<in> set (map stem_of ?tail)"
      then have "stem_of r \<in> stem_of ` set ?tail" by (simp only: set_map)
      then obtain x where x: "x \<in> set ?tail" "stem_of r = stem_of x" by (rule imageE) blast
      show False using bspec [OF stem_sorted_first(2) [OF sorted] x(1)] x(2) [symmetric] by contradiction
    qed
    ultimately show ?thesis
      unfolding Cons remdups_adj_group [of stem_of r rest] by (simp only: distinct.simps remdups_adj_set) simp
  qed simp
qed

lemma cmp_stem_comparator: "cmp_stem_then_name = then_cmp (on_cmp stem_of c_strcmp) (on_cmp e_name c_strcmp)"
  by (rule ext)+ (simp add: cmp_stem_then_name_def then_cmp_def on_cmp_def stem_of_def Let_def)

interpretation by_stem: comparator cmp_stem_then_name
  unfolding cmp_stem_comparator by (intro comparator_intros)

lemma section_rows_sorted: "stem_sorted (section_rows ents tier)"
proof -
  have "sorted_wrt (\<lambda>a b. cmp_stem_then_name a b \<le> 0) (section_rows ents tier)"
    unfolding section_rows_def by (rule by_stem.sorted_qsort)
  then show ?thesis
    unfolding stem_sorted_def
    by (rule sorted_wrt_mono_rel [rotated]) (auto simp: cmp_stem_then_name_def stem_of_def Let_def split: if_splits)
qed

lemma write_section_value:
  "write_section env s w ents tier =
     put_value w (section_value env s (if ents = [] \<or> ev_nomem env (8 * length ents) then [] else section_rows ents tier))"
  using write_groups_members [OF section_rows_sorted [of ents tier], of env s "jw_obj_open w"]
  by (simp add: write_section_def section_value_def Let_def)

lemma manifest_write_value: "manifest_write_json env s w = put_value w (manifest_value env s)"
  by (simp add: manifest_write_json_def manifest_value_def write_section_value Let_def)

section \<open>What the listing holds\<close>

lemma listing_sound:
  assumes "store_list env s = Some ents" and "e \<in> set ents"
  shows "visible env s (e_name e) \<and> raw_digest env s (e_name e) = Some (e_digest e) \<and> e_size e = walk_size env s (e_digest e)"
proof -
  obtain st where "store_walk env s (collect_entry env) \<lparr>es_v = [], es_cap = 0\<rparr> = (0, st)" and st: "ents = es_v st"
    using assms(1) by (auto simp: store_list_def split: prod.splits if_splits)
  from listing.store_walk_collects [OF this(1)] obtain names where "ents = List.map_filter (listing.kept env s) names"
    using st by auto
  then obtain n where "listing.kept env s n = Some e" using assms(2) by (auto simp: map_filter_iff)
  then have n: "visible env s n" and e: "e_name e = snprintf STORE_NAME_MAX n"
      "e_digest e = snprintf STORE_SHA256_MAX (the (raw_digest env s n))" "e_size e = walk_size env s (the (raw_digest env s n))"
    by (auto simp: listing.kept_def split: if_splits)
  obtain d where d: "raw_digest env s n = Some d" using n by (auto simp: visible_def)
  have "length n < STORE_NAME_MAX" using n valid_length by (simp add: visible_def)
  moreover have "length d = STORE_SHA256_HEX_LEN"
    using raw_digest_valid [OF d] by (simp add: store_digest_is_valid_iff)
  ultimately show ?thesis
    using n e d by (simp add: snprintf_def STORE_SHA256_MAX_def STORE_SHA256_HEX_LEN_def)
qed

lemma listing_names:
  assumes "store_wf s" and "store_list env s = Some ents"
  shows "distinct (map e_name ents)" and "visible env s n \<Longrightarrow> n \<in> set (map e_name ents)"
proof -
  obtain st where w: "store_walk env s (collect_entry env) \<lparr>es_v = [], es_cap = 0\<rparr> = (0, st)" and st: "ents = es_v st"
    using assms(2) by (auto simp: store_list_def split: prod.splits if_splits)
  obtain names where names: "sys_opendir env (st_fs s) (st_root s @ ''/'' @ STORE_DIR) = Inr names"
    and ents: "ents = List.map_filter (listing.kept env s) names"
    using listing.store_walk_collects [OF w] st by auto
  have dir: "names = dir_entries (st_fs s) (st_root s @ ''/packages'')"
    using wf_opendir [OF assms(1) _ names] by (simp add: store_dirs_def STORE_DIR_def)
  have snp: "store_name_is_valid n \<Longrightarrow> snprintf STORE_NAME_MAX n = n" for n
    using valid_length [of n] by (simp add: snprintf_def)
  have kept: "listing.kept env s n = Some e \<Longrightarrow> visible env s n \<and> e_name e = n" for n e
    using snp [of n] by (auto simp: listing.kept_def visible_def split: if_splits)
  have map: "map e_name ents = filter (visible env s) names"
    unfolding ents
  proof (induction names)
    case (Cons x xs)
    show ?case
    proof (cases "listing.kept env s x")
      case None
      then have "\<not> visible env s x" by (auto simp: listing.kept_def)
      then show ?thesis using Cons None by (simp add: List.map_filter_simps)
    qed (use kept [of x] Cons in \<open>simp add: List.map_filter_simps\<close>)
  qed (simp add: List.map_filter_simps)
  have "distinct (List.map_filter (\<lambda>(p, _). child_name (st_root s @ ''/packages'') p) (st_fs s))"
    by (rule map_filter_child_distinct) (use assms(1) in \<open>simp add: store_wf_def fs_ok_def\<close>)
  moreover have "\<not> visible env s ''.''" "\<not> visible env s ''..''"
    using valid_not_dots by (auto simp: visible_def)
  ultimately show "distinct (map e_name ents)"
    unfolding map dir dir_entries_def by (simp add: distinct_filter)
  show "visible env s n \<Longrightarrow> n \<in> set (map e_name ents)"
    unfolding map dir using visible_in_dir by simp
qed

text \<open>Every file of the store has a size that a \<open>long long\<close> holds.\<close>

definition sizes_fit :: "env \<Rightarrow> fs \<Rightarrow> bool" where
  "sizes_fit env fs \<longleftrightarrow> list_all (\<lambda>x. 0 \<le> node_size env (snd x) \<and> node_size env (snd x) \<le> LONG_MAX) fs"

lemma blob_size_fits: "sizes_fit env (st_fs s) \<Longrightarrow> store_blob_exists env s d = Some z \<Longrightarrow> 0 \<le> z \<and> z \<le> LONG_MAX"
  by (auto simp: store_blob_exists_def sys_stat_def sizes_fit_def list_all_iff
      split: if_splits option.splits sum.splits dest!: map_of_SomeD)

lemma walk_size_fits: "sizes_fit env (st_fs s) \<Longrightarrow> LONG_MIN \<le> walk_size env s d \<and> walk_size env s d \<le> LONG_MAX"
  using blob_size_fits [of env s d] by (auto simp: walk_size_def LONG_MIN_def LONG_MAX_def split: option.splits)

lemma valid_name_no_NUL: "store_name_is_valid n \<Longrightarrow> NUL \<notin> set n"
  using name_char_ok_confined by (auto simp: store_name_is_valid_iff list_all_iff)

lemma digest_no_NUL: "store_digest_is_valid d \<Longrightarrow> NUL \<notin> set d"
  by (auto simp: store_digest_is_valid_iff list_all_iff hex_lower_def byte_def c_isdigit_def)

lemma ext_no_NUL: "store_suffix_of n = Some ext \<Longrightarrow> NUL \<notin> set n \<Longrightarrow> NUL \<notin> set ext"
  by (auto simp: store_suffix_of_Some_iff)

lemma body_plain:
  "NUL \<notin> set n \<Longrightarrow> NUL \<notin> set d \<Longrightarrow> LONG_MIN \<le> z \<Longrightarrow> z \<le> LONG_MAX \<Longrightarrow>
   list_all (\<lambda>(k, v). NUL \<notin> set k \<and> json_plain v) (body_members n d z)"
  by (auto simp: body_members_def snprintf_def STORE_DIR_def dest: in_set_takeD)

lemma signature_plain:
  assumes "sizes_fit env (st_fs s)" and "NUL \<notin> set n"
  shows "list_all (\<lambda>(k, v). NUL \<notin> set k \<and> json_plain v) (signature_members env s n)"
proof (cases "store_signature_name n STORE_NAME_MAX")
  case (Some sg)
  then have sg: "NUL \<notin> set sg"
    using assms(2) by (auto simp: store_signature_name_def STORE_SIG_EXT_def split: if_splits)
  show ?thesis
  proof (cases "store_resolve env s sg STORE_SHA256_MAX")
    case (Inr d)
    then obtain nm where "store_resolve_as env s sg STORE_SHA256_MAX 0 = Inr (d, nm)"
      by (cases "store_resolve_as env s sg STORE_SHA256_MAX 0") (auto simp: store_resolve_def)
    then have "store_digest_is_valid d" using resolve_as_entry entry_digest_valid by blast
    then show ?thesis
      using body_plain [OF sg digest_no_NUL, of d] blob_size_fits [OF assms(1), of d] Some Inr
      by (auto simp: signature_members_def LONG_MIN_def LONG_MAX_def split: option.splits)
  qed (simp add: signature_members_def Some)
qed (simp add: signature_members_def)

lemma format_plain:
  assumes "sizes_fit env (st_fs s)" and "store_list env s = Some ents" and "e \<in> set ents"
  shows "json_plain (format_value env s e)"
proof -
  have vis: "visible env s (e_name e)" "raw_digest env s (e_name e) = Some (e_digest e)" "e_size e = walk_size env s (e_digest e)"
    using listing_sound [OF assms(2,3)] by auto
  have n: "NUL \<notin> set (e_name e)" using vis(1) valid_name_no_NUL by (simp add: visible_def)
  have d: "NUL \<notin> set (e_digest e)" using raw_digest_valid [OF vis(2)] by (rule digest_no_NUL)
  have ext: "NUL \<notin> set (case store_suffix_of (e_name e) of Some x \<Rightarrow> x | None \<Rightarrow> '''')"
    using ext_no_NUL n by (auto split: option.splits)
  show ?thesis
    using body_plain [OF n d] walk_size_fits [OF assms(1)] signature_plain [OF assms(1) n] vis(3) ext
    by (simp add: format_value_def)
qed

lemma stem_no_NUL: "NUL \<notin> set (e_name e) \<Longrightarrow> NUL \<notin> set (stem_of e)"
  by (auto simp: stem_of_def store_stem_of_def Let_def dest: in_set_takeD)

lemma section_rows_set: "set (section_rows ents tier) \<subseteq> set ents"
  unfolding section_rows_def by_stem.set_qsort by auto

lemma section_plain:
  assumes "\<And>e. e \<in> set rows \<Longrightarrow> json_plain (format_value env s e) \<and> NUL \<notin> set (e_name e)"
  shows "json_plain (section_value env s rows)"
proof -
  have "NUL \<notin> set (stem_of e)" if "e \<in> set rows" for e using assms [OF that] stem_no_NUL by blast
  moreover have "json_plain (identity_value env s rows stem)" for stem
    using assms by (auto simp: identity_value_def list_all_iff)
  ultimately show ?thesis by (auto simp: section_value_def list_all_iff)
qed

lemma manifest_entries_set:
  "set (manifest_entries env s) = (case store_list env s of None \<Rightarrow> {} | Some ents \<Rightarrow> set ents)"
  by (simp add: manifest_entries_def by_name.set_qsort split: option.split)

lemma manifest_plain:
  assumes "sizes_fit env (st_fs s)"
  shows "json_plain (manifest_value env s)"
proof -
  have entry: "json_plain (format_value env s e) \<and> NUL \<notin> set (e_name e)" if e: "e \<in> set (manifest_entries env s)" for e
  proof -
    obtain ents where l: "store_list env s = Some ents" "e \<in> set ents"
      using e by (auto simp: manifest_entries_set split: option.splits)
    then show ?thesis
      using format_plain [OF assms] listing_sound [OF l] valid_name_no_NUL by (simp add: visible_def)
  qed
  have rows: "json_plain (section_value env s (if P then [] else section_rows (manifest_entries env s) tier))" for P tier
    using section_plain [of "section_rows (manifest_entries env s) tier" env s] section_plain [of "[]" env s]
      entry section_rows_set [of "manifest_entries env s" tier] by auto
  show ?thesis using rows by (simp add: manifest_value_def Let_def)
qed

text \<open>
  The manifest parses: the text written for any store whose files have sizes a \<^verbatim>\<open>long long\<close> holds is
  read by the parser as the manifest's tree, whatever the C library makes of its numbers.
\<close>

theorem manifest_parses:
  assumes "sizes_fit env (st_fs s)"
  shows "json_parse strtod (jw_buf (manifest_write_json env s jw_init)) =
    Some (map_json_value (strtod \<circ> int_dec) (manifest_value env s))"
  using json_parse_plain [OF manifest_plain [OF assms], of strtod "\<lambda>_. ''''"]
  by (simp add: manifest_write_value jw_value_text)

theorem manifest_parses_witness:
  "json_parse whole_strtod (jw_buf (manifest_write_json calm_env sample_store jw_init)) \<noteq> None
   \<and> sizes_fit calm_env (st_fs sample_store)"
proof -
  have fit: "sizes_fit calm_env (st_fs sample_store)" by code_simp
  show ?thesis using manifest_parses [OF fit, of whole_strtod] fit by simp
qed

end
