(* ===== verification/Importer.thy ===== *)
theory Importer
  imports Manifest
begin

text \<open>
  The importer (\<^verbatim>\<open>src/src/importer.c\<close>): the digest a manifest records for a file, and the walk that hashes
  each file of the packages directory, compares it with that record, and moves it into the store. The
  file the manifest is read from is a parameter (its bytes, or \<open>None\<close> when it cannot be read), and so are
  \<^verbatim>\<open>sha256sum\<close> and \<open>strtod\<close>. What is printed is not modelled.
\<close>

section \<open>What a manifest records\<close>

definition entry_digest_for :: "'n json_value option \<Rightarrow> string \<Rightarrow> string option" where
  "entry_digest_for entry file =
     (case entry of
        Some (JSON_OBJECT _) \<Rightarrow>
          (case json_as_string (json_object_get entry ''file'') of
             Some entry_file \<Rightarrow>
               if c_strcmp entry_file file = 0 then json_as_string (json_object_get entry ''sha256'') else None
           | None \<Rightarrow> None)
      | _ \<Rightarrow> None)"

text \<open>The loop over the formats of an identity: the first digest found.\<close>

fun formats_digest :: "'n json_value list \<Rightarrow> string \<Rightarrow> string option" where
  "formats_digest [] file = None"
| "formats_digest (v # vs) file =
     (case entry_digest_for (Some v) file of Some digest \<Rightarrow> Some digest | None \<Rightarrow> formats_digest vs file)"

text \<open>One entry of a section: an array of formats, or the flat shape.\<close>

definition identity_digest :: "'n json_value \<Rightarrow> string \<Rightarrow> string option" where
  "identity_digest entry file =
     (case json_object_get (Some entry) ''formats'' of
        Some (JSON_ARRAY items) \<Rightarrow> formats_digest items file
      | _ \<Rightarrow> entry_digest_for (Some entry) file)"

fun section_loop :: "(string \<times> 'n json_value) list \<Rightarrow> string \<Rightarrow> string option" where
  "section_loop [] file = None"
| "section_loop ((key, entry) # rest) file =
     (case entry of
        JSON_OBJECT _ \<Rightarrow>
          (case identity_digest entry file of
             Some digest \<Rightarrow> Some digest
           | None \<Rightarrow> section_loop rest file)
      | _ \<Rightarrow> section_loop rest file)"

definition section_digest_for :: "'n json_value option \<Rightarrow> string \<Rightarrow> string option" where
  "section_digest_for sec file =
     (case sec of Some (JSON_OBJECT members) \<Rightarrow> section_loop members file | _ \<Rightarrow> None)"

definition manifest_digest_for :: "'n json_value option \<Rightarrow> string \<Rightarrow> string option" where
  "manifest_digest_for root file =
     (case root of
        None \<Rightarrow> None
      | Some _ \<Rightarrow>
          (case section_digest_for (json_object_get root ''packages'') file of
             Some digest \<Rightarrow> Some digest
           | None \<Rightarrow> section_digest_for (json_object_get root ''installers'') file))"

definition load_manifest :: "(string \<Rightarrow> 'n) \<Rightarrow> bytes option \<Rightarrow> 'n json_value option" where
  "load_manifest strtod file = (case file of None \<Rightarrow> None | Some bytes \<Rightarrow> json_parse strtod bytes)"

section \<open>Importing\<close>

record import_stats =
  is_imported :: int
  is_already :: int
  is_mismatched :: int
  is_failed :: int
  is_bytes :: int

type_synonym hasher = "fs \<Rightarrow> path \<Rightarrow> (string \<times> nat) option"

text \<open>What is done with a file whose digest is not contradicted.\<close>

definition import_file ::
  "env \<Rightarrow> bool \<Rightarrow> string \<Rightarrow> path \<Rightarrow> string \<Rightarrow> int \<Rightarrow> import_stats \<times> store \<Rightarrow> import_stats \<times> store"
where
  "import_file env dry_run n path digest sz state =
     (case state of (st0, s) \<Rightarrow>
        let st = st0\<lparr>is_bytes := is_bytes st0 + sz\<rparr>
        in if dry_run then (st\<lparr>is_imported := is_imported st + 1\<rparr>, s)
           else case store_blob_adopt env s path digest of
             (e, s1) \<Rightarrow>
               if e \<noteq> STORE_OK then (st\<lparr>is_failed := is_failed st + 1\<rparr>, s1)
               else case store_publish env s1 n digest of
                 (e', s2) \<Rightarrow>
                   if e' \<noteq> STORE_OK then (st\<lparr>is_failed := is_failed st + 1\<rparr>, s2)
                   else (st\<lparr>is_imported := is_imported st + 1\<rparr>, s2))"

text \<open>One turn of the loop over the directory.\<close>

definition import_entry ::
  "env \<Rightarrow> hasher \<Rightarrow> path \<Rightarrow> 'n json_value option \<Rightarrow> bool \<Rightarrow> string \<Rightarrow> import_stats \<times> store \<Rightarrow> import_stats \<times> store"
where
  "import_entry env sha256sum dir_path manifest dry_run n state =
     (case state of (st, s) \<Rightarrow>
        let path = dir_path @ ''/'' @ n
        in if c_at n 0 = CHR ''.'' then (st, s)
           else if \<not> store_name_is_valid n then (st, s)
           else if \<not> snprintf_fits PATH_MAX path then (st, s)
           else case sys_lstat env (st_fs s) path of
             Inr (Lnk _ _) \<Rightarrow> (st\<lparr>is_already := is_already st + 1\<rparr>, s)
           | Inr (Reg bytes mode mtime) \<Rightarrow>
               (case store_hash_file sha256sum (st_fs s) path STORE_SHA256_MAX of
                  None \<Rightarrow> (st\<lparr>is_failed := is_failed st + 1\<rparr>, s)
                | Some digest \<Rightarrow>
                    (case manifest_digest_for manifest (snprintf PATH_MAX (STORE_DIR @ ''/'' @ n)) of
                       Some recorded \<Rightarrow>
                         if c_strcasecmp recorded digest \<noteq> 0
                         then (st\<lparr>is_mismatched := is_mismatched st + 1\<rparr>, s)
                         else import_file env dry_run n path digest (int (length bytes)) (st, s)
                     | None \<Rightarrow> import_file env dry_run n path digest (int (length bytes)) (st, s)))
           | _ \<Rightarrow> (st, s))"

fun import_loop ::
  "env \<Rightarrow> hasher \<Rightarrow> path \<Rightarrow> 'n json_value option \<Rightarrow> bool \<Rightarrow> string list \<Rightarrow> import_stats \<times> store \<Rightarrow> import_stats \<times> store"
where
  "import_loop env sha256sum dir_path manifest dry_run [] state = state"
| "import_loop env sha256sum dir_path manifest dry_run (n # ns) state =
     import_loop env sha256sum dir_path manifest dry_run ns
       (import_entry env sha256sum dir_path manifest dry_run n state)"

definition no_stats :: import_stats where
  "no_stats = \<lparr>is_imported = 0, is_already = 0, is_mismatched = 0, is_failed = 0, is_bytes = 0\<rparr>"

text \<open>The return value, the counters and the store.\<close>

definition import_dir ::
  "env \<Rightarrow> hasher \<Rightarrow> path \<Rightarrow> 'n json_value option \<Rightarrow> bool \<Rightarrow> import_stats \<times> store \<Rightarrow> int \<times> import_stats \<times> store"
where
  "import_dir env sha256sum root manifest dry_run state =
     (let dir_path = root @ ''/'' @ STORE_DIR
      in if \<not> snprintf_fits PATH_MAX dir_path then (- 1, state)
         else case sys_opendir env (st_fs (snd state)) dir_path of
           Inl _ \<Rightarrow> (0, state)
         | Inr names \<Rightarrow> (0, import_loop env sha256sum dir_path manifest dry_run names state))"

definition importer_run ::
  "env \<Rightarrow> hasher \<Rightarrow> (string \<Rightarrow> 'n) \<Rightarrow> path \<Rightarrow> bytes option \<Rightarrow> bool \<Rightarrow> store \<Rightarrow> int \<times> import_stats \<times> store"
where
  "importer_run env sha256sum strtod root manifest_file dry_run s =
     (case import_dir env sha256sum root (load_manifest strtod manifest_file) dry_run (no_stats, s) of
        (_, st, s') \<Rightarrow> (if is_failed st = 0 \<and> is_mismatched st = 0 then 0 else - 1, st, s'))"

section \<open>Lookups do not see numbers\<close>

lemma map_of_map_prod: "map_of (map (map_prod id g) ms) k = map_option g (map_of ms k)"
  by (induction ms) auto

lemma object_get_map:
  "json_object_get (map_option (map_json_value f) v) key = map_option (map_json_value f) (json_object_get v key)"
proof (cases v)
  case (Some w)
  then show ?thesis by (cases w) (simp_all add: json_object_get_def map_of_map_prod)
qed (simp add: json_object_get_def)

lemma as_string_map: "json_as_string (map_option (map_json_value f) v) = json_as_string v"
  by (auto simp: json_as_string_def split: option.splits json_value.splits)

lemma entry_digest_map: "entry_digest_for (Some (map_json_value f v)) file = entry_digest_for (Some v) file"
proof -
  have str: "json_as_string (json_object_get (Some (map_json_value f v)) key) = json_as_string (json_object_get (Some v) key)" for key
    using as_string_map [of f "json_object_get (Some v) key"] object_get_map [of f "Some v" key] by simp
  show ?thesis
  proof (cases v)
    case (JSON_OBJECT ms)
    then show ?thesis using str [of "''file''"] str [of "''sha256''"] by (simp add: entry_digest_for_def split: option.split)
  qed (simp_all add: entry_digest_for_def)
qed

lemma formats_digest_map: "formats_digest (map (map_json_value f) vs) file = formats_digest vs file"
  by (induction vs) (simp_all add: entry_digest_map cong: option.case_cong)

lemma identity_digest_map: "identity_digest (map_json_value f v) file = identity_digest v file"
proof -
  have g: "json_object_get (Some (map_json_value f v)) ''formats'' = map_option (map_json_value f) (json_object_get (Some v) ''formats'')"
    using object_get_map [of f "Some v"] by simp
  show ?thesis
    unfolding identity_digest_def g
    by (auto simp: formats_digest_map entry_digest_map split: option.splits json_value.splits)
qed

lemma section_loop_map: "section_loop (map (map_prod id (map_json_value f)) ms) file = section_loop ms file"
proof (induction ms)
  case (Cons m ms)
  obtain k v where m: "m = (k, v)" by (cases m)
  show ?case
  proof (cases v)
    case (JSON_OBJECT xs)
    then show ?thesis using Cons m identity_digest_map [of f v] by (simp split: option.split)
  qed (use Cons m in simp_all)
qed simp

lemma section_digest_map: "section_digest_for (map_option (map_json_value f) v) file = section_digest_for v file"
  by (auto simp: section_digest_for_def section_loop_map split: option.splits json_value.splits)

lemma manifest_digest_map: "manifest_digest_for (Some (map_json_value f v)) file = manifest_digest_for (Some v) file"
  using object_get_map [of f "Some v" "''packages''"] object_get_map [of f "Some v" "''installers''"]
  by (simp add: manifest_digest_for_def section_digest_map split: option.split)

section \<open>The importer reads what the server writes\<close>

definition file_name :: "string \<Rightarrow> string" where
  "file_name n = STORE_DIR @ ''/'' @ n"

lemma file_name_eq [simp]: "file_name n = file_name m \<longleftrightarrow> n = m"
  by (simp add: file_name_def)

lemma file_name_fits: "length n < STORE_NAME_MAX \<Longrightarrow> snprintf (STORE_NAME_MAX + 16) (STORE_DIR @ CHR ''/'' # n) = file_name n"
  by (simp add: snprintf_def file_name_def STORE_DIR_def STORE_NAME_MAX_def)

lemma format_digest:
  assumes "length (e_name e) < STORE_NAME_MAX"
  shows "entry_digest_for (Some (format_value env s e)) (file_name n) = (if e_name e = n then Some (e_digest e) else None)"
  using assms
  by (simp add: entry_digest_for_def format_value_def body_members_def json_object_get_def json_as_string_def file_name_fits)

lemma formats_digest_find:
  "\<forall>e \<in> set es. length (e_name e) < STORE_NAME_MAX \<Longrightarrow>
   formats_digest (map (format_value env s) es) (file_name n) = map_option e_digest (find (\<lambda>e. e_name e = n) es)"
  by (induction es) (simp_all add: format_digest)

lemma identity_digest_find:
  "\<forall>e \<in> set rows. length (e_name e) < STORE_NAME_MAX \<Longrightarrow>
   identity_digest (identity_value env s rows stem) (file_name n)
     = map_option e_digest (find (\<lambda>e. e_name e = n) (filter (\<lambda>e. stem_of e = stem) rows))"
  using formats_digest_find [of "filter (\<lambda>e. stem_of e = stem) rows" env s n]
  by (simp add: identity_digest_def identity_value_def json_object_get_def)

text \<open>In rows with one entry per name, a section records the digest of a name exactly if it has the row.\<close>

lemma section_digest_rows:
  assumes "\<forall>e \<in> set rows. length (e_name e) < STORE_NAME_MAX"
    and "\<And>e e'. e \<in> set rows \<Longrightarrow> e' \<in> set rows \<Longrightarrow> e_name e = e_name e' \<Longrightarrow> e = e'"
  shows "section_digest_for (Some (section_value env s rows)) (file_name n) = map_option e_digest (find (\<lambda>e. e_name e = n) rows)"
proof -
  let ?sec = "\<lambda>stems. map (\<lambda>stem. (stem, identity_value env s rows stem)) stems"
  have obj: "\<exists>ms. identity_value env s rows stem = JSON_OBJECT ms" for stem by (simp add: identity_value_def)
  have none: "section_loop (?sec stems) (file_name n) = None" if "\<forall>e \<in> set rows. e_name e = n \<longrightarrow> stem_of e \<notin> set stems" for stems
    using that
  proof (induction stems)
    case (Cons stem stems)
    have "find (\<lambda>e. e_name e = n) (filter (\<lambda>e. stem_of e = stem) rows) = None"
      using Cons.prems by (auto simp: find_None_iff)
    then show ?case
      using Cons obj [of stem] identity_digest_find [OF assms(1), of env s stem n] by auto
  qed simp
  show ?thesis
  proof (cases "find (\<lambda>e. e_name e = n) rows")
    case None
    then have "section_loop (?sec (remdups_adj (map stem_of rows))) (file_name n) = None"
      by (intro none) (auto simp: find_None_iff)
    then show ?thesis using None by (simp add: section_digest_for_def section_value_def)
  next
    case (Some e)
    then have e: "e \<in> set rows" "e_name e = n" by (auto simp: find_Some_iff)
    have hit: "section_loop (?sec stems) (file_name n) = Some (e_digest e)" if "stem_of e \<in> set stems" for stems
      using that
    proof (induction stems)
      case (Cons stem stems)
      show ?case
      proof (cases "stem_of e = stem")
        case True
        have "find (\<lambda>e. e_name e = n) (filter (\<lambda>e. stem_of e = stem) rows) = Some e"
        proof (cases "find (\<lambda>e. e_name e = n) (filter (\<lambda>e. stem_of e = stem) rows)")
          case None
          then show ?thesis using e True by (auto simp: find_None_iff)
        next
          case (Some x)
          then have "x \<in> set rows" "e_name x = n" by (auto simp: find_Some_iff dest!: nth_mem)
          then show ?thesis using Some assms(2) [of x e] e by simp
        qed
        then show ?thesis using obj [of stem] identity_digest_find [OF assms(1), of env s stem n] by auto
      next
        case False
        have "find (\<lambda>e. e_name e = n) (filter (\<lambda>e. stem_of e = stem) rows) = None"
          unfolding find_None_iff
        proof
          assume "\<exists>x. x \<in> set (filter (\<lambda>e. stem_of e = stem) rows) \<and> e_name x = n"
          then obtain x where x: "x \<in> set rows" "stem_of x = stem" "e_name x = n" by auto
          then have "x = e" using assms(2) [of x e] e by simp
          then show False using x False by simp
        qed
        then show ?thesis
          using Cons False obj [of stem] identity_digest_find [OF assms(1), of env s stem n] by auto
      qed
    qed simp
    have "section_loop (?sec (remdups_adj (map stem_of rows))) (file_name n) = Some (e_digest e)"
      by (rule hit) (use e in simp)
    then show ?thesis using Some by (simp add: section_digest_for_def section_value_def)
  qed
qed

text \<open>
  What the store serves under the name of a visible entry, when the name is spelled canonically: with
  an architecture, the entry's own digest; without one, that digest or, when the name with an
  architecture has other bytes, nothing because the name is ambiguous.
\<close>

lemma visible_resolves:
  assumes "visible env s n" and c: "canon_of n = Some n"
  shows "store_resolve env s n STORE_SHA256_MAX = Inr (the (raw_digest env s n))
    \<or> store_arch_of n = None \<and> store_resolve env s n STORE_SHA256_MAX = Inl STORE_ERR_AMBIGUOUS"
proof -
  obtain p d where p: "raw_entry_path (st_root s) n = Some p" "resolve_path env (st_fs s) p STORE_SHA256_MAX = Inr d"
    and d: "raw_digest env s n = Some d"
    using assms(1) by (auto simp: visible_def raw_digest_def split: option.splits sum.splits)
  show ?thesis
  proof (cases "store_arch_of n = None")
    case True
    have "store_resolve_as env s n STORE_SHA256_MAX 0 = choose_candidate 0 (candidates env s (spellings n))"
      by (rule resolve_as_bare [OF c True p(1)]) (simp add: p(2))
    then show ?thesis using True d by (simp add: store_resolve_def choose_candidate_def spellings_def)
  next
    case False
    then show ?thesis using resolve_as_arch [OF c _ p(1), of env 0] p(2) d by (simp add: store_resolve_def)
  qed
qed



section \<open>A contradicted file stays\<close>

lemma import_path: "(root @ ''/'' @ STORE_DIR) @ ''/'' @ n = entry_at root n"
  by (simp add: entry_at_def)

lemma publish_keeps_file:
  assumes "store_publish env s n' digest = (e, s')" and "reg_bytes (map_of (st_fs s) (entry_at (st_root s) n)) = Some b"
  shows "reg_bytes (map_of (st_fs s') (entry_at (st_root s) n)) = Some b \<and> st_root s' = st_root s"
  using assms(1)
proof (cases rule: publish_outcome)
  case kept
  then show ?thesis using assms(2) by simp
next
  case (fresh c p)
  obtain c' p' where "canon_of n' = Some c'" "raw_entry_path (st_root s) c' = Some p'" "map_of (st_fs s) p' = None"
    using resolve_not_found [OF fresh(4)] by blast
  then have "map_of (st_fs s) p = None" using fresh(1,2) by simp
  then have "p \<noteq> entry_at (st_root s) n" using assms(2) by auto
  then show ?thesis using fresh assms(2) by simp
qed

lemma import_file_keeps:
  assumes "import_file env dry n' (entry_at (st_root s) n') digest sz (st, s) = (st', s')" and "n' \<noteq> n"
    and "reg_bytes (map_of (st_fs s) (entry_at (st_root s) n)) = Some b"
  shows "reg_bytes (map_of (st_fs s') (entry_at (st_root s) n)) = Some b \<and> st_root s' = st_root s"
proof -
  obtain e s1 where a: "store_blob_adopt env s (entry_at (st_root s) n') digest = (e, s1)" by (metis prod.exhaust)
  have adopt: "reg_bytes (map_of (st_fs s1) (entry_at (st_root s) n)) = Some b \<and> st_root s1 = st_root s"
    using a
  proof (cases rule: adopt_outcome)
    case shared
    then show ?thesis using assms(2,3) by simp
  next
    case (moved nd)
    then show ?thesis
      using assms(2,3) same_node_simps(2) [OF moved(7) [of "entry_at (st_root s) n"]] by simp
  qed (use assms(3) in simp)
  obtain e' s2 where p: "store_publish env s1 n' digest = (e', s2)" by (metis prod.exhaust)
  have "reg_bytes (map_of (st_fs s2) (entry_at (st_root s) n)) = Some b \<and> st_root s2 = st_root s"
    using publish_keeps_file [OF p, of n b] adopt by simp
  then show ?thesis
    using assms(1,3) adopt a p by (auto simp: import_file_def Let_def split: if_splits)
qed

text \<open>
  C23. A file the manifest contradicts is not imported: when the manifest records another digest for it than
  its bytes hash to, the importer leaves the file where it is with its bytes, whatever it does with the
  other files and whatever calls fail.
\<close>

theorem import_keeps_contradicted:
  assumes "reg_bytes (map_of (st_fs s) (entry_at (st_root s) n)) = Some b"
    and "\<And>fs. reg_bytes (map_of fs (entry_at (st_root s) n)) = Some b \<Longrightarrow>
      store_hash_file sha256sum fs (entry_at (st_root s) n) STORE_SHA256_MAX = Some digest"
    and "manifest_digest_for (load_manifest strtod manifest_file) (snprintf PATH_MAX (STORE_DIR @ ''/'' @ n)) = Some recorded"
    and "lower recorded \<noteq> lower digest"
    and run: "importer_run env sha256sum strtod (st_root s) manifest_file dry_run s = (rc, st, s')"
  shows "reg_bytes (map_of (st_fs s') (entry_at (st_root s) n)) = Some b"
proof -
  let ?m = "load_manifest strtod manifest_file" and ?root = "st_root s"
  let ?dir = "?root @ ''/'' @ STORE_DIR"
  have entry: "reg_bytes (map_of (st_fs t') (entry_at ?root n)) = Some b \<and> st_root t' = ?root"
    if step: "import_entry env sha256sum ?dir ?m dry_run n' (u, t) = (u', t')"
      and t: "st_root t = ?root" "reg_bytes (map_of (st_fs t) (entry_at ?root n)) = Some b" for n' u t u' t'
  proof (cases "n' = n")
    case True
    have "t' = t"
      using step assms(2) [OF t(2)] assms(3,4)
      by (auto simp: import_entry_def import_path [simplified] True Let_def split: if_splits sum.splits node.splits)
    then show ?thesis using t by simp
  next
    case False
    have "t' = t \<or> (\<exists>d z. import_file env dry_run n' (entry_at ?root n') d z (u, t) = (u', t'))"
      using step
      by (auto simp: import_entry_def import_path [simplified] Let_def split: if_splits sum.splits node.splits option.splits)
    then show ?thesis using import_file_keeps [of env dry_run n' t _ _ u u' t' n b] t False by auto
  qed
  have loop: "reg_bytes (map_of (st_fs t') (entry_at ?root n)) = Some b"
    if "import_loop env sha256sum ?dir ?m dry_run ns (u, t) = (u', t')"
      and "st_root t = ?root" "reg_bytes (map_of (st_fs t) (entry_at ?root n)) = Some b" for ns u t u' t'
    using that
  proof (induction ns arbitrary: u t)
    case (Cons x ns)
    obtain v r where "import_entry env sha256sum ?dir ?m dry_run x (u, t) = (v, r)" by (metis prod.exhaust)
    then show ?case using Cons.IH [of v r] Cons.prems entry by simp
  qed simp
  obtain c where "import_dir env sha256sum ?root ?m dry_run (no_stats, s) = (c, st, s')"
    using run by (auto simp: importer_run_def split: prod.splits)
  then show ?thesis
    using loop [of _ no_stats s st s'] assms(1)
    by (auto simp: import_dir_def Let_def split: if_splits sum.splits)
qed

text \<open>A store with a file still to import beside a published artifact, and a hash of its bytes.\<close>

definition export_store :: "string \<Rightarrow> store" where
  "export_store n = sample_store\<lparr>st_fs := (''/s/packages/'' @ n, Reg ''yy'' 420 3) # sample_fs\<rparr>"

definition export_hash :: hasher where
  "export_hash fs p =
     (case reg_bytes (map_of fs p) of
        Some b \<Rightarrow> Some ((if b = ''yy'' then digest_b else digest_a) @ ''  -'', 0) | None \<Rightarrow> None)"

definition export_manifest :: bytes where
  "export_manifest = jw_buf (jw_value Some (\<lambda>_. '''') jw_init
     (JSON_OBJECT [(''packages'', JSON_OBJECT [(''y'', JSON_OBJECT
        [(''file'', JSON_STRING ''packages/y-1-1.iso''), (''sha256'', JSON_STRING digest_a)])])]))"

theorem import_keeps_contradicted_witness:
  "reg_bytes (map_of (st_fs (snd (snd (importer_run calm_env export_hash whole_strtod ''/s'' (Some export_manifest) False
      (export_store ''y-1-1.iso''))))) (entry_at ''/s'' ''y-1-1.iso'')) = Some ''yy''"
proof -
  let ?s = "export_store ''y-1-1.iso''"
  have root: "st_root ?s = ''/s''" by (simp add: export_store_def sample_store_def)
  have reg: "reg_bytes (map_of (st_fs ?s) (entry_at (st_root ?s) ''y-1-1.iso'')) = Some ''yy''" by code_simp
  have buf: "take 127 (digest_b @ ''  -'') = digest_b @ ''  -''" "\<not> length (digest_b @ ''  -'') < STORE_SHA256_HEX_LEN"
    "take STORE_SHA256_HEX_LEN (digest_b @ ''  -'') = digest_b" "store_digest_is_valid digest_b"
    by code_simp+
  have hash: "store_hash_file export_hash fs p STORE_SHA256_MAX = Some digest_b" if "reg_bytes (map_of fs p) = Some ''yy''" for fs p
    using that buf by (simp add: store_hash_file_def export_hash_def Let_def)
  have rec: "manifest_digest_for (load_manifest whole_strtod (Some export_manifest))
      (snprintf PATH_MAX (STORE_DIR @ ''/'' @ ''y-1-1.iso'')) = Some digest_a"
    by code_simp
  have ne: "lower digest_a \<noteq> lower digest_b" by code_simp
  obtain rc st s' where run: "importer_run calm_env export_hash whole_strtod (st_root ?s) (Some export_manifest) False ?s = (rc, st, s')"
    by (metis prod.exhaust)
  show ?thesis
    using import_keeps_contradicted [OF reg hash rec ne run] run root by simp
qed

text \<open>
  A file whose canonical name is taken is lost to the tree: its bytes are moved into the blobs before the
  publish is refused, so nothing names them any more and the next collection frees them.
\<close>

theorem import_conflict_orphans:
  "case importer_run calm_env export_hash whole_strtod ''/s'' None False (export_store ''z-1.iso'') of (rc, st, s') \<Rightarrow>
     rc = - 1 \<and> is_failed st = 1 \<and> map_of (st_fs s') ''/s/packages/z-1.iso'' = None
     \<and> blob_bytes (snd (snd (store_gc calm_env s' False))) digest_b = None"
  by code_simp

end
