(* ===== verification/Server_State.thy ===== *)
theory Server_State
  imports Importer Conf
begin

text \<open>
  The state of the server (\<^verbatim>\<open>src/src/main.c\<close>): its globals, one connection, the activity log, responses
  and credentials. A handler takes the environment of the step, the globals and the connection
  it works on, and returns both. The environment says which calls fail and what the clocks read;
  all clock readings of one step agree.
\<close>

section \<open>Limits\<close>

definition HDR_MAX :: nat where
  "HDR_MAX = 1024"

definition READ_BUF :: nat where
  "READ_BUF = 65536"

definition SENDFILE_CHUNK :: nat where
  "SENDFILE_CHUNK = 4 * 1024 * 1024"

definition IDLE_TIMEOUT_MS :: int where
  "IDLE_TIMEOUT_MS = 60000"

definition XFER_TIMEOUT_MS :: int where
  "XFER_TIMEOUT_MS = 300000"

definition UPLOAD_MAX_BYTES :: int where
  "UPLOAD_MAX_BYTES = 16 * 1024 * 1024 * 1024"

definition LOG_RING :: nat where
  "LOG_RING = 512"

definition LOG_TEXT_MAX :: nat where
  "LOG_TEXT_MAX = 200"

section \<open>State\<close>

record log_entry =
  le_seq :: int
  le_wall_ms :: int
  le_level :: string
  le_text :: string

datatype conn_state =
  CONN_READ_REQUEST | CONN_RECV_BODY | CONN_HASHING | CONN_SEND_HEADER | CONN_SEND_BODY

text \<open>The events a descriptor is registered for, besides errors and hang-ups.\<close>

datatype interest = Want_Nothing | EPOLLIN | EPOLLOUT

text \<open>
  A client's connection. \<open>cn_open\<close> is \<open>kind != CONN_DEAD\<close>. A descriptor stands for what it refers to:
  \<open>cn_blob\<close> for the file being sent, \<open>cn_up_fd\<close> for the path of the upload being written. \<open>cn_child\<close>: a
  hashing process is attached, with its pipe, its process number and the connection record that
  watches it, which the code sets and clears together. \<open>cn_sent\<close> is what has been written
  to the socket so far.
\<close>

record conn =
  cn_open :: bool
  cn_state :: conn_state
  cn_interest :: interest
  cn_http :: http_conn
  cn_hdr :: string
  cn_hdr_off :: nat
  cn_head_only :: bool
  cn_blob :: "node option"
  cn_body_off :: nat
  cn_body_len :: int
  cn_out :: "bytes option"
  cn_out_off :: nat
  cn_up_fd :: "path option"
  cn_up_path :: path
  cn_up_digest :: string
  cn_up_name :: string
  cn_up_expect :: int
  cn_up_received :: int
  cn_child :: bool
  cn_last_ms :: int
  cn_note :: string
  cn_sent :: bytes

text \<open>
  The globals. The importer runs in a process of its own: \<open>sv_importers\<close> lists those still to do their
  work, each by its own copy of the counter of temporary names, \<open>sv_import_watched\<close> says that a connection record watches one. \<open>sv_undefined\<close> is set when the code has
  executed an operation the C standard leaves undefined; nothing is claimed after that.
\<close>

record server =
  sv_conf :: conf
  sv_suffixes :: suffix_table
  sv_store :: store
  sv_started_ms :: int
  sv_served_bytes :: int
  sv_requests :: int
  sv_artifact_hits :: int
  sv_artifact_misses :: int
  sv_artifact_aliases :: int
  sv_log :: "log_entry list"
  sv_log_seq :: int
  sv_import_running :: bool
  sv_import_started_ms :: int
  sv_import_last_status :: int
  sv_importers :: "nat list"
  sv_import_watched :: bool
  sv_undefined :: bool

text \<open>The failures of the calls the server makes besides those of the store.\<close>

datatype srv_call =
  SRV_pipe | SRV_fork | SRV_pidfd | SRV_conn_alloc | SRV_epoll_add | SRV_create path | SRV_read_file path

text \<open>
  \<open>se_staged\<close>: how many of the bytes handed to \<open>write\<close> on an upload's file are written.
  \<open>se_sha256sum\<close>: what the program has written to its pipe when it exits.
\<close>

record senv =
  se_env :: env
  se_now_ms :: int
  se_wall_ms :: int
  se_fails :: "srv_call \<Rightarrow> bool"
  se_staged :: "bytes \<Rightarrow> nat"
  se_sha256sum :: "fs \<Rightarrow> path \<Rightarrow> string"

section \<open>The activity log\<close>

definition empty_log_entry :: log_entry where
  "empty_log_entry = \<lparr>le_seq = 0, le_wall_ms = 0, le_level = [], le_text = []\<rparr>"

definition server_log :: "senv \<Rightarrow> string \<Rightarrow> string \<Rightarrow> server \<Rightarrow> server" where
  "server_log env level text sv =
     (let e = \<lparr>le_seq = sv_log_seq sv + 1, le_wall_ms = se_wall_ms env, le_level = snprintf 8 level,
               le_text = snprintf LOG_TEXT_MAX text\<rparr>
      in sv\<lparr>sv_log := (sv_log sv)[nat (sv_log_seq sv mod int LOG_RING) := e],
            sv_log_seq := sv_log_seq sv + 1\<rparr>)"

section \<open>Connections\<close>

definition conn_new :: "senv \<Rightarrow> conn" where
  "conn_new env =
     \<lparr>cn_open = True, cn_state = CONN_READ_REQUEST, cn_interest = Want_Nothing, cn_http = http_conn_init,
      cn_hdr = [], cn_hdr_off = 0, cn_head_only = False, cn_blob = None, cn_body_off = 0, cn_body_len = 0,
      cn_out = None, cn_out_off = 0, cn_up_fd = None, cn_up_path = [], cn_up_digest = [], cn_up_name = [],
      cn_up_expect = 0, cn_up_received = 0, cn_child = False, cn_last_ms = se_now_ms env, cn_note = [],
      cn_sent = []\<rparr>"

definition set_fs :: "server \<Rightarrow> fs \<Rightarrow> server" where
  "set_fs sv fs = sv\<lparr>sv_store := (sv_store sv)\<lparr>st_fs := fs\<rparr>\<rparr>"

text \<open>\<open>unlink(cc->up_path)\<close>, whose result is never looked at.\<close>

definition unlink_upload :: "senv \<Rightarrow> server \<Rightarrow> conn \<Rightarrow> server" where
  "unlink_upload env sv cc =
     set_fs sv (ignoring (st_fs (sv_store sv)) (sys_unlink (se_env env) (st_fs (sv_store sv)) (cn_up_path cc)))"

definition conn_close :: "senv \<Rightarrow> server \<Rightarrow> conn \<Rightarrow> server \<times> conn" where
  "conn_close env sv cc =
     (if \<not> cn_open cc then (sv, cc)
      else
        (if cn_up_path cc \<noteq> [] then unlink_upload env sv cc else sv,
         cc\<lparr>cn_open := False, cn_interest := Want_Nothing, cn_blob := None, cn_up_fd := None,
            cn_child := False, cn_up_path := [], cn_out := None, cn_http := http_conn_free (cn_http cc)\<rparr>))"

section \<open>Responses\<close>

definition is_observer_path :: "string \<Rightarrow> bool" where
  "is_observer_path path \<longleftrightarrow>
     c_strncmp path ''/api/v1/'' 8 = 0
     \<or> path \<in> {''/'', ''/index.html'', ''/app.js'', ''/style.css'', ''/favicon.svg'', ''/InterVariable.woff2''}"

definition response_line :: "int \<Rightarrow> int \<Rightarrow> conn \<Rightarrow> string" where
  "response_line status content_length cc =
     c_str (hc_method (cn_http cc)) @ '' '' @ c_str (hc_path (cn_http cc)) @ '' -> '' @ int_dec status @ '' ''
     @ cn_note cc @ int_dec content_length @ '' bytes''"

definition begin_response ::
  "senv \<Rightarrow> int \<Rightarrow> string \<Rightarrow> string \<Rightarrow> int \<Rightarrow> server \<Rightarrow> conn \<Rightarrow> server \<times> conn" where
  "begin_response env status content_type extra content_length sv cc =
     (case http_format_header HDR_MAX status (http_status_text status) content_type content_length extra of
        None \<Rightarrow> conn_close env sv cc
      | Some hdr \<Rightarrow>
          (if c_str (hc_method (cn_http cc)) \<noteq> []
              \<and> (status \<ge> 400 \<or> \<not> is_observer_path (c_str (hc_path (cn_http cc))))
           then server_log env (if status \<ge> 400 then ''warn'' else ''info'')
                  (response_line status content_length cc) sv
           else sv,
           cc\<lparr>cn_hdr := hdr, cn_hdr_off := 0, cn_state := CONN_SEND_HEADER,
              cn_last_ms := se_now_ms env, cn_interest := EPOLLOUT\<rparr>))"

definition respond_buffer :: "senv \<Rightarrow> int \<Rightarrow> string \<Rightarrow> bytes \<Rightarrow> server \<Rightarrow> conn \<Rightarrow> server \<times> conn" where
  "respond_buffer env status content_type body sv cc =
     begin_response env status content_type [] (int (length body)) sv
       (cc\<lparr>cn_out := Some body, cn_out_off := 0\<rparr>)"

definition respond_json :: "senv \<Rightarrow> int \<Rightarrow> json_writer \<Rightarrow> server \<Rightarrow> conn \<Rightarrow> server \<times> conn" where
  "respond_json env status w sv cc =
     (if ev_nomem (se_env env) (length (jw_buf w) + 1) then conn_close env sv cc
      else respond_buffer env status ''application/json'' (jw_buf w) sv cc)"

definition error_json :: "string \<Rightarrow> json_writer" where
  "error_json msg = jw_obj_close (jw_str (jw_key (jw_obj_open jw_init) ''error'') msg)"

definition respond_error :: "senv \<Rightarrow> int \<Rightarrow> string \<Rightarrow> server \<Rightarrow> conn \<Rightarrow> server \<times> conn" where
  "respond_error env status msg sv cc =
     (let w = error_json msg
      in if ev_nomem (se_env env) (length (jw_buf w) + 1) then conn_close env sv cc
         else respond_buffer env status ''application/json'' (jw_buf w) sv cc)"

section \<open>Credentials\<close>

definition bearer_ok :: "http_request \<Rightarrow> string \<Rightarrow> bool" where
  "bearer_ok req expect =
     (if expect = [] then True
      else case http_find_header (rq_headers req) ''Authorization'' (CONF_TOKEN_MAX + 32) of
        None \<Rightarrow> False
      | Some v \<Rightarrow>
          (let hdr = c_str v; got = (if c_strncmp hdr ''Bearer '' 7 = 0 then drop 7 hdr else hdr)
           in got = expect))"

definition operator_ok :: "server \<Rightarrow> http_request \<Rightarrow> bool" where
  "operator_ok sv req \<longleftrightarrow> bearer_ok req (cf_push_token (sv_conf sv))"

end
