(* ===== verification/Server_Push.thy ===== *)
theory Server_Push
  imports Server_State
begin

text \<open>
  Serving an artifact and receiving one (\<^verbatim>\<open>serve_artifact\<close>, \<^verbatim>\<open>begin_upload\<close>, \<^verbatim>\<open>start_hash_child\<close> and
  \<^verbatim>\<open>finish_upload\<close> of \<^verbatim>\<open>src/src/main.c\<close>). An upload is staged in the temporary directory, hashed by a
  process of its own, and adopted and published when its hash is the declared one.
\<close>

section \<open>Serving\<close>

definition artifact_content_type :: "string \<Rightarrow> string" where
  "artifact_content_type name =
     (case store_suffix_of name of
        None \<Rightarrow> ''application/octet-stream''
      | Some ext \<Rightarrow>
          if store_is_signature name then ''text/plain; charset=utf-8''
          else if ext = ''.tar.gz'' then ''application/gzip''
          else if ext = ''.iso'' then ''application/x-iso9660-image''
          else if ext = ''.cixpkg'' then ''application/octet-stream''
          else ''application/octet-stream'')"

definition note_alias :: "senv \<Rightarrow> string \<Rightarrow> string \<Rightarrow> server \<Rightarrow> conn \<Rightarrow> server \<times> conn" where
  "note_alias env name served sv cc =
     (if map_option fst (store_canonical_name name STORE_NAME_MAX) = Some 1 \<or> served \<noteq> name
      then (server_log env ''warn''
              (''alias: '' @ name @ '' served as '' @ served
               @ '' -- the requester is using a non-canonical name'')
              (sv\<lparr>sv_artifact_aliases := sv_artifact_aliases sv + 1\<rparr>),
            cc\<lparr>cn_note := ''ALIAS ''\<rparr>)
      else (sv, cc\<lparr>cn_note := ''HIT ''\<rparr>))"

definition serve_artifact ::
  "senv \<Rightarrow> http_request \<Rightarrow> string \<Rightarrow> bool \<Rightarrow> server \<Rightarrow> conn \<Rightarrow> server \<times> conn" where
  "serve_artifact env req name head_only sv cc =
     (if \<not> bearer_ok req (cf_pull_token (sv_conf sv))
      then respond_error env 401 ''authentication required'' sv cc
      else case store_open (se_env env) (sv_store sv) name STORE_NAME_MAX of
        Inl e \<Rightarrow>
          if e = STORE_ERR_AMBIGUOUS then
            respond_error env 409 (store_error_str e)
              (server_log env ''err''
                 (''ambiguous: '' @ name @ '' exists for more than one architecture -- the ''
                  @ ''requester must name one'') sv)
              (cc\<lparr>cn_note := ''AMBIG ''\<rparr>)
          else
            respond_error env (if e = STORE_ERR_INVALID_NAME then 400 else 404) (store_error_str e)
              (sv\<lparr>sv_artifact_misses := sv_artifact_misses sv + 1\<rparr>) (cc\<lparr>cn_note := ''MISS ''\<rparr>)
      | Inr (fd, sz, digest, served) \<Rightarrow>
          (let sv1 = sv\<lparr>sv_artifact_hits := sv_artifact_hits sv + 1\<rparr>;
               extra = snprintf (STORE_SHA256_MAX + 32) (''X-Cix-Sha256: '' @ digest @ [CR, LF])
           in case note_alias env name served sv1 cc of
                (sv2, cc2) \<Rightarrow>
                  (let cc3 = cc2\<lparr>cn_head_only := head_only\<rparr>
                   in begin_response env 200 (artifact_content_type served) extra sz sv2
                        (if head_only then cc3
                         else cc3\<lparr>cn_blob := map_of (st_fs (sv_store sv)) fd, cn_body_off := 0,
                                  cn_body_len := sz\<rparr>))))"

section \<open>Staging\<close>

text \<open>\<open>open(path, O_WRONLY | O_CREAT | O_TRUNC, 0644)\<close>: the file opened.\<close>

definition sys_create :: "senv \<Rightarrow> fs \<Rightarrow> path \<Rightarrow> errno + path \<times> fs" where
  "sys_create env fs p =
     (if se_fails env (SRV_create p) then Inl EIO
      else case namei fs p of
        None \<Rightarrow> Inl ELOOP
      | Some q \<Rightarrow>
          (case map_of fs q of
             Some (Reg b m t) \<Rightarrow> Inr (q, AList.update q (Reg [] m (ev_now (se_env env))) fs)
           | Some _ \<Rightarrow> Inl EISDIR
           | None \<Rightarrow>
               if \<not> is_dir fs (parent q) then Inl ENOENT
               else Inr (q, AList.update q (Reg [] 420 (ev_now (se_env env))) fs)))"

text \<open>
  \<open>write(cc->up_fd, data, n)\<close>: a short write and an error are told apart from success only by the
  count, so the result is the count and the file system with that many bytes appended.
\<close>

definition stage_bytes :: "senv \<Rightarrow> fs \<Rightarrow> path \<Rightarrow> bytes \<Rightarrow> nat \<times> fs" where
  "stage_bytes env fs p data =
     (let n = min (se_staged env data) (length data)
      in case map_of fs p of
           Some (Reg b m t) \<Rightarrow> (n, AList.update p (Reg (b @ take n data) m (ev_now (se_env env))) fs)
         | _ \<Rightarrow> (n, fs))"

section \<open>Hashing\<close>

text \<open>
  When the child's record cannot be registered with epoll it stays attached, and is closed with the
  connection after the response.
\<close>

definition start_hash_child :: "senv \<Rightarrow> server \<Rightarrow> conn \<Rightarrow> server \<times> conn" where
  "start_hash_child env sv cc =
     (let cc1 = cc\<lparr>cn_up_fd := None\<rparr>
      in if se_fails env SRV_pipe then respond_error env 500 ''cannot hash upload'' sv cc1
         else if se_fails env SRV_fork then respond_error env 500 ''cannot hash upload'' sv cc1
         else if se_fails env SRV_pidfd then respond_error env 500 ''cannot watch hash child'' sv cc1
         else if se_fails env SRV_conn_alloc then respond_error env 500 ''out of memory'' sv cc1
         else
           (let cc2 = cc1\<lparr>cn_child := True, cn_state := CONN_HASHING, cn_last_ms := se_now_ms env,
                          cn_interest := Want_Nothing\<rparr>
            in if se_fails env SRV_epoll_add then respond_error env 500 ''cannot watch hash child'' sv cc2
               else (sv, cc2)))"

section \<open>Accepting an upload\<close>

text \<open>
  The checks before anything is staged: the status and message of the first that fails, or the
  declared digest. The log line of an unsigned push is the one effect of the checks.
\<close>

definition upload_gate :: "senv \<Rightarrow> server \<Rightarrow> http_request \<Rightarrow> string \<Rightarrow> int \<times> string + string" where
  "upload_gate env sv req name =
     (if \<not> bearer_ok req (cf_push_token (sv_conf sv)) then Inl (401, ''push requires a bearer token'')
      else if \<not> store_name_is_valid name then Inl (400, ''invalid artifact name'')
      else if rq_content_length req \<le> 0 then Inl (411, ''content-length required'')
      else if rq_content_length req > UPLOAD_MAX_BYTES then Inl (413, ''upload too large'')
      else case http_find_header (rq_headers req) ''X-Cix-Sha256'' (STORE_SHA256_MAX + 8) of
        None \<Rightarrow> Inl (400, ''X-Cix-Sha256 header required, 64 lowercase hex'')
      | Some v \<Rightarrow>
          if \<not> store_digest_is_valid (c_str v)
          then Inl (400, ''X-Cix-Sha256 header required, 64 lowercase hex'')
          else Inr (c_str v))"

text \<open>
  The signature of an artifact that needs one: \<open>Inl sig\<close> when it is not published, with the name the
  message gives. At this point the name is valid and, needing a signature, is none itself, so
  \<open>store_signature_name\<close> fails only when the signature's name is too long, and leaves it cut.
\<close>

definition signature_gate :: "senv \<Rightarrow> server \<Rightarrow> string \<Rightarrow> string + unit" where
  "signature_gate env sv name =
     (if \<not> store_needs_signature (sv_suffixes sv) name then Inr ()
      else case store_signature_name name STORE_NAME_MAX of
        None \<Rightarrow> Inl (snprintf STORE_NAME_MAX (name @ STORE_SIG_EXT))
      | Some sg \<Rightarrow>
          (case store_resolve (se_env env) (sv_store sv) sg STORE_SHA256_MAX of
             Inl _ \<Rightarrow> Inl sg
           | Inr _ \<Rightarrow> Inr ()))"

definition stage_upload :: "senv \<Rightarrow> http_request \<Rightarrow> server \<Rightarrow> conn \<Rightarrow> server \<times> conn" where
  "stage_upload env req sv cc =
     (case store_tmp_path (se_env env) (sv_store sv) PATH_MAX of
        (None, s) \<Rightarrow> respond_error env 500 ''cannot stage upload'' (sv\<lparr>sv_store := s\<rparr>) cc
      | (Some p, s) \<Rightarrow>
          (case sys_create env (st_fs s) p of
             Inl _ \<Rightarrow> respond_error env 500 ''cannot stage upload'' (sv\<lparr>sv_store := s\<rparr>) cc
           | Inr (q, fs) \<Rightarrow>
               (let sv1 = set_fs (sv\<lparr>sv_store := s\<rparr>) fs;
                    cc1 = cc\<lparr>cn_up_path := p, cn_up_fd := Some q, cn_state := CONN_RECV_BODY\<rparr>
                in if rq_body req = [] then
                     (if cn_up_received cc1 \<ge> cn_up_expect cc1 then start_hash_child env sv1 cc1
                      else (sv1, cc1))
                   else
                     (case stage_bytes env fs q (rq_body req) of
                        (n, fs') \<Rightarrow>
                          (let sv2 = set_fs sv1 fs'
                           in if n \<noteq> length (rq_body req)
                              then respond_error env 500 ''cannot stage upload'' sv2 cc1
                              else
                                (let cc2 = cc1\<lparr>cn_up_received := int (length (rq_body req))\<rparr>
                                 in if cn_up_received cc2 \<ge> cn_up_expect cc2
                                    then start_hash_child env sv2 cc2 else (sv2, cc2)))))))"

definition begin_upload :: "senv \<Rightarrow> http_request \<Rightarrow> string \<Rightarrow> server \<Rightarrow> conn \<Rightarrow> server \<times> conn" where
  "begin_upload env req name sv cc =
     (case upload_gate env sv req name of
        Inl (status, msg) \<Rightarrow> respond_error env status msg sv cc
      | Inr digest \<Rightarrow>
          (case signature_gate env sv name of
             Inl sg \<Rightarrow>
               respond_error env 409
                 (snprintf (STORE_NAME_MAX + 64)
                    (''publish '' @ sg @ '' first -- ''
                     @ (case store_suffix_of name of None \<Rightarrow> [] | Some ext \<Rightarrow> ext)
                     @ '' may not be unsigned here''))
                 (server_log env ''warn'' (''push '' @ name @ '' refused: no signature published'') sv) cc
           | Inr _ \<Rightarrow>
               stage_upload env req sv
                 (cc\<lparr>cn_up_digest := snprintf STORE_SHA256_MAX digest,
                     cn_up_name := snprintf STORE_NAME_MAX name,
                     cn_up_expect := rq_content_length req, cn_up_received := 0\<rparr>)))"

section \<open>Finishing an upload\<close>

text \<open>The last steps: the staged file becomes a blob and the name is published.\<close>

definition adopt_upload :: "senv \<Rightarrow> string \<Rightarrow> server \<Rightarrow> conn \<Rightarrow> server \<times> conn" where
  "adopt_upload env digest sv cc =
     (case store_blob_adopt (se_env env) (sv_store sv) (cn_up_path cc) digest of
        (e, s1) \<Rightarrow>
          (let sv1 = sv\<lparr>sv_store := s1\<rparr>; cc1 = cc\<lparr>cn_up_path := []\<rparr>
           in if e \<noteq> STORE_OK then respond_error env 500 (store_error_str e) sv1 cc1
              else case store_publish (se_env env) s1 (cn_up_name cc1) digest of
                (e', s2) \<Rightarrow>
                  (let sv2 = sv1\<lparr>sv_store := s2\<rparr>
                   in if e' = STORE_ERR_CONFLICT
                      then respond_error env 409 ''already published with a different sha256'' sv2 cc1
                      else if e' = STORE_ERR_AMBIGUOUS
                      then respond_error env 409 (store_error_str e') sv2 cc1
                      else if e' \<noteq> STORE_OK then respond_error env 500 (store_error_str e') sv2 cc1
                      else begin_response env 201 ''application/json'' [] 0
                             (server_log env ''info'' (''published '' @ cn_up_name cc1 @ '' -> '' @ digest) sv2)
                             cc1)))"

text \<open>The name is asked for first, so that a push that will be refused leaves no blob behind.\<close>

definition settle_upload :: "senv \<Rightarrow> string \<Rightarrow> server \<Rightarrow> conn \<Rightarrow> server \<times> conn" where
  "settle_upload env digest sv cc =
     (case store_resolve (se_env env) (sv_store sv) (cn_up_name cc) STORE_SHA256_MAX of
        Inr existing \<Rightarrow>
          if existing \<noteq> digest then
            respond_error env 409 ''already published with a different sha256''
              (server_log env ''warn''
                 (''push '' @ cn_up_name cc @ '' refused: published as '' @ existing @ '', pushed '' @ digest)
                 (unlink_upload env sv cc))
              (cc\<lparr>cn_up_path := []\<rparr>)
          else adopt_upload env digest sv cc
      | Inl r \<Rightarrow>
          if r \<noteq> STORE_ERR_NOT_FOUND then
            respond_error env (if r = STORE_ERR_AMBIGUOUS then 409 else 500) (store_error_str r)
              (unlink_upload env sv cc) (cc\<lparr>cn_up_path := []\<rparr>)
          else adopt_upload env digest sv cc)"

text \<open>The bytes of the pipe that fit \<open>buf\<close>, of which the first 64 are the digest.\<close>

definition hash_output :: "senv \<Rightarrow> server \<Rightarrow> conn \<Rightarrow> string" where
  "hash_output env sv cc = take 127 (se_sha256sum env (st_fs (sv_store sv)) (cn_up_path cc))"

definition finish_upload :: "senv \<Rightarrow> server \<Rightarrow> conn \<Rightarrow> server \<times> conn" where
  "finish_upload env sv cc0 =
     (let buf = hash_output env sv cc0; cc = cc0\<lparr>cn_child := False\<rparr>;
          digest = take STORE_SHA256_HEX_LEN buf
      in if length buf < STORE_SHA256_HEX_LEN
         then respond_error env 500 ''could not hash uploaded body'' sv cc
         else if \<not> store_digest_is_valid digest
         then respond_error env 500 ''could not hash uploaded body'' sv cc
         else if c_strcasecmp digest (cn_up_digest cc) \<noteq> 0 then
           respond_error env 400 ''body does not match declared sha256''
             (server_log env ''warn''
                (''push '' @ cn_up_name cc @ '' rejected: declared '' @ cn_up_digest cc @ '', body hashes '' @ digest)
                sv)
             cc
         else settle_upload env digest sv cc)"

end
