(* ===== verification/Server_Listing.thy ===== *)
theory Server_Listing
  imports Server_State
begin

text \<open>
  What the server reports of the store (\<^verbatim>\<open>src/src/main.c\<close>): the counters of \<^verbatim>\<open>/api/v1/status\<close>, accumulated over
  a walk, and the listing of \<^verbatim>\<open>/api/v1/artifacts\<close>, which groups the encodings of one identity under its
  stem, ranks the identities by version and puts the latest first.
\<close>

section \<open>Counters\<close>

record list_ctx =
  lc_count :: int
  lc_unstamped :: int
  lc_installers :: int
  lc_installer_bytes :: int
  lc_bytes :: int
  lc_names :: "string list"
  lc_name_cap :: nat

definition no_counts :: list_ctx where
  "no_counts = \<lparr>lc_count = 0, lc_unstamped = 0, lc_installers = 0, lc_installer_bytes = 0, lc_bytes = 0,
                lc_names = [], lc_name_cap = 0\<rparr>"

definition remember_name :: "env \<Rightarrow> list_ctx \<Rightarrow> string \<Rightarrow> list_ctx" where
  "remember_name env lc short_name =
     (case grow env STORE_NAME_MAX (length (lc_names lc)) (lc_name_cap lc) of
        None \<Rightarrow> lc
      | Some cap \<Rightarrow>
          lc\<lparr>lc_names := lc_names lc @ [snprintf STORE_NAME_MAX short_name], lc_name_cap := cap\<rparr>)"

text \<open>The number of positions of the sorted names that differ from the one before.\<close>

fun count_changes :: "string list \<Rightarrow> int" where
  "count_changes [] = 0"
| "count_changes [x] = 1"
| "count_changes (x # y # xs) = (if c_strcmp y x \<noteq> 0 then 1 else 0) + count_changes (y # xs)"

definition distinct_names :: "list_ctx \<Rightarrow> int" where
  "distinct_names lc = (if lc_names lc = [] then 0 else count_changes (c_qsort c_strcmp (lc_names lc)))"

definition count_entry :: "env \<Rightarrow> list_ctx walk_fn" where
  "count_entry env name digest sz mtime lc =
     (let short_name = d_name (store_split_display name STORE_NAME_MAX STORE_NAME_MAX 0)
      in if store_is_signature name then
           (0, if sz > 0 then
                 (if store_is_installer name then lc\<lparr>lc_installer_bytes := lc_installer_bytes lc + sz\<rparr>
                  else lc\<lparr>lc_bytes := lc_bytes lc + sz\<rparr>)
               else lc)
         else
           (let lc1 = (if store_arch_of name = None then lc\<lparr>lc_unstamped := lc_unstamped lc + 1\<rparr> else lc)
            in if store_is_installer name then
                 (let lc2 = lc1\<lparr>lc_installers := lc_installers lc1 + 1\<rparr>
                  in (0, if sz > 0 then lc2\<lparr>lc_installer_bytes := lc_installer_bytes lc2 + sz\<rparr> else lc2))
               else
                 (let lc2 = remember_name env lc1 short_name; lc3 = lc2\<lparr>lc_count := lc_count lc2 + 1\<rparr>
                  in (0, if sz > 0 then lc3\<lparr>lc_bytes := lc_bytes lc3 + sz\<rparr> else lc3))))"

section \<open>Identities\<close>

record identity =
  id_stem :: string
  id_first :: nat
  id_n :: nat
  id_bytes :: int
  id_modified :: int
  id_version_rank :: int

text \<open>\<open>sizeof (struct identity)\<close> on a 64-bit platform.\<close>

definition IDENTITY_SIZE :: nat where
  "IDENTITY_SIZE = 288"

definition cmp_by_stem :: "store_entry \<Rightarrow> store_entry \<Rightarrow> int" where
  "cmp_by_stem x y =
     (let r = c_strcmp (store_stem_of (e_name x) STORE_NAME_MAX) (store_stem_of (e_name y) STORE_NAME_MAX)
      in if r \<noteq> 0 then r else c_strcmp (e_name x) (e_name y))"

definition cmp_identity_newest :: "identity \<Rightarrow> identity \<Rightarrow> int" where
  "cmp_identity_newest x y =
     (if id_modified x \<noteq> id_modified y then (if id_modified x < id_modified y then 1 else - 1)
      else c_strcmp (id_stem x) (id_stem y))"

definition new_identity :: "string \<Rightarrow> nat \<Rightarrow> identity" where
  "new_identity stem i =
     \<lparr>id_stem = snprintf STORE_NAME_MAX stem, id_first = i, id_n = 0, id_bytes = 0, id_modified = 0,
      id_version_rank = 0\<rparr>"

definition add_encoding :: "store_entry \<Rightarrow> identity \<Rightarrow> identity" where
  "add_encoding e g =
     g\<lparr>id_n := id_n g + 1,
       id_bytes := (if e_size e > 0 then id_bytes g + e_size e else id_bytes g),
       id_modified := (if e_mtime e > id_modified g then e_mtime e else id_modified g)\<rparr>"

text \<open>The loop; \<open>out\<close> holds the identities built so far, \<open>i\<close> the index of the next entry.\<close>

fun build_loop :: "nat \<Rightarrow> store_entry list \<Rightarrow> identity list \<Rightarrow> identity list" where
  "build_loop i [] out = out"
| "build_loop i (e # es) out =
     (let stem = store_stem_of (e_name e) STORE_NAME_MAX;
          out1 = (if out = [] \<or> c_strcmp (id_stem (last out)) stem \<noteq> 0 then out @ [new_identity stem i] else out)
      in build_loop (i + 1) es (butlast out1 @ [add_encoding e (last out1)]))"

definition build_identities :: "store_entry list \<Rightarrow> identity list" where
  "build_identities ents = build_loop 0 ents []"

definition stem_entry :: "identity \<Rightarrow> store_entry" where
  "stem_entry g = \<lparr>e_name = snprintf STORE_NAME_MAX (id_stem g), e_digest = [], e_size = 0, e_mtime = 0,
                   e_version_rank = 0\<rparr>"

text \<open>The ranking sorts an array of indices of 8 bytes each.\<close>

definition rank_identities :: "env \<Rightarrow> identity list \<Rightarrow> identity list" where
  "rank_identities env ids =
     (if ids \<noteq> [] \<and> ev_nomem env (length ids * STORE_ENTRY_SIZE)
      then map (\<lambda>g. g\<lparr>id_version_rank := 0\<rparr>) ids
      else map2 (\<lambda>g r. g\<lparr>id_version_rank := e_version_rank r\<rparr>) ids
             (store_rank_versions (ev_nomem env (8 * length ids)) (map stem_entry ids)))"

section \<open>Writing the listing\<close>

definition write_format :: "env \<Rightarrow> suffix_table \<Rightarrow> store \<Rightarrow> json_writer \<Rightarrow> store_entry \<Rightarrow> json_writer" where
  "write_format env tbl s w e =
     (let has = (case store_signature_name (e_name e) STORE_NAME_MAX of
                   None \<Rightarrow> False
                 | Some sg \<Rightarrow> (case store_resolve env s sg STORE_SHA256_MAX of Inl _ \<Rightarrow> False | Inr _ \<Rightarrow> True));
          w1 = jw_str (jw_key (jw_obj_open w) ''format'')
                 (case store_suffix_of (e_name e) of Some x \<Rightarrow> x | None \<Rightarrow> '''');
          w2 = jw_str (jw_key w1 ''name'') (e_name e);
          w3 = (if store_needs_signature tbl (e_name e) \<or> has then jw_bool (jw_key w2 ''signed'') has else w2);
          w4 = jw_str (jw_key w3 ''sha256'') (e_digest e);
          w5 = jw_int (jw_key w4 ''bytes'') (e_size e)
      in jw_obj_close (jw_int (jw_key w5 ''modified'') (e_mtime e)))"

definition write_formats ::
  "env \<Rightarrow> suffix_table \<Rightarrow> store \<Rightarrow> json_writer \<Rightarrow> store_entry list \<Rightarrow> nat \<Rightarrow> nat \<Rightarrow> json_writer" where
  "write_formats env tbl s w ents first n =
     jw_arr_close (foldl (write_format env tbl s) (jw_arr_open (jw_key w ''formats'')) (take n (drop first ents)))"

definition write_identity ::
  "env \<Rightarrow> suffix_table \<Rightarrow> store \<Rightarrow> store_entry list \<Rightarrow> json_writer \<Rightarrow> identity \<Rightarrow> json_writer" where
  "write_identity env tbl s ents w g =
     (let d = store_split_display (id_stem g) STORE_NAME_MAX STORE_NAME_MAX STORE_NAME_MAX;
          w1 = jw_str (jw_key (jw_obj_open w) ''stem'') (id_stem g);
          w2 = jw_str (jw_key w1 ''artifact'') (d_name d);
          w3 = jw_str (jw_key w2 ''version'') (d_version d);
          w4 = jw_int (jw_key w3 ''release'') (d_release d);
          w5 = jw_str (jw_key w4 ''arch'') (d_arch d);
          w6 = jw_int (jw_key w5 ''version_rank'') (id_version_rank g);
          w7 = write_formats env tbl s w6 ents (id_first g) (id_n g);
          w8 = jw_int (jw_key w7 ''bytes'') (id_bytes g)
      in jw_obj_close (jw_int (jw_key w8 ''modified'') (id_modified g)))"

text \<open>
  The entries that are listed and the identities in output order; nothing when the listing or an
  allocation fails.
\<close>

definition listed_entries :: "env \<Rightarrow> store \<Rightarrow> store_entry list" where
  "listed_entries env s =
     (case store_list env s of
        None \<Rightarrow> []
      | Some ents \<Rightarrow>
          if ents = [] \<or> ev_nomem env (8 * length ents) \<or> ev_nomem env (IDENTITY_SIZE * length ents) then []
          else c_qsort cmp_by_stem (filter (\<lambda>e. \<not> store_is_signature (e_name e)) ents))"

definition listed_identities :: "env \<Rightarrow> store_entry list \<Rightarrow> identity list" where
  "listed_identities env live =
     c_qsort cmp_identity_newest (rank_identities env (build_identities live))"

definition artifacts_json :: "env \<Rightarrow> suffix_table \<Rightarrow> store \<Rightarrow> json_writer" where
  "artifacts_json env tbl s =
     (let live = listed_entries env s;
          ids = listed_identities env live;
          w1 = jw_arr_open (jw_key (jw_obj_open jw_init) ''artifacts'');
          w2 = jw_arr_close (foldl (write_identity env tbl s live) w1 ids);
          w3 = jw_int (jw_key w2 ''count'') (int (length ids));
          w4 = jw_int (jw_key w3 ''files'') (int (length live))
      in jw_obj_close (jw_int (jw_key w4 ''bytes'') (foldl (\<lambda>t g. t + id_bytes g) 0 ids)))"

definition api_artifacts :: "senv \<Rightarrow> server \<Rightarrow> conn \<Rightarrow> server \<times> conn" where
  "api_artifacts env sv cc =
     respond_json env 200 (artifacts_json (se_env env) (sv_suffixes sv) (sv_store sv)) sv cc"

section \<open>Writing the status\<close>

text \<open>The header \<^verbatim>\<open>version.h\<close> is generated by the build; what it defines is a parameter.\<close>

record build_info =
  CIXCACHE_BUILD_VERSION :: string
  CIXCACHE_BUILD_TIME :: string
  CIXCACHE_BUILD_DIRTY :: bool

definition status_counts :: "env \<Rightarrow> store \<Rightarrow> list_ctx" where
  "status_counts env s = snd (store_walk env s (count_entry env) no_counts)"

definition status_build :: "build_info \<Rightarrow> json_writer \<Rightarrow> json_writer" where
  "status_build bi w =
     (let d = store_split_display (CIXCACHE_BUILD_VERSION bi) STORE_NAME_MAX STORE_NAME_MAX STORE_NAME_MAX;
          w1 = jw_str (jw_key (jw_obj_open (jw_key w ''build'')) ''identity'') (CIXCACHE_BUILD_VERSION bi);
          w2 = jw_str (jw_key w1 ''artifact'') (d_name d);
          w3 = jw_str (jw_key w2 ''version'') (d_version d);
          w4 = jw_int (jw_key w3 ''release'') (d_release d);
          w5 = jw_str (jw_key w4 ''arch'') (d_arch d);
          w6 = jw_str (jw_key w5 ''time'') (CIXCACHE_BUILD_TIME bi)
      in jw_obj_close (jw_bool (jw_key w6 ''dirty'') (CIXCACHE_BUILD_DIRTY bi)))"

text \<open>\<open>/\<close> on C integers rounds towards zero.\<close>

definition c_seconds :: "int \<Rightarrow> int" where
  "c_seconds ms = (if ms < 0 then - (- ms div 1000) else ms div 1000)"

definition put_int :: "string \<Rightarrow> int \<Rightarrow> json_writer \<Rightarrow> json_writer" where
  "put_int k v w = jw_int (jw_key w k) v"

definition status_json :: "senv \<Rightarrow> build_info \<Rightarrow> server \<Rightarrow> http_request \<Rightarrow> json_writer" where
  "status_json env bi sv req =
     (let c = status_counts (se_env env) (sv_store sv);
          w1 = status_build bi (jw_obj_open jw_init);
          w2 = (if operator_ok sv req then jw_str (jw_key w1 ''root'') (store_root (sv_store sv)) else w1);
          w3 = put_int ''uptime_seconds'' (c_seconds (se_now_ms env - sv_started_ms sv)) w2;
          w4 = put_int ''requests'' (sv_requests sv) w3;
          w5 = put_int ''artifact_hits'' (sv_artifact_hits sv) w4;
          w6 = put_int ''artifact_misses'' (sv_artifact_misses sv) w5;
          w7 = put_int ''artifact_aliases'' (sv_artifact_aliases sv) w6;
          w8 = put_int ''served_bytes'' (sv_served_bytes sv) w7;
          w9 = put_int ''unstamped'' (lc_unstamped c) w8;
          w10 = put_int ''installers'' (lc_installers c) w9;
          w11 = put_int ''installer_bytes'' (lc_installer_bytes c) w10;
          w12 = put_int ''packages'' (lc_count c) w11;
          w13 = put_int ''unique_packages'' (distinct_names c) w12;
          w14 = put_int ''package_bytes'' (lc_bytes c) w13;
          w15 = jw_bool (jw_key w14 ''pull_open'') (cf_pull_token (sv_conf sv) = []);
          w16 = jw_bool (jw_key w15 ''push_configured'') (cf_push_token (sv_conf sv) \<noteq> [])
      in jw_obj_close w16)"

definition api_status :: "senv \<Rightarrow> build_info \<Rightarrow> http_request \<Rightarrow> server \<Rightarrow> conn \<Rightarrow> server \<times> conn" where
  "api_status env bi req sv cc = respond_json env 200 (status_json env bi sv req) sv cc"

end
