(* ===== verification/Server_Api.thy ===== *)
theory Server_Api
  imports Server_Push Server_Listing
begin

text \<open>
  The operator's endpoints, the dashboard's files and the routing of a request (\<^verbatim>\<open>src/src/main.c\<close>).
\<close>

section \<open>The activity log\<close>

text \<open>The loop over the parameters: \<open>q\<close> follows the question mark or an ampersand.\<close>

function query_loop :: "string \<Rightarrow> string \<Rightarrow> int option" where
  "query_loop key q =
     (if q = [] then None
      else if c_strncmp q key (length key) = 0 \<and> c_at q (length key) = CHR ''=''
      then Some (fst (c_strtol (drop (length key + 1) q)))
      else case find_char (CHR ''&'') q of
        None \<Rightarrow> None
      | Some i \<Rightarrow> query_loop key (drop (i + 1) q))"
  by pat_completeness auto
termination
  by (relation "measure (\<lambda>(key, q). length q)") auto

declare query_loop.simps [simp del]

definition query_int :: "string \<Rightarrow> string \<Rightarrow> int option" where
  "query_int path key =
     (case find_char (CHR ''?'') path of
        None \<Rightarrow> None
      | Some i \<Rightarrow> query_loop key (drop (i + 1) path))"

definition log_after :: "server \<Rightarrow> string \<Rightarrow> int" where
  "log_after sv raw_path =
     (let after = (case query_int raw_path ''after'' of None \<Rightarrow> 0 | Some v \<Rightarrow> v);
          oldest = (if sv_log_seq sv > int LOG_RING then sv_log_seq sv - int LOG_RING else 0)
      in if after < oldest then oldest else after)"

definition log_record :: "json_writer \<Rightarrow> log_entry \<Rightarrow> json_writer" where
  "log_record w e =
     (let w1 = jw_int (jw_key (jw_obj_open w) ''seq'') (le_seq e);
          w2 = jw_int (jw_key w1 ''time_ms'') (le_wall_ms e);
          w3 = jw_str (jw_key w2 ''level'') (le_level e)
      in jw_obj_close (jw_str (jw_key w3 ''text'') (le_text e)))"

text \<open>The entries the loop reports, for an \<open>after\<close> whose successor is a \<open>long long\<close>.\<close>

definition log_entries :: "server \<Rightarrow> int \<Rightarrow> log_entry list" where
  "log_entries sv after =
     List.map_filter
       (\<lambda>i. let e = sv_log sv ! nat ((i - 1) mod int LOG_RING) in if le_seq e \<noteq> i then None else Some e)
       [after + 1 .. sv_log_seq sv]"

definition log_json :: "server \<Rightarrow> int \<Rightarrow> json_writer" where
  "log_json sv after =
     (let w1 = foldl log_record (jw_arr_open (jw_key (jw_obj_open jw_init) ''entries'')) (log_entries sv after)
      in jw_obj_close (jw_int (jw_key (jw_arr_close w1) ''seq'') (sv_log_seq sv)))"

text \<open>\<open>after + 1\<close> is a signed overflow when the query asks for what follows \<open>LLONG_MAX\<close>.\<close>

definition api_log :: "senv \<Rightarrow> string \<Rightarrow> server \<Rightarrow> conn \<Rightarrow> server \<times> conn" where
  "api_log env raw_path sv cc =
     (let after = log_after sv raw_path
      in if after = LONG_MAX then (sv\<lparr>sv_undefined := True\<rparr>, cc)
         else respond_json env 200 (log_json sv after) sv cc)"

section \<open>Collection and import\<close>

definition gc_json :: "bool \<Rightarrow> int \<Rightarrow> int \<Rightarrow> json_writer" where
  "gc_json dry_run removed freed =
     (let w1 = jw_bool (jw_key (jw_obj_open jw_init) ''dry_run'') dry_run;
          w2 = jw_int (jw_key w1 ''removed'') removed
      in jw_obj_close (jw_int (jw_key w2 ''bytes_freed'') freed))"

definition api_gc :: "senv \<Rightarrow> bool \<Rightarrow> server \<Rightarrow> conn \<Rightarrow> server \<times> conn" where
  "api_gc env dry_run sv cc =
     (case store_gc (se_env env) (sv_store sv) dry_run of
        (removed, freed, s) \<Rightarrow>
          (let sv1 = sv\<lparr>sv_store := s\<rparr>
           in if removed < 0 then respond_error env 500 ''garbage collection failed'' sv1 cc
              else respond_json env 200 (gc_json dry_run removed freed)
                     (server_log env ''info''
                        (''gc'' @ (if dry_run then '' (dry run)'' else '''') @ '' removed '' @ int_dec removed
                         @ '' blobs, '' @ int_dec freed @ '' bytes'') sv1)
                     cc))"

definition api_import_status :: "senv \<Rightarrow> server \<Rightarrow> conn \<Rightarrow> server \<times> conn" where
  "api_import_status env sv cc =
     (let w1 = jw_bool (jw_key (jw_obj_open jw_init) ''running'') (sv_import_running sv);
          w2 = put_int ''elapsed_seconds''
                 (if sv_import_running sv then c_seconds (se_now_ms env - sv_import_started_ms sv) else 0) w1;
          w3 = put_int ''last_exit_status'' (sv_import_last_status sv) w2
      in respond_json env 200 (jw_obj_close w3) sv cc)"

text \<open>
  The importer starts with the fork: when it cannot be watched it goes on unwatched. A failed
  \<open>epoll_add\<close> is not looked at: the importer counts as running and its end is never seen.
\<close>

definition api_import_start :: "senv \<Rightarrow> server \<Rightarrow> conn \<Rightarrow> server \<times> conn" where
  "api_import_start env sv cc =
     (if sv_import_running sv then respond_error env 409 ''an import is already running'' sv cc
      else if se_fails env SRV_fork then respond_error env 500 ''cannot fork importer'' sv cc
      else
        (let sv1 = sv\<lparr>sv_importers := st_tmp (sv_store sv) # sv_importers sv\<rparr>
         in if se_fails env SRV_pidfd then respond_error env 500 ''cannot watch importer'' sv1 cc
            else if se_fails env SRV_conn_alloc then respond_error env 500 ''out of memory'' sv1 cc
            else begin_response env 202 ''application/json'' [] 0
                   (sv1\<lparr>sv_import_watched := \<not> se_fails env SRV_epoll_add, sv_import_running := True,
                        sv_import_started_ms := se_now_ms env\<rparr>)
                   cc))"

definition serve_manifest :: "senv \<Rightarrow> server \<Rightarrow> conn \<Rightarrow> server \<times> conn" where
  "serve_manifest env sv cc =
     respond_json env 200 (manifest_write_json (se_env env) (sv_store sv) jw_init) sv cc"

section \<open>The dashboard's files\<close>

definition content_type_for :: "string \<Rightarrow> string" where
  "content_type_for path =
     (case find_last (CHR ''.'') path of
        None \<Rightarrow> ''application/octet-stream''
      | Some i \<Rightarrow>
          (let dot = drop i path
           in if dot = ''.html'' then ''text/html; charset=utf-8''
              else if dot = ''.js'' then ''application/javascript''
              else if dot = ''.css'' then ''text/css''
              else if dot = ''.svg'' then ''image/svg+xml''
              else if dot = ''.woff2'' then ''font/woff2''
              else if dot = ''.json'' then ''application/json''
              else ''application/octet-stream''))"

definition serve_static :: "senv \<Rightarrow> string \<Rightarrow> bool \<Rightarrow> server \<Rightarrow> conn \<Rightarrow> server \<times> conn" where
  "serve_static env req_path0 head_only sv cc =
     (if find_sub ''..'' req_path0 \<noteq> None then respond_error env 400 ''bad path'' sv cc
      else
        (let req_path = (if req_path0 = ''/'' then ''/index.html'' else req_path0);
             path = cf_web_root (sv_conf sv) @ req_path;
             fs = st_fs (sv_store sv)
         in if \<not> snprintf_fits PATH_MAX path then respond_error env 400 ''bad path'' sv cc
            else case sys_open (se_env env) fs path of
              Inl _ \<Rightarrow> respond_error env 404 ''no such endpoint'' sv cc
            | Inr fd \<Rightarrow>
                (case (ev_fails (se_env env) SYS_fstat fd, map_of fs fd) of
                   (False, Some (Reg body mode mtime)) \<Rightarrow>
                     if head_only then
                       begin_response env 200 (content_type_for path) [] (int (length body)) sv
                         (cc\<lparr>cn_head_only := True\<rparr>)
                     else if ev_nomem (se_env env) (length body + 1)
                     then respond_error env 500 ''out of memory'' sv cc
                     else if se_fails env (SRV_read_file fd) then respond_error env 500 ''short read'' sv cc
                     else respond_buffer env 200 (content_type_for path) body sv cc
                 | _ \<Rightarrow> respond_error env 404 ''no such endpoint'' sv cc)))"

section \<open>Routing\<close>

definition is_artifact_path :: "string \<Rightarrow> bool" where
  "is_artifact_path s \<longleftrightarrow> store_suffix_of s \<noteq> None"

definition delete_artifact :: "senv \<Rightarrow> http_request \<Rightarrow> string \<Rightarrow> server \<Rightarrow> conn \<Rightarrow> server \<times> conn" where
  "delete_artifact env req name sv cc =
     (if \<not> bearer_ok req (cf_push_token (sv_conf sv))
      then respond_error env 401 ''push requires a bearer token'' sv cc
      else case store_unpublish (se_env env) (sv_store sv) name of
        (e, sig_gone, s) \<Rightarrow>
          (let sv1 = sv\<lparr>sv_store := s\<rparr>
           in if e \<noteq> STORE_OK
              then respond_error env (if e = STORE_ERR_NOT_FOUND then 404 else 400) (store_error_str e) sv1 cc
              else begin_response env 204 ''application/json'' [] 0
                     (server_log env ''info''
                        (''unpublished '' @ name @ (if sig_gone then '' and its signature'' else '''')) sv1)
                     cc))"

text \<open>What is requested of an artifact; \<open>path\<close> is the decoded path without the query.\<close>

definition route_artifact :: "senv \<Rightarrow> http_request \<Rightarrow> string \<Rightarrow> server \<Rightarrow> conn \<Rightarrow> server \<times> conn" where
  "route_artifact env req path sv cc =
     (let name = drop 1 path
      in if CHR ''/'' \<in> set name then respond_error env 404 ''no such artifact'' sv cc
         else if rq_method req = ''GET'' \<or> rq_method req = ''HEAD''
         then serve_artifact env req name (rq_method req = ''HEAD'') sv cc
         else if rq_method req = ''PUT'' then begin_upload env req name sv cc
         else if rq_method req = ''DELETE'' then delete_artifact env req name sv cc
         else respond_error env 405 ''method not allowed'' sv cc)"

text \<open>What is requested under \<^verbatim>\<open>/api/v1/\<close>.\<close>

definition route_api :: "senv \<Rightarrow> build_info \<Rightarrow> http_request \<Rightarrow> string \<Rightarrow> server \<Rightarrow> conn \<Rightarrow> server \<times> conn" where
  "route_api env bi req ep sv cc =
     (let is_get = (rq_method req = ''GET''); is_post = (rq_method req = ''POST'')
      in if is_get \<and> ep = ''status'' then api_status env bi req sv cc
         else if is_get \<and> ep = ''artifacts'' then api_artifacts env sv cc
         else if is_get \<and> ep = ''log'' then
           (if \<not> operator_ok sv req then respond_error env 401 ''the activity log requires a bearer token'' sv cc
            else api_log env (rq_path req) sv cc)
         else if is_get \<and> ep = ''import-status'' then
           (if \<not> operator_ok sv req then respond_error env 401 ''import status requires a bearer token'' sv cc
            else api_import_status env sv cc)
         else if is_post \<and> ep = ''gc'' then
           (if \<not> bearer_ok req (cf_push_token (sv_conf sv))
            then respond_error env 401 ''gc requires a bearer token'' sv cc
            else api_gc env False sv cc)
         else if is_get \<and> ep = ''gc'' then
           (if \<not> operator_ok sv req then respond_error env 401 ''gc requires a bearer token'' sv cc
            else api_gc env True sv cc)
         else if is_post \<and> ep = ''import'' then
           (if \<not> bearer_ok req (cf_push_token (sv_conf sv))
            then respond_error env 401 ''import requires a bearer token'' sv cc
            else api_import_start env sv cc)
         else respond_error env 404 ''no such endpoint'' sv cc)"

definition dispatch :: "senv \<Rightarrow> build_info \<Rightarrow> http_request \<Rightarrow> server \<Rightarrow> conn \<Rightarrow> server \<times> conn" where
  "dispatch env bi req sv0 cc0 =
     (let sv = sv0\<lparr>sv_requests := sv_requests sv0 + 1\<rparr>;
          cc = cc0\<lparr>cn_head_only := False, cn_note := []\<rparr>;
          raw = snprintf HTTP_MAX_PATH (rq_path req)
      in case http_path_decode (takeWhile (\<lambda>c. c \<noteq> CHR ''?'') raw) of
           None \<Rightarrow> respond_error env 400 ''bad percent-encoding in path'' sv cc
         | Some path \<Rightarrow>
             if is_artifact_path path then route_artifact env req path sv cc
             else if rq_method req = ''GET'' \<and> path = ''/MANIFEST.json'' then serve_manifest env sv cc
             else if c_strncmp path ''/api/v1/'' 8 = 0 then route_api env bi req (drop 8 path) sv cc
             else if rq_method req = ''GET'' \<or> rq_method req = ''HEAD''
             then serve_static env path (rq_method req = ''HEAD'') sv cc
             else respond_error env 404 ''no such endpoint'' sv cc)"

end
