(* ===== verification/C_Io.thy ===== *)
theory C_Io
  imports C_Lib
begin

text \<open>
  Input and output of the C library beyond the file system: what reads and writes of a descriptor
  answer, the write loop of \<^verbatim>\<open>src/include/iohelpers.h\<close>, the conversions of \<open>sscanf\<close>, \<open>atoi\<close> and \<open>inet_pton\<close>,
  and the field widths of \<open>printf\<close>.
\<close>

section \<open>Descriptors\<close>

text \<open>What \<open>read\<close> returns; data of length 0 is the end of the stream.\<close>

datatype read_result = Read_Data bytes | Read_Again | Read_Intr | Read_Error

text \<open>What \<open>write\<close> or \<open>sendfile\<close> returns: the number of bytes at most, or a failure.\<close>

datatype write_result = Wrote nat | Write_Again | Write_Intr | Write_Error

text \<open>
  The write loop on a blocking descriptor: whether everything was written, the bytes that were, and
  the answers that are left. Once the answers are used up a write takes all it is given.
\<close>

fun cix_write_all :: "write_result list \<Rightarrow> bytes \<Rightarrow> bool \<times> bytes \<times> write_result list" where
  "cix_write_all [] data = (True, data, [])"
| "cix_write_all (w # ws) data =
     (if data = [] then (True, [], w # ws)
      else case w of
        Wrote k \<Rightarrow>
          (case cix_write_all ws (drop k data) of (ok, sent, rest) \<Rightarrow> (ok, take k data @ sent, rest))
      | Write_Intr \<Rightarrow> cix_write_all ws data
      | _ \<Rightarrow> (False, [], ws))"

section \<open>Conversions\<close>

text \<open>\<open>%d\<close> of \<open>sscanf\<close>: the number, and the input behind it.\<close>

definition scan_int :: "string \<Rightarrow> (int \<times> string) option" where
  "scan_int s = (case c_strtol s of (v, _, n) \<Rightarrow> if n = 0 then None else Some (c_int v, drop n s))"

text \<open>A blank in the format of \<open>sscanf\<close>.\<close>

definition scan_space :: "string \<Rightarrow> string" where
  "scan_space s = dropWhile c_isspace s"

definition c_atoi :: "string \<Rightarrow> int" where
  "c_atoi s = c_int (fst (c_strtol s))"

text \<open>
  Whether \<open>inet_pton(AF_INET, s, ...)\<close> accepts the text: four decimal numbers up to 255 between dots,
  none with a leading zero.
\<close>

fun split_at :: "char \<Rightarrow> string \<Rightarrow> string list" where
  "split_at c [] = [[]]"
| "split_at c (x # xs) =
     (if x = c then [] # split_at c xs
      else case split_at c xs of w # ws \<Rightarrow> (x # w) # ws | [] \<Rightarrow> [[x]])"

definition is_octet :: "string \<Rightarrow> bool" where
  "is_octet s \<longleftrightarrow> s \<noteq> [] \<and> list_all c_isdigit s \<and> dec_val s \<le> 255 \<and> (length s = 1 \<or> hd s \<noteq> CHR ''0'')"

definition is_ipv4 :: "string \<Rightarrow> bool" where
  "is_ipv4 s \<longleftrightarrow> length (split_at (CHR ''.'') s) = 4 \<and> list_all is_octet (split_at (CHR ''.'') s)"

section \<open>Field widths\<close>

text \<open>\<open>%9s\<close> and \<open>%-9s\<close>.\<close>

definition pad_left :: "nat \<Rightarrow> string \<Rightarrow> string" where
  "pad_left w s = replicate (w - length s) (CHR '' '') @ s"

definition pad_right :: "nat \<Rightarrow> string \<Rightarrow> string" where
  "pad_right w s = s @ replicate (w - length s) (CHR '' '')"

section \<open>Lemmas\<close>

lemma write_all_sent: "cix_write_all ws data = (ok, sent, rest) \<Longrightarrow> \<exists>t. data = sent @ t \<and> (ok \<longrightarrow> t = [])"
proof (induction ws arbitrary: data sent)
  case (Cons w ws)
  show ?case
  proof (cases "data = []")
    case False
    then show ?thesis
    proof (cases w)
      case (Wrote k)
      then obtain sent' where *: "cix_write_all ws (drop k data) = (ok, sent', rest)" "sent = take k data @ sent'"
        using Cons.prems False by (auto split: prod.splits)
      then obtain t where "drop k data = sent' @ t" "ok \<longrightarrow> t = []" using Cons.IH by blast
      then have "data = sent @ t" using *(2) by (metis append.assoc append_take_drop_id)
      then show ?thesis using \<open>ok \<longrightarrow> t = []\<close> by blast
    qed (use Cons.prems Cons.IH False in auto)
  qed (use Cons.prems in auto)
qed auto

lemma write_all_whole: "cix_write_all ws data = (True, sent, rest) \<Longrightarrow> sent = data"
  using write_all_sent by fastforce

lemma scan_int_digits:
  assumes "list_all c_isdigit ds" and "ds \<noteq> []" and "r = [] \<or> \<not> c_isdigit (hd r)"
  shows "scan_int (ds @ r) = Some (c_int (min LONG_MAX (dec_val ds)), r)"
proof -
  obtain c cs where ds: "ds = c # cs" "c_isdigit c" using digits_head [OF assms(1,2)] by blast
  have ws: "takeWhile c_isspace (ds @ r) = []" using ds c_isdigit_not_sign by simp
  have sgn: "c_at (ds @ r) 0 \<noteq> CHR ''-''" "c_at (ds @ r) 0 \<noteq> CHR ''+''"
    using ds c_isdigit_not_sign by (auto simp: c_at_def)
  have tw: "takeWhile c_isdigit (ds @ r) = ds"
    using assms(1,3) by (cases r) (auto simp: takeWhile_append2 takeWhile_tail list_all_iff)
  have whole: "c_strtol ds = (min LONG_MAX (dec_val ds), LONG_MAX < dec_val ds, length ds)"
    by (rule c_strtol_digits [OF assms(1,2)])
  have "0 \<le> dec_val ds" using assms(1)
  proof (induction ds rule: rev_induct)
    case (snoc x xs)
    then show ?case by (simp add: dec_val_append digit_val_def c_isdigit_def)
  qed (simp add: dec_val_def)
  then have "c_strtol (ds @ r) = (min LONG_MAX (dec_val ds), LONG_MAX < dec_val ds, length ds)"
    using ws sgn tw assms(2) by (simp add: c_strtol_def Let_def LONG_MAX_def LONG_MIN_def)
  then show ?thesis using assms(2) by (simp add: scan_int_def)
qed

lemma scan_int_nat_dec:
  assumes "n < 2 ^ 31" and "r = [] \<or> \<not> c_isdigit (hd r)"
  shows "scan_int (nat_dec n @ r) = Some (int n, r)"
proof -
  have "int n < 2 ^ 31" using assms(1) by (simp add: nat_less_iff)
  then have "c_int (min LONG_MAX (dec_val (nat_dec n))) = int n"
    by (simp add: LONG_MAX_def min_def)
  then show ?thesis using scan_int_digits [OF nat_dec_all_digits assms(2)] by simp
qed

lemma length_pad [simp]: "length (pad_left w s) = max w (length s)" "length (pad_right w s) = max w (length s)"
  by (simp_all add: pad_left_def pad_right_def)

end
