(* ===== verification/Server_Reactor.thy ===== *)
theory Server_Reactor
  imports Server_Api C_Io
begin

text \<open>
  The event loop (\<^verbatim>\<open>src/src/main.c\<close>): reading a request or a body, sending a response, accepting, the
  hashing and import children, and the sweep of stalled connections. What the kernel answers to the calls of one
  handler is a list, consumed call by call; a list that ends answers \<open>EAGAIN\<close>, since every
  descriptor is non-blocking.
\<close>

section \<open>Reading\<close>

definition recv_body :: "senv \<Rightarrow> bytes \<Rightarrow> server \<Rightarrow> conn \<Rightarrow> bool \<times> server \<times> conn" where
  "recv_body env data sv cc =
     (let remaining = cn_up_expect cc - cn_up_received cc;
          taken = (if int (length data) > remaining then nat remaining else length data)
      in case stage_bytes env (st_fs (sv_store sv)) (case cn_up_fd cc of Some q \<Rightarrow> q | None \<Rightarrow> []) (take taken data) of
           (n, fs) \<Rightarrow>
             (let sv1 = set_fs sv fs
              in if n \<noteq> taken then (True, respond_error env 500 ''short write staging upload'' sv1 cc)
                 else
                   (let cc1 = cc\<lparr>cn_up_received := cn_up_received cc + int taken\<rparr>
                    in if cn_up_received cc1 \<ge> cn_up_expect cc1 then (True, start_hash_child env sv1 cc1)
                       else (False, sv1, cc1))))"

text \<open>What is done with data outside a body: the flag says that the handler returns.\<close>

definition recv_request :: "senv \<Rightarrow> build_info \<Rightarrow> bytes \<Rightarrow> server \<Rightarrow> conn \<Rightarrow> bool \<times> server \<times> conn" where
  "recv_request env bi data sv cc =
     (case http_conn_feed (ev_nomem (se_env env)) (cn_http cc) data of
        Inl h \<Rightarrow> (True, respond_error env 413 ''request headers too large'' sv (cc\<lparr>cn_http := h\<rparr>))
      | Inr h \<Rightarrow>
          (case http_conn_try_parse h of
             (rc, h', req) \<Rightarrow>
               (let cc1 = cc\<lparr>cn_http := h'\<rparr>
                in if rc < 0 then (True, respond_error env 400 ''malformed request'' sv cc1)
                   else (case req of
                           None \<Rightarrow> (False, sv, cc1)
                         | Some r \<Rightarrow> (True, dispatch env bi r sv cc1)))))"

fun handle_read :: "senv \<Rightarrow> build_info \<Rightarrow> read_result list \<Rightarrow> server \<Rightarrow> conn \<Rightarrow> server \<times> conn" where
  "handle_read env bi [] sv cc = (sv, cc)"
| "handle_read env bi (Read_Again # rs) sv cc = (sv, cc)"
| "handle_read env bi (Read_Intr # rs) sv cc = handle_read env bi rs sv cc"
| "handle_read env bi (Read_Error # rs) sv cc = conn_close env sv cc"
| "handle_read env bi (Read_Data chunk # rs) sv cc =
     (let data = take READ_BUF chunk
      in if data = [] then conn_close env sv cc
         else
           (let cc1 = cc\<lparr>cn_last_ms := se_now_ms env\<rparr>
            in case (if cn_state cc1 = CONN_RECV_BODY then recv_body env data sv cc1
                     else recv_request env bi data sv cc1) of
                 (fin, sv2, cc2) \<Rightarrow> if fin then (sv2, cc2) else handle_read env bi rs sv2 cc2))"

section \<open>Writing\<close>

definition file_bytes :: "node option \<Rightarrow> bytes" where
  "file_bytes nd = (case nd of Some (Reg b _ _) \<Rightarrow> b | _ \<Rightarrow> [])"

text \<open>The data of the next call and its effect when \<open>n\<close> bytes have gone out.\<close>

definition header_rest :: "conn \<Rightarrow> bytes" where
  "header_rest cc = drop (cn_hdr_off cc) (cn_hdr cc)"

definition sent_header :: "senv \<Rightarrow> nat \<Rightarrow> server \<Rightarrow> conn \<Rightarrow> bool \<times> server \<times> conn" where
  "sent_header env k sv cc =
     (let n = min k (length (header_rest cc));
          cc1 = cc\<lparr>cn_hdr_off := cn_hdr_off cc + n, cn_last_ms := se_now_ms env,
                   cn_sent := cn_sent cc @ take n (header_rest cc)\<rparr>
      in if cn_hdr_off cc1 < length (cn_hdr cc1) then (False, sv, cc1)
         else if cn_head_only cc1 \<or> (cn_blob cc1 = None \<and> cn_out cc1 = None)
         then (True, conn_close env sv cc1)
         else (False, sv, cc1\<lparr>cn_state := CONN_SEND_BODY\<rparr>))"

definition blob_chunk :: "conn \<Rightarrow> bytes" where
  "blob_chunk cc =
     take (min SENDFILE_CHUNK (nat (cn_body_len cc - int (cn_body_off cc))))
       (drop (cn_body_off cc) (file_bytes (cn_blob cc)))"

definition sent_blob :: "senv \<Rightarrow> nat \<Rightarrow> server \<Rightarrow> conn \<Rightarrow> bool \<times> server \<times> conn" where
  "sent_blob env k sv cc =
     (let n = min k (length (blob_chunk cc))
      in if n = 0 then (True, conn_close env sv cc)
         else
           (let cc1 = cc\<lparr>cn_body_off := cn_body_off cc + n, cn_last_ms := se_now_ms env,
                         cn_sent := cn_sent cc @ take n (blob_chunk cc)\<rparr>;
                sv1 = sv\<lparr>sv_served_bytes := sv_served_bytes sv + int n\<rparr>
            in if int (cn_body_off cc1) \<ge> cn_body_len cc1 then (True, conn_close env sv1 cc1)
               else (False, sv1, cc1)))"

definition out_rest :: "conn \<Rightarrow> bytes" where
  "out_rest cc = (case cn_out cc of None \<Rightarrow> [] | Some b \<Rightarrow> drop (cn_out_off cc) b)"

definition sent_out :: "senv \<Rightarrow> nat \<Rightarrow> server \<Rightarrow> conn \<Rightarrow> bool \<times> server \<times> conn" where
  "sent_out env k sv cc =
     (let n = min k (length (out_rest cc));
          cc1 = cc\<lparr>cn_out_off := cn_out_off cc + n, cn_last_ms := se_now_ms env,
                   cn_sent := cn_sent cc @ take n (out_rest cc)\<rparr>;
          sv1 = sv\<lparr>sv_served_bytes := sv_served_bytes sv + int n\<rparr>
      in if cn_out_off cc1 \<ge> (case cn_out cc1 of None \<Rightarrow> 0 | Some b \<Rightarrow> length b)
         then (True, conn_close env sv1 cc1)
         else (False, sv1, cc1))"

text \<open>
  The connections that are closed without another call: a state that sends nothing, a blob that is
  sent, and a body that is missing.
\<close>

definition nothing_to_send :: "conn \<Rightarrow> bool" where
  "nothing_to_send cc \<longleftrightarrow>
     cn_state cc \<noteq> CONN_SEND_HEADER
     \<and> (cn_state cc \<noteq> CONN_SEND_BODY
        \<or> (if cn_blob cc \<noteq> None then cn_body_len cc - int (cn_body_off cc) \<le> 0 else cn_out cc = None))"

definition sent_bytes :: "senv \<Rightarrow> nat \<Rightarrow> server \<Rightarrow> conn \<Rightarrow> bool \<times> server \<times> conn" where
  "sent_bytes env k sv cc =
     (if cn_state cc = CONN_SEND_HEADER then sent_header env k sv cc
      else if cn_blob cc \<noteq> None then sent_blob env k sv cc
      else sent_out env k sv cc)"

fun handle_write :: "senv \<Rightarrow> write_result list \<Rightarrow> server \<Rightarrow> conn \<Rightarrow> server \<times> conn" where
  "handle_write env [] sv cc = (if nothing_to_send cc then conn_close env sv cc else (sv, cc))"
| "handle_write env (r # rs) sv cc =
     (if nothing_to_send cc then conn_close env sv cc
      else case r of
        Write_Again \<Rightarrow> (sv, cc)
      | Write_Intr \<Rightarrow> handle_write env rs sv cc
      | Write_Error \<Rightarrow> conn_close env sv cc
      | Wrote k \<Rightarrow>
          (case sent_bytes env k sv cc of
             (fin, sv1, cc1) \<Rightarrow> if fin then (sv1, cc1) else handle_write env rs sv1 cc1))"

section \<open>Connections\<close>

text \<open>The table of connections, newest first, by a number that is never reused.\<close>

record reactor =
  rx_server :: server
  rx_conns :: "(nat \<times> conn) list"
  rx_next :: nat

text \<open>What \<open>accept4\<close> returns.\<close>

datatype accept_result = Accepted | Accept_Again | Accept_Intr | Accept_Error

fun accept_loop :: "senv \<Rightarrow> accept_result list \<Rightarrow> reactor \<Rightarrow> reactor" where
  "accept_loop env [] rx = rx"
| "accept_loop env (Accept_Again # rs) rx = rx"
| "accept_loop env (Accept_Intr # rs) rx = accept_loop env rs rx"
| "accept_loop env (Accept_Error # rs) rx = rx"
| "accept_loop env (Accepted # rs) rx =
     (if se_fails env SRV_conn_alloc then accept_loop env rs rx
      else
        (let cc = (conn_new env)\<lparr>cn_interest := EPOLLIN\<rparr>;
             (sv, cc1) = (if se_fails env SRV_epoll_add then conn_close env (rx_server rx) (conn_new env)
                          else (rx_server rx, cc))
         in accept_loop env rs
              (rx\<lparr>rx_server := sv, rx_conns := (rx_next rx, cc1) # rx_conns rx, rx_next := rx_next rx + 1\<rparr>)))"

definition put_conn :: "nat \<Rightarrow> server \<times> conn \<Rightarrow> reactor \<Rightarrow> reactor" where
  "put_conn i r rx = rx\<lparr>rx_server := fst r, rx_conns := map (\<lambda>(j, c). (j, if j = i then snd r else c)) (rx_conns rx)\<rparr>"

section \<open>Sweeping\<close>

definition time_limit :: "conn \<Rightarrow> int" where
  "time_limit cc =
     (if cn_state cc = CONN_SEND_BODY \<or> cn_state cc = CONN_RECV_BODY \<or> cn_state cc = CONN_HASHING
      then XFER_TIMEOUT_MS else IDLE_TIMEOUT_MS)"

fun sweep_loop :: "senv \<Rightarrow> (nat \<times> conn) list \<Rightarrow> server \<Rightarrow> server \<times> (nat \<times> conn) list" where
  "sweep_loop env [] sv = (sv, [])"
| "sweep_loop env ((i, cc) # ccs) sv =
     (case (if cn_open cc \<and> se_now_ms env - cn_last_ms cc > time_limit cc then conn_close env sv cc else (sv, cc)) of
        (sv1, cc1) \<Rightarrow> (case sweep_loop env ccs sv1 of (sv2, rest) \<Rightarrow> (sv2, (i, cc1) # rest)))"

definition sweep_timeouts :: "senv \<Rightarrow> reactor \<Rightarrow> reactor" where
  "sweep_timeouts env rx =
     (case sweep_loop env (rx_conns rx) (rx_server rx) of
        (sv, ccs) \<Rightarrow> rx\<lparr>rx_server := sv, rx_conns := ccs\<rparr>)"

definition drain_pending_free :: "reactor \<Rightarrow> reactor" where
  "drain_pending_free rx = rx\<lparr>rx_conns := filter (\<lambda>(i, c). cn_open c) (rx_conns rx)\<rparr>"

section \<open>Events\<close>

text \<open>
  \<open>On_Client i err rs ws\<close>: the descriptor of connection \<open>i\<close> is ready, with an error or hang-up or else for
  what it is registered for, and the kernel answers its calls with \<open>rs\<close> or \<open>ws\<close>. \<open>On_Hashed i\<close>: the process
  hashing its upload has exited; a process that could not be registered with epoll, whose connection is
  no longer \<open>CONN_HASHING\<close>, is never reported. \<open>On_Importer\<close>: the watched importer has exited with this
  status, if it exited at all. \<open>Import_Work\<close>: a process importing does its work, taken as one step; no
  number of the manifest is looked at, so what \<open>strtod\<close> returns is left out.
\<close>

datatype event =
    On_Listener "accept_result list"
  | On_Client nat bool "read_result list" "write_result list"
  | On_Hashed nat
  | On_Importer "int option"
  | Import_Work hasher "bytes option"

definition on_client ::
  "senv \<Rightarrow> build_info \<Rightarrow> bool \<Rightarrow> read_result list \<Rightarrow> write_result list \<Rightarrow> server \<Rightarrow> conn \<Rightarrow> server \<times> conn" where
  "on_client env bi err rs ws sv cc =
     (if \<not> cn_open cc then (sv, cc)
      else if err then conn_close env sv cc
      else if cn_interest cc = EPOLLIN then handle_read env bi rs sv cc
      else if cn_interest cc = EPOLLOUT then handle_write env ws sv cc
      else (sv, cc))"

definition import_work :: "senv \<Rightarrow> hasher \<Rightarrow> bytes option \<Rightarrow> server \<Rightarrow> server" where
  "import_work env sha256sum manifest_file sv =
     (case sv_importers sv of
        [] \<Rightarrow> sv
      | n # ns \<Rightarrow>
          (case importer_run (se_env env) sha256sum (\<lambda>_. ()) (store_root (sv_store sv)) manifest_file False
                  ((sv_store sv)\<lparr>st_tmp := n\<rparr>) of
             (_, _, s) \<Rightarrow> sv\<lparr>sv_importers := ns, sv_store := s\<lparr>st_tmp := st_tmp (sv_store sv)\<rparr>\<rparr>))"

definition handle_event :: "senv \<Rightarrow> build_info \<Rightarrow> event \<Rightarrow> reactor \<Rightarrow> reactor" where
  "handle_event env bi ev rx =
     (case ev of
        On_Listener rs \<Rightarrow> accept_loop env rs rx
      | On_Client i err rs ws \<Rightarrow>
          (case map_of (rx_conns rx) i of
             None \<Rightarrow> rx
           | Some cc \<Rightarrow> put_conn i (on_client env bi err rs ws (rx_server rx) cc) rx)
      | On_Hashed i \<Rightarrow>
          (case map_of (rx_conns rx) i of
             None \<Rightarrow> rx
           | Some cc \<Rightarrow>
               if cn_open cc \<and> cn_child cc \<and> cn_state cc = CONN_HASHING
               then put_conn i (finish_upload env (rx_server rx) cc) rx else rx)
      | On_Importer status \<Rightarrow>
          if sv_import_watched (rx_server rx)
          then rx\<lparr>rx_server := (rx_server rx)\<lparr>sv_import_running := False, sv_import_watched := False,
                     sv_import_last_status := (case status of None \<Rightarrow> - 1 | Some v \<Rightarrow> v)\<rparr>\<rparr>
          else rx
      | Import_Work sha256sum manifest_file \<Rightarrow>
          rx\<lparr>rx_server := import_work env sha256sum manifest_file (rx_server rx)\<rparr>)"

text \<open>One turn of the loop: the events of one wait, then the sweep.\<close>

definition reactor_turn :: "senv \<Rightarrow> build_info \<Rightarrow> event list \<Rightarrow> reactor \<Rightarrow> reactor" where
  "reactor_turn env bi evs rx =
     drain_pending_free (sweep_timeouts env (foldl (\<lambda>r ev. handle_event env bi ev r) rx evs))"

end
