(* ===== verification/Server_Steps.thy ===== *)
theory Server_Steps
  imports Server_Reactor
begin

text \<open>
  Every handler of the server as steps of the store: the invariant that an open connection's staged
  file is a plain file of its own area, and the proof that whatever a handler does to the disk is
  a run of the operations of the store.
\<close>

section \<open>The area of uploads\<close>

definition up_area :: "path \<Rightarrow> path \<Rightarrow> bool" where
  "up_area root p \<longleftrightarrow> (\<exists>t. p = root @ ''/tmp/.up.'' @ t)"

definition no_up_links :: "store \<Rightarrow> bool" where
  "no_up_links s \<longleftrightarrow> (\<forall>p t m. up_area (st_root s) p \<longrightarrow> map_of (st_fs s) p \<noteq> Some (Lnk t m))"

lemma up_tmp: "up_area root p \<Longrightarrow> tmp_area root p"
  unfolding up_area_def tmp_area_def
proof (elim exE)
  fix t assume "p = root @ ''/tmp/.up.'' @ t"
  then show "\<exists>t. p = root @ ''/tmp/'' @ t" by (intro exI [of _ "''.up.'' @ t"]) simp
qed

lemma up_not_empty: "up_area root p \<Longrightarrow> p \<noteq> []"
  by (auto simp: up_area_def)

lemma up_disjoint:
  assumes "up_area (st_root s) p"
  shows "p \<noteq> pub_tmp_at env s" "p \<noteq> entry_at (st_root s) n" "p \<noteq> blob_at (st_root s) d"
  using assms tmp_disjoint [OF up_tmp [OF assms]] by (auto simp: up_area_def pub_tmp_at_def)

lemma no_up_linksI:
  assumes "no_up_links s" and "st_root s' = st_root s"
    and "\<And>p. up_area (st_root s) p \<Longrightarrow> map_of (st_fs s') p = map_of (st_fs s) p \<or> map_of (st_fs s') p = None
      \<or> (\<exists>b m t. map_of (st_fs s') p = Some (Reg b m t))"
  shows "no_up_links s'"
  unfolding no_up_links_def
proof (intro allI impI)
  fix p t m assume "up_area (st_root s') p"
  then have up: "up_area (st_root s) p" using assms(2) by simp
  have "map_of (st_fs s) p \<noteq> Some (Lnk t m)" using up assms(1) by (simp add: no_up_links_def)
  then show "map_of (st_fs s') p \<noteq> Some (Lnk t m)" using assms(3) [OF up] by auto
qed

lemma move_no_links: "entry_move free target s s' \<Longrightarrow> no_up_links s \<Longrightarrow> no_up_links s'"
proof -
  assume up: "no_up_links s" and "entry_move free target s s'"
  then obtain n t nd where r: "st_root s' = st_root s"
    "\<And>q. map_of (st_fs s') q = (if q = entry_at (st_root s) t then Some nd
       else if q = entry_at (st_root s) n then None else map_of (st_fs s) q)"
    unfolding entry_move_def by blast
  show ?thesis
    by (rule no_up_linksI [OF up r(1)]) (simp add: r(2) up_disjoint(2))
qed

lemma moves_no_links: "(entry_move free target)\<^sup>*\<^sup>* s s' \<Longrightarrow> no_up_links s \<Longrightarrow> no_up_links s'"
  by (induction rule: rtranclp_induct) (auto intro: move_no_links)

lemma step_no_links:
  assumes step: "store_step sha care s s'" and inv: "store_inv sha care s" and up: "no_up_links s"
  shows "no_up_links s'"
  using step
proof (cases rule: store_step.cases)
  case (step_publish env name digest e)
  from step_publish show ?thesis
  proof (cases rule: publish_outcome)
    case kept
    show ?thesis by (rule no_up_linksI [OF up kept(1)]) (use kept(2) up_disjoint(1) in blast)
  next
    case (fresh c p)
    have "p = entry_at (st_root s) c" using fresh(2) by (rule raw_entry_path_Some)
    then show ?thesis by (intro no_up_linksI [OF up fresh(7)]) (use up_disjoint in \<open>auto simp: fresh(8)\<close>)
  qed
next
  case (step_unpublish env name e r)
  from step_unpublish show ?thesis
  proof (cases rule: unpublish_outcome)
    case (partial c sp)
    show ?thesis by (rule no_up_linksI [OF up partial(5)]) (simp add: partial(7))
  next
    case (gone c)
    show ?thesis by (rule no_up_linksI [OF up gone(3)]) (simp add: gone(5))
  qed (use up in simp)
next
  case (step_tmp_path env n p)
  then have "s' = s\<lparr>st_tmp := next_tmp (st_tmp s)\<rparr>" by (simp add: store_tmp_path_def Let_def)
  then show ?thesis using up by (simp add: no_up_links_def)
next
  case (step_tmp_write p b m t)
  then show ?thesis by (intro no_up_linksI [OF up]) (auto simp: fs_simps)
next
  case (step_tmp_unlink p env fs')
  then show ?thesis by (intro no_up_linksI [OF up]) (auto simp: unlink_lookup [OF step_tmp_unlink(3)])
next
  case (step_counter n)
  then show ?thesis using up by (simp add: no_up_links_def)
next
  case (step_adopt tmp b m t env e)
  note run = step_adopt(3) and reg = step_adopt(2)
  from run show ?thesis
  proof (cases rule: adopt_outcome)
    case shared
    show ?thesis
    proof (rule no_up_linksI [OF up shared(3)])
      fix p show "map_of (st_fs s') p = map_of (st_fs s) p \<or> map_of (st_fs s') p = None
          \<or> (\<exists>b m t. map_of (st_fs s') p = Some (Reg b m t))"
        using shared(5,6) by (cases "p = tmp") auto
    qed
  next
    case (moved nd)
    show ?thesis
    proof (rule no_up_linksI [OF up moved(3)])
      fix p assume "up_area (st_root s) p"
      then have "p \<noteq> blob_at (st_root s) (sha b)" by (rule up_disjoint(3))
      then show "map_of (st_fs s') p = map_of (st_fs s) p \<or> map_of (st_fs s') p = None
          \<or> (\<exists>b m t. map_of (st_fs s') p = Some (Reg b m t))"
        using moved(7) [of p] by (auto simp: same_node_def split: if_splits)
    qed
  qed (use up in simp)
next
  case (step_drop n b m t)
  then show ?thesis by (intro no_up_linksI [OF up]) (auto simp: fs_simps up_disjoint(2))
next
  case (step_gc env dry k freed)
  show ?thesis
    using gc_outcome [OF inv_wf [OF inv] step_gc(2)] by (intro no_up_linksI [OF up]) auto
next
  case (step_canonicalize env dry rc cnt)
  then show ?thesis using canonicalize_moves moves_no_links [OF _ up] by blast
next
  case (step_set_arch env arch dry rc cnt)
  then show ?thesis using set_arch_moves moves_no_links [OF _ up] by blast
qed

lemma reachable_no_links: "store_reachable sha care s \<Longrightarrow> no_up_links s"
proof (induction rule: store_reachable.induct)
  case (reach_init fs root env r0 n s)
  have fits: "snprintf_fits PATH_MAX root" "snprintf PATH_MAX root = root"
    using reach_init(2) by (auto simp: snprintf_fits_def snprintf_def)
  obtain fs0 fs1 fs2 fs3 where d: "mkdir_if_absent env fs root = Some fs0"
    "mkdir_if_absent env fs0 (root @ ''/blobs'') = Some fs1"
    "mkdir_if_absent env fs1 (root @ ''/packages'') = Some fs2"
    "mkdir_if_absent env fs2 (root @ ''/tmp'') = Some fs3"
    and s: "s = \<lparr>st_root = root, st_fs = fs3, st_tmp = n\<rparr>"
    using reach_init(3) fits by (auto simp: store_init_def Let_def STORE_DIR_def split: if_splits option.splits)
  have "map_of fs3 (root @ ''/tmp/.up.'' @ t) = None" for t
    using reach_init(1) mkdir_if_absent_other [OF d(1)] mkdir_if_absent_other [OF d(2)]
      mkdir_if_absent_other [OF d(3)] mkdir_if_absent_other [OF d(4)]
    by (simp add: fresh_root_def)
  then show ?case by (auto simp: no_up_links_def up_area_def s)
next
  case (reach_step s s')
  then show ?case using step_no_links reachable_inv by blast
qed

section \<open>What a connection looks like\<close>

text \<open>The body a response promises, and a response on its way: what has been sent is what comes first.\<close>

definition response_body :: "conn \<Rightarrow> bytes" where
  "response_body cc =
     (if cn_head_only cc then []
      else case cn_blob cc of
        Some nd \<Rightarrow> take (nat (cn_body_len cc)) (file_bytes (Some nd))
      | None \<Rightarrow> (case cn_out cc of Some b \<Rightarrow> b | None \<Rightarrow> []))"

definition ready :: "conn \<Rightarrow> bool" where
  "ready cc \<longleftrightarrow> cn_open cc \<and> cn_sent cc = [] \<and> cn_body_off cc = 0 \<and> cn_out_off cc = 0
     \<and> (cn_blob cc = None \<or> cn_out cc = None)"

definition idle :: "conn \<Rightarrow> bool" where
  "idle cc \<longleftrightarrow> ready cc \<and> cn_blob cc = None \<and> cn_out cc = None"

definition sending_header :: "conn \<Rightarrow> bool" where
  "sending_header cc \<longleftrightarrow>
     cn_hdr_off cc < length (cn_hdr cc) \<and> cn_sent cc = take (cn_hdr_off cc) (cn_hdr cc)
     \<and> cn_body_off cc = 0 \<and> cn_out_off cc = 0 \<and> (cn_blob cc = None \<or> cn_out cc = None)"

definition sending_body :: "conn \<Rightarrow> bool" where
  "sending_body cc \<longleftrightarrow>
     \<not> cn_head_only cc
     \<and> (case cn_blob cc of
          Some nd \<Rightarrow> cn_out cc = None \<and> cn_sent cc = cn_hdr cc @ take (cn_body_off cc) (file_bytes (cn_blob cc))
            \<and> (0 < cn_body_off cc \<longrightarrow> int (cn_body_off cc) \<le> cn_body_len cc)
        | None \<Rightarrow> (case cn_out cc of
            None \<Rightarrow> False | Some b \<Rightarrow> cn_sent cc = cn_hdr cc @ take (cn_out_off cc) b \<and> cn_out_off cc \<le> length b))"

text \<open>An upload has a valid name and declares a valid digest.\<close>

definition gated :: "conn \<Rightarrow> bool" where
  "gated cc \<longleftrightarrow> store_name_is_valid (cn_up_name cc) \<and> store_digest_is_valid (cn_up_digest cc)"

definition conn_wf :: "path \<Rightarrow> conn \<Rightarrow> bool" where
  "conn_wf root cc \<longleftrightarrow>
     (cn_up_path cc \<noteq> [] \<longrightarrow> up_area root (cn_up_path cc))
     \<and> (if \<not> cn_open cc
        then cn_up_path cc = [] \<and> cn_up_fd cc = None \<and> \<not> cn_child cc \<and> cn_blob cc = None \<and> cn_out cc = None
        else case cn_state cc of
          CONN_READ_REQUEST \<Rightarrow> idle cc \<and> cn_up_path cc = [] \<and> cn_up_fd cc = None \<and> \<not> cn_child cc
            \<and> cn_interest cc = EPOLLIN
        | CONN_RECV_BODY \<Rightarrow> idle cc \<and> cn_up_path cc \<noteq> [] \<and> cn_up_fd cc = Some (cn_up_path cc) \<and> \<not> cn_child cc
            \<and> cn_up_received cc < cn_up_expect cc \<and> gated cc \<and> cn_interest cc = EPOLLIN
        | CONN_HASHING \<Rightarrow> idle cc \<and> cn_up_path cc \<noteq> [] \<and> cn_up_fd cc = None \<and> cn_child cc
            \<and> cn_up_expect cc \<le> cn_up_received cc \<and> gated cc \<and> cn_interest cc = Want_Nothing
        | CONN_SEND_HEADER \<Rightarrow> sending_header cc \<and> cn_interest cc = EPOLLOUT
        | CONN_SEND_BODY \<Rightarrow> sending_body cc \<and> cn_interest cc = EPOLLOUT)"

section \<open>Replies\<close>

text \<open>Only the log differs.\<close>

definition quiet :: "server \<Rightarrow> server \<Rightarrow> bool" where
  "quiet sv sv' \<longleftrightarrow> (\<exists>log seq. sv' = sv\<lparr>sv_log := log, sv_log_seq := seq\<rparr>)"

lemma quiet_refl [simp]: "quiet sv sv"
  unfolding quiet_def by (intro exI [of _ "sv_log sv"] exI [of _ "sv_log_seq sv"]) simp

lemma quiet_log [simp]: "quiet sv (server_log env level text sv)"
  by (auto simp: quiet_def server_log_def Let_def)

lemma quiet_fields:
  assumes "quiet sv sv'"
  shows "sv_store sv' = sv_store sv" "sv_conf sv' = sv_conf sv" "sv_suffixes sv' = sv_suffixes sv"
    "sv_importers sv' = sv_importers sv" "sv_undefined sv' = sv_undefined sv"
  using assms by (auto simp: quiet_def)

lemma log_fields [simp]:
  "sv_store (server_log env level text sv) = sv_store sv" "sv_conf (server_log env level text sv) = sv_conf sv"
  "sv_suffixes (server_log env level text sv) = sv_suffixes sv"
  "sv_importers (server_log env level text sv) = sv_importers sv"
  by (simp_all add: server_log_def Let_def)

text \<open>
  What every responding function does: it logs at most, and leaves the connection sending a header,
  or closes it; the upload it may hold is not touched before.
\<close>

definition replied :: "senv \<Rightarrow> server \<Rightarrow> conn \<Rightarrow> server \<times> conn \<Rightarrow> bool" where
  "replied env sv cc r \<longleftrightarrow>
     (\<exists>sv1 cc1. quiet sv sv1 \<and> cn_open cc1 \<and> cn_up_path cc1 = cn_up_path cc \<and> cn_up_fd cc1 = cn_up_fd cc
        \<and> cn_child cc1 = cn_child cc
        \<and> (r = conn_close env sv1 cc1
           \<or> r = (sv1, cc1) \<and> cn_state cc1 = CONN_SEND_HEADER \<and> cn_interest cc1 = EPOLLOUT \<and> sending_header cc1))"

lemma format_header_not_empty: "http_format_header n status st ct len extra = Some h \<Longrightarrow> h \<noteq> []"
  by (auto simp: http_format_header_def Let_def split: if_splits)

lemma begin_response_replied:
  assumes "ready cc"
  shows "replied env sv cc (begin_response env status ct extra len sv cc)"
proof (cases "http_format_header HDR_MAX status (http_status_text status) ct len extra")
  case None
  then show ?thesis
    using assms unfolding replied_def
    by (intro exI [of _ sv] exI [of _ cc]) (simp add: begin_response_def ready_def)
next
  case (Some hdr)
  let ?r = "begin_response env status ct extra len sv cc"
  have "0 < length hdr" using format_header_not_empty [OF Some] by simp
  then show ?thesis
    using assms Some unfolding replied_def
    by (intro exI [of _ "fst ?r"] exI [of _ "snd ?r"])
      (auto simp: begin_response_def ready_def sending_header_def)
qed

text \<open>The contract of a responding function, and what follows for the handler that calls it.\<close>

locale reply =
  fixes env :: senv and respond :: "server \<Rightarrow> conn \<Rightarrow> server \<times> conn"
  assumes respond_replied: "idle cc \<Longrightarrow> replied env sv cc (respond sv cc)"
begin

lemma respond_quiet:
  assumes "idle cc" and "cn_up_path cc = []"
  shows "quiet sv (fst (respond sv cc))"
    and "cn_up_path (snd (respond sv cc)) = []"
    and "\<not> cn_open (snd (respond sv cc)) \<or> cn_state (snd (respond sv cc)) = CONN_SEND_HEADER"
  using respond_replied [OF assms(1), of sv] assms(2) unfolding replied_def
  by (auto simp: conn_close_def)

end

interpretation buffer: reply env "respond_buffer env status ct body" for env status ct body
proof
  fix sv cc assume "idle cc"
  then have "ready (cc\<lparr>cn_out := Some body, cn_out_off := 0\<rparr>)" by (simp add: idle_def ready_def)
  from begin_response_replied [OF this, of env sv status ct "[]" "int (length body)"]
  show "replied env sv cc (respond_buffer env status ct body sv cc)"
    by (simp add: respond_buffer_def replied_def)
qed

lemma close_replied: "idle cc \<Longrightarrow> replied env sv cc (conn_close env sv cc)"
  unfolding replied_def idle_def ready_def by (intro exI [of _ sv] exI [of _ cc]) simp

interpretation json: reply env "respond_json env status w" for env status w
  by unfold_locales (simp add: respond_json_def close_replied buffer.respond_replied)

interpretation error: reply env "respond_error env status msg" for env status msg
  by unfold_locales (simp add: respond_error_def Let_def close_replied buffer.respond_replied)

interpretation bare: reply env "begin_response env status ct extra len" for env status ct extra len
  by unfold_locales (simp add: idle_def begin_response_replied)

section \<open>Handlers as runs of the store\<close>

lemma gc_loop_root: "st_root (fst (gc_loop env dry live ns s freed removed)) = st_root s"
  by (induction ns arbitrary: s freed removed) (auto simp: Let_def split: option.split sum.split)

lemma gc_root: "store_gc env s dry = (k, freed, s') \<Longrightarrow> st_root s' = st_root s"
  using gc_loop_root [of env dry _ _ s 0 0]
  by (auto simp: store_gc_def Let_def split: prod.splits if_splits sum.splits) (metis fst_conv)+

lemma step_root: "store_step sha care s s' \<Longrightarrow> st_root s' = st_root s"
proof (erule store_step.cases, goal_cases)
  case (1 env s name digest e s')
  then show ?case using publish_root [of env s name digest] by simp
next
  case (2 env s name e r s')
  then have "store_unpublish env s name = (e, r, s')" by simp
  then show ?case using 2 by (cases rule: unpublish_outcome) auto
next
  case (3 env s n p s')
  then show ?case by (auto simp: store_tmp_path_def Let_def)
next
  case (7 s tmp b m t env e s')
  then have "store_blob_adopt env s tmp (sha b) = (e, s')" by simp
  then show ?case using 7 by (cases rule: adopt_outcome) auto
next
  case (9 env s dry k freed s')
  then show ?case using gc_root by simp
next
  case (10 env s dry rc cnt s')
  then show ?case using canonicalize_moves moves_keep by blast
next
  case (11 env s arch dry rc cnt s')
  then show ?case using set_arch_moves moves_keep by blast
qed auto

lemma steps_root: "(store_step sha care)\<^sup>*\<^sup>* s s' \<Longrightarrow> st_root s' = st_root s"
  by (induction rule: rtranclp_induct) (auto dest: step_root)


definition steps_to :: "(bytes \<Rightarrow> string) \<Rightarrow> bool \<Rightarrow> server \<Rightarrow> server \<Rightarrow> bool" where
  "steps_to sha care sv sv' \<longleftrightarrow>
     (store_step sha care)\<^sup>*\<^sup>* (sv_store sv) (sv_store sv') \<and> sv_conf sv' = sv_conf sv \<and> sv_suffixes sv' = sv_suffixes sv"

definition handled :: "(bytes \<Rightarrow> string) \<Rightarrow> bool \<Rightarrow> server \<Rightarrow> server \<times> conn \<Rightarrow> bool" where
  "handled sha care sv r \<longleftrightarrow> steps_to sha care sv (fst r) \<and> conn_wf (st_root (sv_store sv)) (snd r)"

lemma steps_refl [simp]: "steps_to sha care sv sv"
  by (simp add: steps_to_def)

lemma steps_trans: "steps_to sha care sv sv1 \<Longrightarrow> steps_to sha care sv1 sv2 \<Longrightarrow> steps_to sha care sv sv2"
  by (auto simp: steps_to_def)

lemma steps_same:
  "steps_to sha care sv sv1 \<Longrightarrow> sv_store sv2 = sv_store sv1 \<Longrightarrow> sv_conf sv2 = sv_conf sv1 \<Longrightarrow>
   sv_suffixes sv2 = sv_suffixes sv1 \<Longrightarrow> steps_to sha care sv sv2"
  by (simp add: steps_to_def)

lemma steps_quiet: "steps_to sha care sv sv1 \<Longrightarrow> quiet sv1 sv2 \<Longrightarrow> steps_to sha care sv sv2"
  using quiet_fields by (blast intro: steps_same)

lemma steps_store:
  assumes "steps_to sha care sv sv1" and "store_step sha care (sv_store sv1) s"
  shows "steps_to sha care sv (sv1\<lparr>sv_store := s\<rparr>)"
  using assms by (auto simp: steps_to_def)

lemma steps_to_root: "steps_to sha care sv sv1 \<Longrightarrow> st_root (sv_store sv1) = st_root (sv_store sv)"
  unfolding steps_to_def using steps_root by blast

lemma set_fs_same [simp]: "set_fs sv (st_fs (sv_store sv)) = sv"
  by (simp add: set_fs_def)

lemma unlink_steps:
  assumes "steps_to sha care sv sv1" and "up_area (st_root (sv_store sv)) (cn_up_path cc)"
  shows "steps_to sha care sv (unlink_upload env sv1 cc)"
proof (cases "sys_unlink (se_env env) (st_fs (sv_store sv1)) (cn_up_path cc)")
  case (Inl e)
  then show ?thesis using assms(1) by (simp add: unlink_upload_def ignoring_def)
next
  case (Inr fs')
  have "tmp_area (st_root (sv_store sv1)) (cn_up_path cc)"
    using assms(2) by (simp add: up_tmp steps_to_root [OF assms(1)])
  from steps_store [OF assms(1) step_tmp_unlink [OF this Inr]] show ?thesis
    by (simp add: unlink_upload_def ignoring_def set_fs_def Inr)
qed

text \<open>The upload of a connection, if it has one, is in its area.\<close>

abbreviation up_ok :: "server \<Rightarrow> conn \<Rightarrow> bool" where
  "up_ok sv cc \<equiv> cn_up_path cc \<noteq> [] \<longrightarrow> up_area (st_root (sv_store sv)) (cn_up_path cc)"

lemma close_handled:
  assumes "steps_to sha care sv sv1" and "up_ok sv cc" and "\<not> cn_open cc \<longrightarrow> conn_wf (st_root (sv_store sv)) cc"
  shows "handled sha care sv (conn_close env sv1 cc)"
  using assms unlink_steps [OF assms(1)]
  by (auto simp: handled_def conn_close_def conn_wf_def)

lemma replied_handled:
  assumes "steps_to sha care sv sv1" and "replied env sv1 cc r" and "up_ok sv cc"
  shows "handled sha care sv r"
proof -
  obtain sv2 cc2 where q: "quiet sv1 sv2" and c: "cn_open cc2" "cn_up_path cc2 = cn_up_path cc"
    and r: "r = conn_close env sv2 cc2
      \<or> r = (sv2, cc2) \<and> cn_state cc2 = CONN_SEND_HEADER \<and> cn_interest cc2 = EPOLLOUT \<and> sending_header cc2"
    using assms(2) unfolding replied_def by blast
  have st: "steps_to sha care sv sv2" by (rule steps_quiet [OF assms(1) q])
  from r show ?thesis
  proof
    assume "r = conn_close env sv2 cc2"
    then show ?thesis using close_handled [OF st] assms(3) c by simp
  next
    assume "r = (sv2, cc2) \<and> cn_state cc2 = CONN_SEND_HEADER \<and> cn_interest cc2 = EPOLLOUT \<and> sending_header cc2"
    then show ?thesis using st assms(3) c by (simp add: handled_def conn_wf_def)
  qed
qed

context reply
begin

lemma respond_handled: "steps_to sha care sv sv1 \<Longrightarrow> idle cc \<Longrightarrow> up_ok sv cc \<Longrightarrow> handled sha care sv (respond sv1 cc)"
  by (rule replied_handled [OF _ respond_replied])

end

text \<open>Fields that play no part.\<close>

lemma idle_fields [simp]:
  "idle (cc\<lparr>cn_note := x\<rparr>) = idle cc" "idle (cc\<lparr>cn_head_only := b\<rparr>) = idle cc"
  "idle (cc\<lparr>cn_http := h\<rparr>) = idle cc" "idle (cc\<lparr>cn_up_fd := f\<rparr>) = idle cc"
  "idle (cc\<lparr>cn_up_path := p\<rparr>) = idle cc" "idle (cc\<lparr>cn_child := b\<rparr>) = idle cc"
  "idle (cc\<lparr>cn_state := st\<rparr>) = idle cc" "idle (cc\<lparr>cn_last_ms := t\<rparr>) = idle cc"
  "idle (cc\<lparr>cn_interest := i\<rparr>) = idle cc" "idle (cc\<lparr>cn_up_digest := x\<rparr>) = idle cc"
  "idle (cc\<lparr>cn_up_name := x\<rparr>) = idle cc" "idle (cc\<lparr>cn_up_expect := z\<rparr>) = idle cc"
  "idle (cc\<lparr>cn_up_received := z\<rparr>) = idle cc"
  by (simp_all add: idle_def ready_def)

lemma gated_fields [simp]:
  "gated (cc\<lparr>cn_up_fd := f\<rparr>) = gated cc" "gated (cc\<lparr>cn_up_path := p\<rparr>) = gated cc"
  "gated (cc\<lparr>cn_child := b\<rparr>) = gated cc" "gated (cc\<lparr>cn_state := st\<rparr>) = gated cc"
  "gated (cc\<lparr>cn_last_ms := t\<rparr>) = gated cc" "gated (cc\<lparr>cn_interest := i\<rparr>) = gated cc"
  "gated (cc\<lparr>cn_up_received := z\<rparr>) = gated cc" "gated (cc\<lparr>cn_http := h\<rparr>) = gated cc"
  by (simp_all add: gated_def)

section \<open>Serving and receiving\<close>

lemma serve_artifact_handled:
  assumes "steps_to sha care sv sv1" and "idle cc" and "up_ok sv cc"
  shows "handled sha care sv (serve_artifact env req name head_only sv1 cc)"
proof (cases "bearer_ok req (cf_pull_token (sv_conf sv1))")
  case False
  then show ?thesis using error.respond_handled [OF assms] by (simp add: serve_artifact_def)
next
  case True
  show ?thesis
  proof (cases "store_open (se_env env) (sv_store sv1) name STORE_NAME_MAX")
    case (Inl e)
    have st: "steps_to sha care sv (sv1\<lparr>sv_artifact_misses := m\<rparr>)" "steps_to sha care sv (server_log env l t sv1)" for m l t
      by (rule steps_same [OF assms(1)]; simp)+
    show ?thesis using True Inl assms(2,3)
      by (auto simp: serve_artifact_def intro!: error.respond_handled st)
  next
    case (Inr r)
    obtain fd sz digest served where r: "r = (fd, sz, digest, served)" by (cases r)
    let ?sv1 = "sv1\<lparr>sv_artifact_hits := sv_artifact_hits sv1 + 1\<rparr>"
    obtain sv2 cc2 where n: "note_alias env name served ?sv1 cc = (sv2, cc2)" by (cases "note_alias env name served ?sv1 cc")
    have "sv_store sv2 = sv_store sv1 \<and> sv_conf sv2 = sv_conf sv1 \<and> sv_suffixes sv2 = sv_suffixes sv1
        \<and> (\<exists>x. cc2 = cc\<lparr>cn_note := x\<rparr>)"
      using n by (auto simp: note_alias_def split: if_splits)
    then have st: "steps_to sha care sv sv2" and cc2: "\<exists>x. cc2 = cc\<lparr>cn_note := x\<rparr>"
      using steps_same [OF assms(1)] by auto
    let ?cc3 = "if head_only then cc2\<lparr>cn_head_only := head_only\<rparr>
      else cc2\<lparr>cn_head_only := head_only, cn_blob := map_of (st_fs (sv_store sv1)) fd, cn_body_off := 0, cn_body_len := sz\<rparr>"
    have rd: "ready ?cc3" and up: "up_ok sv ?cc3" using cc2 assms(2,3) by (auto simp: idle_def ready_def)
    show ?thesis
      using replied_handled [OF st begin_response_replied [OF rd] up] True Inr r n
      by (auto simp: serve_artifact_def Let_def)
  qed
qed

lemma start_hash_child_handled:
  assumes "steps_to sha care sv sv1" and "idle cc" and "up_ok sv cc" and "cn_up_path cc \<noteq> []"
    and "cn_up_expect cc \<le> cn_up_received cc" and "gated cc"
  shows "handled sha care sv (start_hash_child env sv1 cc)"
proof -
  let ?c1 = "cc\<lparr>cn_up_fd := None\<rparr>"
  let ?c2 = "?c1\<lparr>cn_child := True, cn_state := CONN_HASHING, cn_last_ms := se_now_ms env, cn_interest := Want_Nothing\<rparr>"
  have e: "handled sha care sv (respond_error env st msg sv1 ?c1)" "handled sha care sv (respond_error env st msg sv1 ?c2)" for st msg
    using assms by (auto intro!: error.respond_handled)
  have "cn_open cc" using assms(2) by (simp add: idle_def ready_def)
  then have "handled sha care sv (sv1, ?c2)" using assms by (simp add: handled_def conn_wf_def)
  then show ?thesis using e by (simp add: start_hash_child_def Let_def)
qed

lemma namei_up: "no_up_links s \<Longrightarrow> up_area (st_root s) p \<Longrightarrow> namei (st_fs s) p = Some p"
  by (rule namei_plain) (auto simp: no_up_links_def)

lemma create_up:
  assumes "sys_create env (st_fs s) p = Inr (q, fs)" and "no_up_links s" and "up_area (st_root s) p"
  shows "q = p \<and> (\<exists>m t. fs = AList.update p (Reg [] m t) (st_fs s))"
  using assms(1) namei_up [OF assms(2,3)]
  by (auto simp: sys_create_def split: if_splits option.splits node.splits)

lemma stage_bytes_step:
  assumes "stage_bytes env (st_fs s) p data = (n, fs)" and "up_area (st_root s) p"
  shows "fs = st_fs s \<or> store_step sha care s (s\<lparr>st_fs := fs\<rparr>)"
  using assms(1) step_tmp_write [OF up_tmp [OF assms(2)]]
  by (auto simp: stage_bytes_def Let_def split: option.splits node.splits)

lemma stage_steps:
  assumes "steps_to sha care sv sv1" and "stage_bytes env (st_fs (sv_store sv1)) p data = (n, fs)"
    and "up_area (st_root (sv_store sv)) p"
  shows "steps_to sha care sv (set_fs sv1 fs)"
  using stage_bytes_step [OF assms(2), of sha care] assms(3) steps_to_root [OF assms(1)] assms(1)
    steps_store [OF assms(1), of "(sv_store sv1)\<lparr>st_fs := fs\<rparr>"]
  by (auto simp: set_fs_def)


text \<open>A store that a run can start from.\<close>

definition sound :: "(bytes \<Rightarrow> string) \<Rightarrow> bool \<Rightarrow> server \<Rightarrow> bool" where
  "sound sha care sv \<longleftrightarrow> store_inv sha care (sv_store sv) \<and> no_up_links (sv_store sv)"

lemma steps_sound:
  assumes "steps_to sha care sv sv'" and "sound sha care sv"
  shows "sound sha care sv'"
proof -
  have "(store_step sha care)\<^sup>*\<^sup>* (sv_store sv) (sv_store sv')" using assms(1) by (simp add: steps_to_def)
  then have "store_inv sha care (sv_store sv') \<and> no_up_links (sv_store sv')"
  proof (induction rule: rtranclp_induct)
    case base
    then show ?case using assms(2) by (simp add: sound_def)
  next
    case (step y z)
    then show ?case using inv_step step_no_links by blast
  qed
  then show ?thesis by (simp add: sound_def)
qed

lemma tmp_path_up:
  assumes "store_tmp_path env s n = (p, s')"
  shows "store_step sha care s s' \<and> st_fs s' = st_fs s \<and> st_root s' = st_root s
    \<and> (case p of None \<Rightarrow> True | Some q \<Rightarrow> up_area (st_root s) q)"
proof -
  have "s' = s\<lparr>st_tmp := next_tmp (st_tmp s)\<rparr>"
    and "p = None \<or> p = Some (st_root s @ ''/tmp/.up.'' @ nat_dec (ev_pid env) @ ''.'' @ nat_dec (st_tmp s))"
    using assms by (auto simp: store_tmp_path_def Let_def split: if_splits)
  moreover have "store_step sha care s s'" by (rule step_tmp_path [OF assms])
  ultimately show ?thesis by (auto simp: up_area_def)
qed

lemma stage_upload_handled:
  assumes st: "steps_to sha care sv sv1" and snd: "sound sha care sv" and "idle cc" and "cn_up_path cc = []"
    and "\<not> cn_child cc" and "cn_interest cc = EPOLLIN" and "cn_up_received cc = 0" and "0 < cn_up_expect cc"
    and "gated cc"
  shows "handled sha care sv (stage_upload env req sv1 cc)"
proof -
  have root: "st_root (sv_store sv1) = st_root (sv_store sv)" by (rule steps_to_root [OF st])
  obtain tp s where t: "store_tmp_path (se_env env) (sv_store sv1) PATH_MAX = (tp, s)" by fastforce
  note tu = tmp_path_up [OF t, of sha]
  have st2: "steps_to sha care sv (sv1\<lparr>sv_store := s\<rparr>)" using steps_store [OF st] tu by blast
  have err: "handled sha care sv (respond_error env c msg (sv1\<lparr>sv_store := s\<rparr>) cc)" for c msg
    using error.respond_handled [OF st2 assms(3)] assms(4) by simp
  show ?thesis
  proof (cases tp)
    case None
    then show ?thesis using err t by (simp add: stage_upload_def)
  next
    case (Some p)
    have up: "up_area (st_root (sv_store sv)) p" using tu root Some by simp
    then have ne: "p \<noteq> []" by (rule up_not_empty)
    have nl: "no_up_links s" using steps_sound [OF st2 snd] by (simp add: sound_def)
    have rs: "st_root s = st_root (sv_store sv)" using tu root by simp
    show ?thesis
    proof (cases "sys_create env (st_fs s) p")
      case (Inl e)
      then show ?thesis using err t Some by (simp add: stage_upload_def)
    next
      case (Inr r)
      obtain q fs where r: "r = (q, fs)" by (cases r)
      have q: "q = p" and fs: "\<exists>m k. fs = AList.update p (Reg [] m k) (st_fs s)"
        using create_up [OF Inr [unfolded r] nl] up rs by auto
      have "store_step sha care s (s\<lparr>st_fs := fs\<rparr>)" using fs step_tmp_write up_tmp up rs by metis
      then have st3: "steps_to sha care sv (set_fs (sv1\<lparr>sv_store := s\<rparr>) fs)"
        using steps_store [OF st2, of "s\<lparr>st_fs := fs\<rparr>"] by (simp add: set_fs_def)
      let ?sv3 = "set_fs (sv1\<lparr>sv_store := s\<rparr>) fs"
      let ?c = "cc\<lparr>cn_up_path := p, cn_up_fd := Some p, cn_state := CONN_RECV_BODY\<rparr>"
      have idle: "idle ?c" using assms(3) by simp
      have recv: "handled sha care sv (sv9, ?c\<lparr>cn_up_received := k\<rparr>)" if "steps_to sha care sv sv9" "k < cn_up_expect cc" for sv9 k
        using that assms(3-6,9) up ne by (simp add: handled_def conn_wf_def idle_def ready_def)
      have hash: "handled sha care sv (start_hash_child env sv9 (?c\<lparr>cn_up_received := k\<rparr>))"
        if "steps_to sha care sv sv9" "cn_up_expect cc \<le> k" for sv9 k
        using start_hash_child_handled [OF that(1)] that(2) idle up ne assms(9) by simp
      have same: "?c\<lparr>cn_up_received := 0\<rparr> = ?c" using assms(7) by simp
      show ?thesis
      proof (cases "rq_body req = []")
        case True
        then show ?thesis
          using recv [OF st3, of 0] assms(8) t Some Inr r q by (simp add: stage_upload_def Let_def same assms(7))
      next
        case False
        obtain n fs' where w: "stage_bytes env fs p (rq_body req) = (n, fs')" by fastforce
        have w': "stage_bytes env (st_fs (sv_store ?sv3)) p (rq_body req) = (n, fs')" using w by (simp add: set_fs_def)
        have st4: "steps_to sha care sv (set_fs ?sv3 fs')" by (rule stage_steps [OF st3 w' up])
        have "handled sha care sv (respond_error env c msg (set_fs ?sv3 fs') ?c)" for c msg
          using error.respond_handled [OF st4 idle] up by simp
        then show ?thesis
          using recv [OF st4] hash [OF st4] False t Some Inr r q w
          by (simp add: stage_upload_def Let_def)
      qed
    qed
  qed
qed

lemma begin_upload_handled:
  assumes st: "steps_to sha care sv sv1" and snd: "sound sha care sv" and "idle cc" and "cn_up_path cc = []"
    and "\<not> cn_child cc" and "cn_interest cc = EPOLLIN"
  shows "handled sha care sv (begin_upload env req name sv1 cc)"
proof -
  have err: "handled sha care sv (respond_error env c msg sv9 cc)" if "steps_to sha care sv sv9" for c msg sv9
    using error.respond_handled [OF that assms(3)] assms(4) by simp
  have log: "steps_to sha care sv (server_log env l t sv1)" for l t by (rule steps_quiet [OF st]) simp
  have len: "0 < rq_content_length req \<and> gated (cc\<lparr>cn_up_digest := snprintf STORE_SHA256_MAX d,
      cn_up_name := snprintf STORE_NAME_MAX name, cn_up_expect := k, cn_up_received := z\<rparr>)"
    if "upload_gate env sv1 req name = Inr d" for d k z
    using that valid_length [of name]
    by (auto simp: upload_gate_def gated_def snprintf_def store_digest_is_valid_iff STORE_SHA256_MAX_def
        STORE_SHA256_HEX_LEN_def STORE_NAME_MAX_def split: if_splits option.splits)
  show ?thesis
    using assms(3-6) len
    by (auto simp: begin_upload_def split: sum.split prod.split
        intro!: err st log stage_upload_handled [OF st snd])
qed

section \<open>Finishing an upload\<close>

text \<open>
  What the server relies on of \<^verbatim>\<open>sha256sum\<close>: for a plain file a digest it prints is that of the file's
  bytes, and for a missing file or a directory it prints none.
\<close>

definition honest :: "(bytes \<Rightarrow> string) \<Rightarrow> senv \<Rightarrow> bool" where
  "honest sha env \<longleftrightarrow>
     (\<forall>fs p. let d = take STORE_SHA256_HEX_LEN (se_sha256sum env fs p)
        in store_digest_is_valid d \<longrightarrow>
          (case map_of fs p of Some (Reg b _ _) \<Rightarrow> d = sha b | Some (Lnk _ _) \<Rightarrow> True | _ \<Rightarrow> False))"

lemma adopt_upload_handled:
  assumes st: "steps_to sha care sv sv1" and "idle cc" and up: "up_area (st_root (sv_store sv)) (cn_up_path cc)"
    and reg: "map_of (st_fs (sv_store sv1)) (cn_up_path cc) = Some (Reg b m t)"
  shows "handled sha care sv (adopt_upload env (sha b) sv1 cc)"
proof -
  obtain e s1 where a: "store_blob_adopt (se_env env) (sv_store sv1) (cn_up_path cc) (sha b) = (e, s1)" by fastforce
  obtain e' s2 where p: "store_publish (se_env env) s1 (cn_up_name cc) (sha b) = (e', s2)" by fastforce
  have "staged_at (sv_store sv1) (cn_up_path cc)"
    using up_tmp [OF up] steps_to_root [OF st] by (simp add: staged_at_def)
  then have "store_step sha care (sv_store sv1) s1"
    by (rule store_step.step_adopt [where b = b and sha = sha]) (rule reg a)+
  then have st1: "steps_to sha care sv (sv1\<lparr>sv_store := s1\<rparr>)" by (rule steps_store [OF st])
  have st2: "steps_to sha care sv (sv1\<lparr>sv_store := s2\<rparr>)"
    using steps_store [OF st1] step_publish [OF p] by simp
  let ?c = "cc\<lparr>cn_up_path := []\<rparr>"
  have c: "idle ?c" "up_ok sv ?c" using assms(2) by simp_all
  have log: "steps_to sha care sv (server_log env l x (sv1\<lparr>sv_store := s2\<rparr>))" for l x by (rule steps_quiet [OF st2]) simp
  show ?thesis
    using a p error.respond_handled [OF st1 c] error.respond_handled [OF st2 c]
      replied_handled [OF log begin_response_replied c(2)] c(1)
    by (simp add: adopt_upload_def Let_def idle_def)
qed

lemma settle_upload_handled:
  assumes st: "steps_to sha care sv sv1" and "idle cc" and up: "up_area (st_root (sv_store sv)) (cn_up_path cc)"
    and reg: "map_of (st_fs (sv_store sv1)) (cn_up_path cc) = Some (Reg b m t)"
  shows "handled sha care sv (settle_upload env (sha b) sv1 cc)"
proof -
  let ?c = "cc\<lparr>cn_up_path := []\<rparr>"
  have c: "idle ?c" "up_ok sv ?c" using assms(2) by simp_all
  have st1: "steps_to sha care sv (unlink_upload env sv1 cc)" by (rule unlink_steps [OF st up])
  have log: "steps_to sha care sv (server_log env l x (unlink_upload env sv1 cc))" for l x
    by (rule steps_quiet [OF st1]) simp
  show ?thesis
    using adopt_upload_handled [OF assms] error.respond_handled [OF st1 c] error.respond_handled [OF log c]
    by (auto simp: settle_upload_def split: sum.split)
qed

lemma finish_upload_handled:
  assumes st: "steps_to sha care sv sv1" and snd: "sound sha care sv" and hon: "honest sha env" and "idle cc"
    and up: "up_area (st_root (sv_store sv)) (cn_up_path cc)"
  shows "handled sha care sv (finish_upload env sv1 cc)"
proof -
  let ?c = "cc\<lparr>cn_child := False\<rparr>"
  have c: "idle ?c" "up_ok sv ?c" using assms(4) up by simp_all
  have log: "steps_to sha care sv (server_log env l x sv1)" for l x by (rule steps_quiet [OF st]) simp
  note errs = error.respond_handled [OF st c] error.respond_handled [OF log c]
  let ?d = "take STORE_SHA256_HEX_LEN (hash_output env sv1 cc)"
  have d: "?d = take STORE_SHA256_HEX_LEN (se_sha256sum env (st_fs (sv_store sv1)) (cn_up_path cc))"
    by (simp add: hash_output_def STORE_SHA256_HEX_LEN_def)
  have settle: "handled sha care sv (settle_upload env ?d sv1 ?c)" if v: "store_digest_is_valid ?d"
  proof -
    have "no_up_links (sv_store sv1)" using steps_sound [OF st snd] by (simp add: sound_def)
    moreover have "up_area (st_root (sv_store sv1)) (cn_up_path cc)" using up steps_to_root [OF st] by simp
    ultimately have nl: "map_of (st_fs (sv_store sv1)) (cn_up_path cc) \<noteq> Some (Lnk x y)" for x y
      unfolding no_up_links_def by blast
    have "case map_of (st_fs (sv_store sv1)) (cn_up_path cc) of
        Some (Reg b _ _) \<Rightarrow> ?d = sha b | Some (Lnk _ _) \<Rightarrow> True | _ \<Rightarrow> False"
      using hon v unfolding honest_def Let_def d by blast
    with nl obtain b m t where "map_of (st_fs (sv_store sv1)) (cn_up_path cc) = Some (Reg b m t)" "?d = sha b"
      by (auto split: option.splits node.splits)
    then show ?thesis using settle_upload_handled [OF st c(1), of b m t env] up by simp
  qed
  show ?thesis using errs settle by (auto simp: finish_upload_def Let_def)
qed

end
