(* ===== verification/Server_Main.thy ===== *)
theory Server_Main
  imports Server_Reactor Store_Policy
begin

text \<open>
  Starting the server (\<^verbatim>\<open>main\<close> of \<^verbatim>\<open>src/src/main.c\<close>): the command line laid over the configuration file laid
  over the defaults, the offline commands, and the state the event loop starts from. The
  configuration files, the socket set-up and the importer's surroundings are parameters;
  what is printed is left out.
\<close>

record options =
  op_conf :: conf
  op_import :: bool
  op_canonicalize :: bool
  op_set_arch :: "string option"
  op_dry_run :: bool

definition has_prefix :: "string \<Rightarrow> string \<Rightarrow> bool" where
  "has_prefix arg flag \<longleftrightarrow> c_strncmp arg flag (length flag) = 0"

text \<open>The first pass: the last \<^verbatim>\<open>--config=\<close> counts.\<close>

fun config_path :: "string list \<Rightarrow> string option \<Rightarrow> string option" where
  "config_path [] p = p"
| "config_path (a # as) p = config_path as (if has_prefix a ''--config='' then Some (drop 9 a) else p)"

text \<open>One argument: \<open>Inl\<close> is the exit code of a program that stops there.\<close>

definition set_text :: "nat \<Rightarrow> nat \<Rightarrow> string \<Rightarrow> string" where
  "set_text n flag_len a = snprintf n (drop flag_len a)"

definition parse_arg :: "string \<Rightarrow> options \<Rightarrow> int + options" where
  "parse_arg a o1 =
     (let c = op_conf o1
      in if has_prefix a ''--config='' then Inr o1
         else if has_prefix a ''--root='' then Inr (o1\<lparr>op_conf := c\<lparr>cf_root := set_text CONF_PATH_MAX 7 a\<rparr>\<rparr>)
         else if has_prefix a ''--bind='' then Inr (o1\<lparr>op_conf := c\<lparr>cf_bind := set_text CONF_BIND_MAX 7 a\<rparr>\<rparr>)
         else if has_prefix a ''--port='' then
           (case conf_parse_port (Some (drop 7 a)) of
              None \<Rightarrow> Inl 2
            | Some port \<Rightarrow> Inr (o1\<lparr>op_conf := c\<lparr>cf_port := port\<rparr>\<rparr>))
         else if has_prefix a ''--web-root='' then
           Inr (o1\<lparr>op_conf := c\<lparr>cf_web_root := set_text CONF_PATH_MAX 11 a\<rparr>\<rparr>)
         else if has_prefix a ''--push-token='' then
           Inr (o1\<lparr>op_conf := c\<lparr>cf_push_token := set_text CONF_TOKEN_MAX 13 a\<rparr>\<rparr>)
         else if has_prefix a ''--pull-token='' then
           Inr (o1\<lparr>op_conf := c\<lparr>cf_pull_token := set_text CONF_TOKEN_MAX 13 a\<rparr>\<rparr>)
         else if has_prefix a ''--require-signature='' then
           Inr (o1\<lparr>op_conf := c\<lparr>cf_require_signature := set_text CONF_TOKEN_MAX 20 a\<rparr>\<rparr>)
         else if a = ''--import'' then Inr (o1\<lparr>op_import := True\<rparr>)
         else if a = ''--canonicalize'' then Inr (o1\<lparr>op_canonicalize := True\<rparr>)
         else if has_prefix a ''--set-arch='' then Inr (o1\<lparr>op_set_arch := Some (drop 11 a)\<rparr>)
         else if a = ''--dry-run'' then Inr (o1\<lparr>op_dry_run := True\<rparr>)
         else if a = ''--version'' then Inl 0
         else if a = ''--help'' then Inl 0
         else Inl 2)"

fun parse_args :: "string list \<Rightarrow> options \<Rightarrow> int + options" where
  "parse_args [] o1 = Inr o1"
| "parse_args (a # as) o1 = (case parse_arg a o1 of Inl rc \<Rightarrow> Inl rc | Inr o2 \<Rightarrow> parse_args as o2)"

definition start_options :: "conf \<Rightarrow> options" where
  "start_options c =
     \<lparr>op_conf = c, op_import = False, op_canonicalize = False, op_set_arch = None, op_dry_run = False\<rparr>"

definition server_options :: "(string \<Rightarrow> conf_file) \<Rightarrow> string list \<Rightarrow> int + options" where
  "server_options files args =
     (case config_path args None of
        None \<Rightarrow> parse_args args (start_options conf_defaults)
      | Some p \<Rightarrow>
          (case conf_load conf_defaults (files p) of
             (rc, c) \<Rightarrow> if rc \<noteq> 0 then Inl 1 else parse_args args (start_options c)))"

section \<open>Offline commands\<close>

definition migration_exit :: "int \<times> (int \<times> int) option \<times> store \<Rightarrow> int" where
  "migration_exit r =
     (case r of (rc, out, s) \<Rightarrow>
        if rc = 0 \<and> (case out of None \<Rightarrow> 0 | Some (renamed, conflicts) \<Rightarrow> conflicts) = 0 then 0 else 1)"

definition run_import :: "senv \<Rightarrow> hasher \<Rightarrow> bytes option \<Rightarrow> options \<Rightarrow> store \<Rightarrow> int \<times> store" where
  "run_import env sha256sum manifest_file o1 s =
     (case importer_run (se_env env) sha256sum (\<lambda>_. ()) (cf_root (op_conf o1)) manifest_file (op_dry_run o1) s of
        (rc, _, s') \<Rightarrow> (if rc = 0 then 0 else 1, s'))"

section \<open>The event loop's first state\<close>

definition start_server :: "senv \<Rightarrow> build_info \<Rightarrow> conf \<Rightarrow> suffix_table \<Rightarrow> store \<Rightarrow> server" where
  "start_server env bi c tbl s =
     server_log env ''info''
       (CIXCACHE_BUILD_VERSION bi @ (if CIXCACHE_BUILD_DIRTY bi then '' (dirty tree)'' else '''')
        @ '' serving '' @ cf_root c @ '' on '' @ cf_bind c @ '':'' @ int_dec (cf_port c))
       \<lparr>sv_conf = c, sv_suffixes = tbl, sv_store = s, sv_started_ms = se_now_ms env, sv_served_bytes = 0,
        sv_requests = 0, sv_artifact_hits = 0, sv_artifact_misses = 0, sv_artifact_aliases = 0,
        sv_log = replicate LOG_RING empty_log_entry, sv_log_seq = 0, sv_import_running = False,
        sv_import_started_ms = 0, sv_import_last_status = - 1, sv_importers = [], sv_import_watched = False,
        sv_undefined = False\<rparr>"

text \<open>
  \<open>listening\<close>: whether epoll and the listening socket for this address and port could be set up. The
  result is the exit code with the store left behind, or the reactor that starts.
\<close>

definition server_main ::
  "senv \<Rightarrow> build_info \<Rightarrow> (string \<Rightarrow> conf_file) \<Rightarrow> hasher \<Rightarrow> bytes option \<Rightarrow> (string \<Rightarrow> int \<Rightarrow> bool) \<Rightarrow>
   string list \<Rightarrow> store \<Rightarrow> int \<times> store + reactor" where
  "server_main env bi files sha256sum manifest_file listening args s0 =
     (case server_options files args of
        Inl rc \<Rightarrow> Inl (rc, s0)
      | Inr o1 \<Rightarrow>
          (let c = op_conf o1
           in case store_set_signature_policy (Some (cf_require_signature c)) 64 g_suffixes of
                (_, _, tbl) \<Rightarrow>
                  (case store_init (se_env env) (cf_root c) s0 of
                     (rc, s) \<Rightarrow>
                       if rc \<noteq> 0 then Inl (1, s)
                       else if op_import o1 then Inl (run_import env sha256sum manifest_file o1 s)
                       else if op_canonicalize o1 then
                         (let r = store_canonicalize (se_env env) s (op_dry_run o1)
                          in Inl (migration_exit r, snd (snd r)))
                       else
                         (case op_set_arch o1 of
                            Some arch \<Rightarrow>
                              (let r = store_set_arch (se_env env) s arch (op_dry_run o1)
                               in Inl (migration_exit r, snd (snd r)))
                          | None \<Rightarrow>
                              if \<not> listening (cf_bind c) (cf_port c) \<or> se_fails env SRV_conn_alloc
                                 \<or> se_fails env SRV_epoll_add
                              then Inl (1, s)
                              else Inr \<lparr>rx_server = start_server env bi c tbl s, rx_conns = [], rx_next = 0\<rparr>))))"

end
