(* ===== verification/Server_System.thy ===== *)
theory Server_System
  imports Server_Steps Server_Main
begin

text \<open>
  Routing, reading, writing and the event loop as runs of the store, and the reachable states of the
  whole server: the store of each is a reachable store and every connection is well formed.
\<close>

section \<open>Routing\<close>

lemma gc_handled:
  assumes "steps_to sha care sv sv1" and "care \<longrightarrow> reads_ok (se_env env)" and "idle cc" and "up_ok sv cc"
  shows "handled sha care sv (api_gc env dry sv1 cc)"
proof -
  obtain k f s where g: "store_gc (se_env env) (sv_store sv1) dry = (k, f, s)" by (metis prod.exhaust)
  have st: "steps_to sha care sv (sv1\<lparr>sv_store := s\<rparr>)" by (rule steps_store [OF assms(1) step_gc [OF assms(2) g]])
  have log: "steps_to sha care sv (server_log env l x (sv1\<lparr>sv_store := s\<rparr>))" for l x by (rule steps_quiet [OF st]) simp
  show ?thesis
    using g error.respond_handled [OF st assms(3,4)] json.respond_handled [OF log assms(3,4)]
    by (simp add: api_gc_def Let_def)
qed

lemma import_start_handled:
  assumes "steps_to sha care sv sv1" and "idle cc" and "up_ok sv cc"
  shows "handled sha care sv (api_import_start env sv1 cc)"
  using assms
  by (auto simp: api_import_start_def Let_def
      intro!: error.respond_handled bare.respond_handled intro: steps_same [OF assms(1)])

lemma api_log_handled:
  assumes "steps_to sha care sv sv1" and "idle cc" and "conn_wf (st_root (sv_store sv)) cc"
  shows "handled sha care sv (api_log env raw sv1 cc)"
proof -
  have up: "up_ok sv cc" using assms(3) by (simp add: conn_wf_def)
  have "handled sha care sv (sv1\<lparr>sv_undefined := True\<rparr>, cc)"
    using assms by (simp add: handled_def steps_to_def)
  then show ?thesis using json.respond_handled [OF assms(1,2) up] by (simp add: api_log_def Let_def)
qed

lemma serve_static_handled:
  assumes "steps_to sha care sv sv1" and "idle cc" and "up_ok sv cc"
  shows "handled sha care sv (serve_static env path head_only sv1 cc)"
proof -
  have h: "idle (cc\<lparr>cn_head_only := b\<rparr>)" "up_ok sv (cc\<lparr>cn_head_only := b\<rparr>)" for b using assms(2,3) by simp_all
  note r = error.respond_handled [OF assms] buffer.respond_handled [OF assms] bare.respond_handled [OF assms(1) h]
  let ?p = "cf_web_root (sv_conf sv1) @ (if path = ''/'' then ''/index.html'' else path)"
  show ?thesis
  proof (cases "sys_open (se_env env) (st_fs (sv_store sv1)) ?p")
    case (Inl e)
    then show ?thesis by (simp only: serve_static_def Let_def sum.case r if_split) simp
  next
    case (Inr fd)
    have "handled sha care sv
       (case (ev_fails (se_env env) SYS_fstat fd, map_of (st_fs (sv_store sv1)) fd) of
          (False, Some (Reg body mode mtime)) \<Rightarrow> f body
        | _ \<Rightarrow> respond_error env 404 ''no such endpoint'' sv1 cc)"
      if "\<And>body. handled sha care sv (f body)" for f
      using that r(1) by (auto split: bool.split option.split node.split)
    then show ?thesis unfolding serve_static_def Let_def Inr sum.case by (simp only: r if_split) (simp add: r)
  qed
qed

lemma delete_handled:
  assumes "steps_to sha care sv sv1" and "idle cc" and "up_ok sv cc"
  shows "handled sha care sv (delete_artifact env req name sv1 cc)"
proof -
  obtain e g s where u: "store_unpublish (se_env env) (sv_store sv1) name = (e, g, s)" by (metis prod.exhaust)
  have st: "steps_to sha care sv (sv1\<lparr>sv_store := s\<rparr>)" by (rule steps_store [OF assms(1) step_unpublish [OF u]])
  have log: "steps_to sha care sv (server_log env l x (sv1\<lparr>sv_store := s\<rparr>))" for l x by (rule steps_quiet [OF st]) simp
  show ?thesis
    using u error.respond_handled [OF assms] error.respond_handled [OF st assms(2,3)]
      bare.respond_handled [OF log assms(2,3)]
    by (simp add: delete_artifact_def Let_def)
qed

text \<open>A connection that has asked for something and has not been answered.\<close>

definition asking :: "server \<Rightarrow> conn \<Rightarrow> bool" where
  "asking sv cc \<longleftrightarrow> cn_open cc \<and> cn_state cc = CONN_READ_REQUEST \<and> conn_wf (st_root (sv_store sv)) cc"

lemma askingD:
  assumes "asking sv cc"
  shows "idle cc" "cn_up_path cc = []" "up_ok sv cc" "\<not> cn_child cc" "cn_interest cc = EPOLLIN"
    "conn_wf (st_root (sv_store sv)) cc"
  using assms by (auto simp: asking_def conn_wf_def)

lemma route_artifact_handled:
  assumes "steps_to sha care sv sv1" and "sound sha care sv" and "asking sv cc"
  shows "handled sha care sv (route_artifact env req path sv1 cc)"
  using askingD [OF assms(3)] assms(1,2)
  by (simp add: route_artifact_def Let_def error.respond_handled serve_artifact_handled begin_upload_handled
      delete_handled)

lemma route_api_handled:
  assumes "steps_to sha care sv sv1" and "care \<longrightarrow> reads_ok (se_env env)" and "asking sv cc"
  shows "handled sha care sv (route_api env bi req ep sv1 cc)"
  using askingD [OF assms(3)] assms(1,2)
  by (simp add: route_api_def Let_def error.respond_handled json.respond_handled gc_handled api_log_handled
      import_start_handled api_status_def api_artifacts_def api_import_status_def)

lemma dispatch_handled:
  assumes "steps_to sha care sv sv1" and "sound sha care sv" and "care \<longrightarrow> reads_ok (se_env env)" and "asking sv cc"
  shows "handled sha care sv (dispatch env bi req sv1 cc)"
proof -
  let ?sv = "sv1\<lparr>sv_requests := sv_requests sv1 + 1\<rparr>" and ?cc = "cc\<lparr>cn_head_only := False, cn_note := []\<rparr>"
  have st: "steps_to sha care sv ?sv" by (rule steps_same [OF assms(1)]) simp_all
  have "asking sv ?cc" using assms(4) by (auto simp: asking_def conn_wf_def)
  note a = askingD [OF this]
  show ?thesis
    using route_artifact_handled [OF st assms(2) \<open>asking sv ?cc\<close>] route_api_handled [OF st assms(3) \<open>asking sv ?cc\<close>]
      error.respond_handled [OF st a(1,3)] json.respond_handled [OF st a(1,3)] serve_static_handled [OF st a(1,3)]
    by (simp add: dispatch_def Let_def serve_manifest_def split: option.split)
qed

section \<open>Reading\<close>

lemma wf_last_ms: "conn_wf root (cc\<lparr>cn_last_ms := t\<rparr>) = conn_wf root cc"
  by (cases "cn_state cc") (simp_all add: conn_wf_def sending_header_def sending_body_def cong: if_cong option.case_cong)

text \<open>A handler of data: it goes on reading only on a connection that still reads.\<close>

definition received :: "(bytes \<Rightarrow> string) \<Rightarrow> bool \<Rightarrow> server \<Rightarrow> bool \<times> server \<times> conn \<Rightarrow> bool" where
  "received sha care sv r \<longleftrightarrow> handled sha care sv (snd r)
     \<and> (fst r \<or> cn_open (snd (snd r)) \<and> cn_interest (snd (snd r)) = EPOLLIN)"

lemma recv_body_handled:
  assumes st: "steps_to sha care sv sv1" and wf: "conn_wf (st_root (sv_store sv)) cc" and op: "cn_open cc"
    and rb: "cn_state cc = CONN_RECV_BODY"
  shows "received sha care sv (recv_body env data sv1 cc)"
proof -
  let ?p = "cn_up_path cc"
  have c: "idle cc" "?p \<noteq> []" "cn_up_fd cc = Some ?p" "\<not> cn_child cc" "cn_interest cc = EPOLLIN"
    "cn_up_received cc < cn_up_expect cc" "up_area (st_root (sv_store sv)) ?p" "gated cc"
    using wf op rb by (auto simp: conn_wf_def)
  define taken where "taken = (if int (length data) > cn_up_expect cc - cn_up_received cc
    then nat (cn_up_expect cc - cn_up_received cc) else length data)"
  obtain n fs where w: "stage_bytes env (st_fs (sv_store sv1)) ?p (take taken data) = (n, fs)" by fastforce
  have st1: "steps_to sha care sv (set_fs sv1 fs)" by (rule stage_steps [OF st w c(7)])
  define c1 where "c1 = cc\<lparr>cn_up_received := cn_up_received cc + int taken\<rparr>"
  have eq: "recv_body env data sv1 cc =
      (if n \<noteq> taken then (True, respond_error env 500 ''short write staging upload'' (set_fs sv1 fs) cc)
       else if cn_up_received c1 \<ge> cn_up_expect c1 then (True, start_hash_child env (set_fs sv1 fs) c1)
       else (False, set_fs sv1 fs, c1))"
    unfolding recv_body_def Let_def c(3) option.case taken_def [symmetric] w prod.case c1_def [symmetric] ..
  have c1: "idle c1" "cn_up_path c1 = ?p" "cn_up_expect c1 = cn_up_expect cc" "cn_open c1"
    "cn_state c1 = CONN_RECV_BODY" "cn_up_fd c1 = Some ?p" "\<not> cn_child c1" "cn_interest c1 = EPOLLIN" "gated c1"
    using c op rb by (simp_all add: c1_def)
  have "handled sha care sv (set_fs sv1 fs, c1)" if "\<not> cn_up_expect c1 \<le> cn_up_received c1"
    using st1 that c c1 by (simp add: handled_def conn_wf_def)
  moreover have "handled sha care sv (start_hash_child env (set_fs sv1 fs) c1)" if "cn_up_expect c1 \<le> cn_up_received c1"
    using start_hash_child_handled [OF st1 c1(1)] that c c1 by simp
  moreover have "handled sha care sv (respond_error env k msg (set_fs sv1 fs) cc)" for k msg
    using error.respond_handled [OF st1 c(1)] c(7) by simp
  ultimately show ?thesis unfolding eq received_def using c1(4,8) by (simp split: if_split)
qed

lemma recv_request_handled:
  assumes st: "steps_to sha care sv sv1" and "sound sha care sv" and "care \<longrightarrow> reads_ok (se_env env)" and ask: "asking sv cc"
  shows "received sha care sv (recv_request env bi data sv1 cc)"
proof -
  have h: "asking sv (cc\<lparr>cn_http := h\<rparr>)" for h using ask by (auto simp: asking_def conn_wf_def)
  have e: "handled sha care sv (respond_error env k msg sv1 (cc\<lparr>cn_http := h\<rparr>))" for h k msg
    using error.respond_handled [OF st] askingD [OF h [of h]] by blast
  have d: "handled sha care sv (dispatch env bi r sv1 (cc\<lparr>cn_http := h\<rparr>))" for h r
    by (rule dispatch_handled [OF st assms(2,3) h])
  have k: "handled sha care sv (sv1, cc\<lparr>cn_http := h\<rparr>)" for h
    using st askingD(6) [OF h [of h]] by (simp add: handled_def)
  have i: "cn_open (cc\<lparr>cn_http := h\<rparr>) \<and> cn_interest (cc\<lparr>cn_http := h\<rparr>) = EPOLLIN" for h
    using h [of h] askingD(5) [OF h [of h]] by (simp add: asking_def)
  show ?thesis
    using e d k i by (simp add: recv_request_def received_def Let_def split: sum.split prod.split option.split)
qed

lemma handle_read_handled:
  assumes "steps_to sha care sv sv1" and "sound sha care sv" and "care \<longrightarrow> reads_ok (se_env env)"
    and "conn_wf (st_root (sv_store sv)) cc" and "cn_open cc" and "cn_interest cc = EPOLLIN"
  shows "handled sha care sv (handle_read env bi rs sv1 cc)"
  using assms(1,4,5,6)
proof (induction rs arbitrary: sv1 cc)
  case Nil
  then show ?case by (simp add: handled_def)
next
  case (Cons r rs)
  have up: "up_ok sv cc" using Cons.prems(2) by (simp add: conn_wf_def)
  have close: "handled sha care sv (conn_close env sv1 cc)"
    by (rule close_handled [OF Cons.prems(1) up]) (simp add: Cons.prems(3))
  show ?case
  proof (cases r)
    case (Read_Data chunk)
    let ?data = "take READ_BUF chunk" and ?cc = "cc\<lparr>cn_last_ms := se_now_ms env\<rparr>"
    let ?step = "if cn_state ?cc = CONN_RECV_BODY then recv_body env ?data sv1 ?cc
      else recv_request env bi ?data sv1 ?cc"
    have wf: "conn_wf (st_root (sv_store sv)) ?cc" using Cons.prems(2) by (simp add: wf_last_ms)
    have state: "cn_state cc = CONN_READ_REQUEST \<or> cn_state cc = CONN_RECV_BODY"
      using Cons.prems(2-4) by (cases "cn_state cc") (auto simp: conn_wf_def)
    have "received sha care sv ?step"
    proof (cases "cn_state cc = CONN_RECV_BODY")
      case True
      then show ?thesis using recv_body_handled [OF Cons.prems(1) wf] Cons.prems(3) by simp
    next
      case False
      then have "asking sv ?cc" using state wf Cons.prems(3) by (simp add: asking_def)
      then show ?thesis using recv_request_handled [OF Cons.prems(1) assms(2,3)] False by simp
    qed
    moreover obtain fin sv2 cc2 where s: "?step = (fin, sv2, cc2)" by (metis prod.exhaust)
    ultimately have r: "handled sha care sv (sv2, cc2)" "fin \<or> cn_open cc2 \<and> cn_interest cc2 = EPOLLIN"
      by (simp_all add: received_def)
    have "handled sha care sv (handle_read env bi rs sv2 cc2)" if "\<not> fin"
      using Cons.IH [of sv2 cc2] r that by (simp add: handled_def)
    then show ?thesis using close r(1) s by (simp add: Read_Data Let_def)
  qed (use close Cons in \<open>auto simp: handled_def\<close>)
qed

section \<open>Writing\<close>

lemma sent_header_wf:
  assumes "steps_to sha care sv sv1" and "conn_wf (st_root (sv_store sv)) cc" and "cn_open cc"
    and "cn_state cc = CONN_SEND_HEADER"
  shows "handled sha care sv (snd (sent_header env k sv1 cc))
    \<and> (fst (sent_header env k sv1 cc) \<or> cn_open (snd (snd (sent_header env k sv1 cc))))"
proof -
  define n where "n = min k (length (header_rest cc))"
  define c1 where "c1 = cc\<lparr>cn_hdr_off := cn_hdr_off cc + n, cn_last_ms := se_now_ms env,
                   cn_sent := cn_sent cc @ take n (header_rest cc)\<rparr>"
  have s: "sending_header cc" "cn_interest cc = EPOLLOUT" "up_ok sv cc"
    using assms(2-4) by (auto simp: conn_wf_def)
  have fields: "cn_open c1" "cn_state c1 = CONN_SEND_HEADER" "cn_interest c1 = EPOLLOUT" "up_ok sv c1"
    "cn_blob c1 = cn_blob cc" "cn_out c1 = cn_out cc" "cn_body_off c1 = 0" "cn_out_off c1 = 0" "cn_hdr c1 = cn_hdr cc"
    using assms(3,4) s by (simp_all add: c1_def sending_header_def)
  have le: "cn_hdr_off c1 \<le> length (cn_hdr cc)"
    using s(1) by (auto simp: c1_def n_def header_rest_def sending_header_def)
  have sent: "cn_sent c1 = take (cn_hdr_off c1) (cn_hdr c1)"
    using s(1) by (simp add: c1_def sending_header_def header_rest_def take_add)
  have eq: "sent_header env k sv1 cc =
      (if cn_hdr_off c1 < length (cn_hdr c1) then (False, sv1, c1)
       else if cn_head_only c1 \<or> (cn_blob c1 = None \<and> cn_out c1 = None) then (True, conn_close env sv1 c1)
       else (False, sv1, c1\<lparr>cn_state := CONN_SEND_BODY\<rparr>))"
    unfolding sent_header_def Let_def n_def [symmetric] c1_def [symmetric] ..
  have close: "handled sha care sv (conn_close env sv1 c1)" by (rule close_handled [OF assms(1) fields(4)]) (simp add: fields(1))
  have go: "handled sha care sv (sv1, c1)" if "cn_hdr_off c1 < length (cn_hdr c1)"
    using that fields sent s(1) assms(1) by (simp add: handled_def conn_wf_def sending_header_def)
  have body: "handled sha care sv (sv1, c1\<lparr>cn_state := CONN_SEND_BODY\<rparr>)"
    if "\<not> cn_hdr_off c1 < length (cn_hdr c1)" "\<not> cn_head_only c1" "cn_blob c1 \<noteq> None \<or> cn_out c1 \<noteq> None"
    using that fields sent s(1) assms(1) le
    by (auto simp: handled_def conn_wf_def sending_body_def sending_header_def split: option.split)
  show ?thesis unfolding eq using close go body fields(1) by auto
qed

lemma sent_blob_wf:
  assumes "steps_to sha care sv sv1" and "conn_wf (st_root (sv_store sv)) cc" and "cn_open cc"
    and "cn_state cc = CONN_SEND_BODY" and "cn_blob cc \<noteq> None" and "\<not> nothing_to_send cc"
  shows "handled sha care sv (snd (sent_blob env k sv1 cc))
    \<and> (fst (sent_blob env k sv1 cc) \<or> cn_open (snd (snd (sent_blob env k sv1 cc))))"
proof -
  define n where "n = min k (length (blob_chunk cc))"
  define c1 where "c1 = cc\<lparr>cn_body_off := cn_body_off cc + n, cn_last_ms := se_now_ms env,
                         cn_sent := cn_sent cc @ take n (blob_chunk cc)\<rparr>"
  define s1 where "s1 = sv1\<lparr>sv_served_bytes := sv_served_bytes sv1 + int n\<rparr>"
  have s: "sending_body cc" "cn_interest cc = EPOLLOUT" "up_ok sv cc"
    using assms(2-4) by (auto simp: conn_wf_def)
  have st: "steps_to sha care sv s1" by (rule steps_same [OF assms(1)]) (simp_all add: s1_def)
  have fields: "cn_open c1" "cn_state c1 = CONN_SEND_BODY" "cn_interest c1 = EPOLLOUT" "up_ok sv c1"
    "cn_blob c1 = cn_blob cc" "cn_out c1 = None" "cn_hdr c1 = cn_hdr cc" "\<not> cn_head_only c1"
    using assms(3,4,5) s by (auto simp: c1_def sending_body_def)
  have chunk: "take n (blob_chunk cc) = take n (drop (cn_body_off cc) (file_bytes (cn_blob cc)))"
    by (simp add: blob_chunk_def n_def min_def)
  have sent: "cn_sent c1 = cn_hdr c1 @ take (cn_body_off c1) (file_bytes (cn_blob c1))"
    using s(1) assms(5) chunk by (auto simp: c1_def sending_body_def take_add)
  have le: "int (cn_body_off c1) \<le> cn_body_len cc"
    using assms(4,5,6) by (auto simp: c1_def n_def blob_chunk_def nothing_to_send_def)
  have len: "cn_body_len c1 = cn_body_len cc" by (simp add: c1_def)
  have eq: "sent_blob env k sv1 cc =
      (if n = 0 then (True, conn_close env sv1 cc)
       else if int (cn_body_off c1) \<ge> cn_body_len c1 then (True, conn_close env s1 c1) else (False, s1, c1))"
    unfolding sent_blob_def Let_def n_def [symmetric] c1_def [symmetric] s1_def [symmetric] ..
  have close: "handled sha care sv (conn_close env s1 c1)" by (rule close_handled [OF st fields(4)]) (simp add: fields(1))
  have close0: "handled sha care sv (conn_close env sv1 cc)"
    by (rule close_handled [OF assms(1) s(3)]) (simp add: assms(3))
  have go: "handled sha care sv (s1, c1)"
    using fields sent st le len assms(5) by (auto simp: handled_def conn_wf_def sending_body_def)
  show ?thesis unfolding eq using close close0 go fields(1) by auto
qed

lemma sent_out_wf:
  assumes "steps_to sha care sv sv1" and "conn_wf (st_root (sv_store sv)) cc" and "cn_open cc"
    and "cn_state cc = CONN_SEND_BODY" and "cn_blob cc = None"
  shows "handled sha care sv (snd (sent_out env k sv1 cc))
    \<and> (fst (sent_out env k sv1 cc) \<or> cn_open (snd (snd (sent_out env k sv1 cc))))"
proof -
  define n where "n = min k (length (out_rest cc))"
  define c1 where "c1 = cc\<lparr>cn_out_off := cn_out_off cc + n, cn_last_ms := se_now_ms env,
                   cn_sent := cn_sent cc @ take n (out_rest cc)\<rparr>"
  define s1 where "s1 = sv1\<lparr>sv_served_bytes := sv_served_bytes sv1 + int n\<rparr>"
  have s: "sending_body cc" "cn_interest cc = EPOLLOUT" "up_ok sv cc"
    using assms(2-4) by (auto simp: conn_wf_def)
  obtain b where b: "cn_out cc = Some b" "cn_sent cc = cn_hdr cc @ take (cn_out_off cc) b"
    "cn_out_off cc \<le> length b" "\<not> cn_head_only cc"
    using s(1) assms(5) by (auto simp: sending_body_def split: option.splits)
  have st: "steps_to sha care sv s1" by (rule steps_same [OF assms(1)]) (simp_all add: s1_def)
  have fields: "cn_open c1" "cn_state c1 = CONN_SEND_BODY" "cn_interest c1 = EPOLLOUT" "up_ok sv c1"
    "cn_blob c1 = None" "cn_out c1 = Some b" "cn_hdr c1 = cn_hdr cc" "\<not> cn_head_only c1"
    using assms(3,4,5) s b by (simp_all add: c1_def)
  have sent: "cn_sent c1 = cn_hdr c1 @ take (cn_out_off c1) b"
    using b by (simp add: c1_def out_rest_def take_add)
  have le: "cn_out_off c1 \<le> length b" using b by (auto simp: c1_def n_def out_rest_def)
  have eq: "sent_out env k sv1 cc =
      (if cn_out_off c1 \<ge> (case cn_out c1 of None \<Rightarrow> 0 | Some b \<Rightarrow> length b)
       then (True, conn_close env s1 c1) else (False, s1, c1))"
    unfolding sent_out_def Let_def n_def [symmetric] c1_def [symmetric] s1_def [symmetric] ..
  have close: "handled sha care sv (conn_close env s1 c1)" by (rule close_handled [OF st fields(4)]) (simp add: fields(1))
  have go: "handled sha care sv (s1, c1)"
    using fields sent st le by (auto simp: handled_def conn_wf_def sending_body_def)
  show ?thesis unfolding eq using close go fields(1) by auto
qed


text \<open>A handler of a writable socket: it goes on writing only on a connection that is open and sends.\<close>

definition wrote :: "(bytes \<Rightarrow> string) \<Rightarrow> bool \<Rightarrow> server \<Rightarrow> bool \<times> server \<times> conn \<Rightarrow> bool" where
  "wrote sha care sv r \<longleftrightarrow> handled sha care sv (snd r) \<and> (fst r \<or> cn_open (snd (snd r)))"

lemma sent_bytes_wf:
  assumes "steps_to sha care sv sv1" and "conn_wf (st_root (sv_store sv)) cc" and "cn_open cc"
    and "\<not> nothing_to_send cc"
  shows "wrote sha care sv (sent_bytes env k sv1 cc)"
  using assms(4) sent_header_wf [OF assms(1-3), of env k] sent_blob_wf [OF assms(1-3) _ _ assms(4), of env k]
    sent_out_wf [OF assms(1-3), of env k]
  by (auto simp: sent_bytes_def wrote_def nothing_to_send_def)

lemma handle_write_handled:
  assumes "steps_to sha care sv sv1" and "conn_wf (st_root (sv_store sv)) cc" and "cn_open cc"
  shows "handled sha care sv (handle_write env rs sv1 cc)"
  using assms
proof (induction rs arbitrary: sv1 cc)
  case Nil
  have "up_ok sv cc" using Nil.prems(2) by (simp add: conn_wf_def)
  then have "handled sha care sv (conn_close env sv1 cc)"
    by (rule close_handled [OF Nil.prems(1)]) (simp add: Nil.prems(3))
  then show ?case using Nil.prems by (simp add: handled_def)
next
  case (Cons r rs)
  have "up_ok sv cc" using Cons.prems(2) by (simp add: conn_wf_def)
  then have close: "handled sha care sv (conn_close env sv1 cc)"
    by (rule close_handled [OF Cons.prems(1)]) (simp add: Cons.prems(3))
  have again: "handled sha care sv (sv1, cc)" using Cons.prems by (simp add: handled_def)
  show ?case
  proof (cases "nothing_to_send cc")
    case True
    then show ?thesis using close by simp
  next
    case False
    show ?thesis
    proof (cases r)
      case (Wrote k)
      obtain fin sv2 cc2 where s: "sent_bytes env k sv1 cc = (fin, sv2, cc2)" by (metis prod.exhaust)
      then have w: "handled sha care sv (sv2, cc2)" "fin \<or> cn_open cc2"
        using sent_bytes_wf [OF Cons.prems False, of env k] by (simp_all add: wrote_def)
      have "handled sha care sv (handle_write env rs sv2 cc2)" if "\<not> fin"
        using Cons.IH [of sv2 cc2] w that by (simp add: handled_def)
      then show ?thesis using False w(1) s by (simp add: Wrote)
    qed (use False close again Cons in auto)
  qed
qed

lemma on_client_handled:
  assumes "sound sha care sv" and "care \<longrightarrow> reads_ok (se_env env)" and "conn_wf (st_root (sv_store sv)) cc"
  shows "handled sha care sv (on_client env bi err rs ws sv cc)"
proof -
  have "up_ok sv cc" using assms(3) by (simp add: conn_wf_def)
  then have "handled sha care sv (conn_close env sv cc)" using close_handled [of sha care sv sv cc env] assms(3) by simp
  then show ?thesis
    using handle_read_handled [OF steps_refl assms] handle_write_handled [OF steps_refl assms(3)] assms(3)
    by (simp add: on_client_def handled_def)
qed

section \<open>The importer's work\<close>

text \<open>The hash program as the importer runs it: a digest it prints for a plain file is that of its bytes.\<close>

definition honest_hasher :: "(bytes \<Rightarrow> string) \<Rightarrow> hasher \<Rightarrow> bool" where
  "honest_hasher sha h \<longleftrightarrow>
     (\<forall>fs p b m t d. map_of fs p = Some (Reg b m t) \<longrightarrow> store_hash_file h fs p STORE_SHA256_MAX = Some d \<longrightarrow> d = sha b)"

lemma import_file_steps:
  assumes "map_of (st_fs s) (entry_at (st_root s) n) = Some (Reg b m t)"
  shows "(store_step sha care)\<^sup>*\<^sup>* s (snd (import_file env dry n (entry_at (st_root s) n) (sha b) sz (st, s)))"
proof -
  obtain e s1 where a: "store_blob_adopt env s (entry_at (st_root s) n) (sha b) = (e, s1)" by fastforce
  obtain e' s2 where p: "store_publish env s1 n (sha b) = (e', s2)" by fastforce
  have "staged_at s (entry_at (st_root s) n)" by (auto simp: staged_at_def)
  then have st1: "store_step sha care s s1"
    by (rule store_step.step_adopt [where b = b and sha = sha]) (rule assms a)+
  have st2: "store_step sha care s1 s2" by (rule step_publish [OF p])
  show ?thesis
    using st1 st2 a p by (auto simp: import_file_def Let_def intro: converse_rtranclp_into_rtranclp)
qed

lemma entry_dir: "st_root s @ ''/'' @ STORE_DIR @ ''/'' @ n = entry_at (st_root s) n"
  by (simp add: entry_at_def)

lemma import_entry_steps:
  assumes "honest_hasher sha h"
  shows "(store_step sha care)\<^sup>*\<^sup>* s (snd (import_entry env h (st_root s @ ''/'' @ STORE_DIR) man dry n (st, s)))"
proof -
  let ?p = "entry_at (st_root s) n"
  have path: "(st_root s @ ''/'' @ STORE_DIR) @ ''/'' @ n = ?p" by (simp add: entry_at_def)
  show ?thesis
  proof (cases "sys_lstat env (st_fs s) ?p")
    case (Inr nd)
    show ?thesis
    proof (cases nd)
      case (Reg b m t)
      then have reg: "map_of (st_fs s) ?p = Some (Reg b m t)"
        using Inr by (auto simp: sys_lstat_def split: if_splits option.splits)
      have "d = sha b" if "store_hash_file h (st_fs s) ?p STORE_SHA256_MAX = Some d" for d
        using assms reg that unfolding honest_hasher_def by blast
      then show ?thesis
        unfolding import_entry_def prod.case Let_def path Inr Reg
        using import_file_steps [OF reg, of sha care env dry "int (length b)" st] by (auto split: option.split)
    qed (auto simp: import_entry_def Let_def path [simplified] Inr)
  qed (auto simp: import_entry_def Let_def path [simplified])
qed

lemma import_loop_steps:
  assumes "honest_hasher sha h" and "root = st_root s"
  shows "(store_step sha care)\<^sup>*\<^sup>* s (snd (import_loop env h (root @ ''/'' @ STORE_DIR) man dry ns (st, s)))"
  using assms(2)
proof (induction ns arbitrary: st s)
  case (Cons n ns)
  obtain st1 s1 where e: "import_entry env h (root @ ''/'' @ STORE_DIR) man dry n (st, s) = (st1, s1)" by fastforce
  have st: "(store_step sha care)\<^sup>*\<^sup>* s s1"
    using import_entry_steps [OF assms(1), of care s env man dry n st] e Cons.prems by simp
  then have "root = st_root s1" using steps_root Cons.prems by metis
  from Cons.IH [OF this, of st1] st e show ?case by simp
qed simp

lemma importer_steps:
  assumes "honest_hasher sha h" and "importer_run env h strtod (store_root s) man dry s = (rc, stats, s')"
  shows "(store_step sha care)\<^sup>*\<^sup>* s s'"
proof -
  have "(store_step sha care)\<^sup>*\<^sup>* s (snd (snd (import_dir env h (store_root s) (load_manifest strtod man) dry (no_stats, s))))"
    using import_loop_steps [OF assms(1) refl, of care s env "load_manifest strtod man" dry _ no_stats]
    by (auto simp: import_dir_def Let_def store_root_def split: sum.split)
  then show ?thesis using assms(2) by (auto simp: importer_run_def split: prod.splits)
qed

lemma import_work_steps:
  assumes "honest_hasher sha h"
  shows "steps_to sha care sv (import_work env h man sv)"
proof (cases "sv_importers sv")
  case (Cons n ns)
  let ?s = "(sv_store sv)\<lparr>st_tmp := n\<rparr>"
  obtain rc stats s where r: "importer_run (se_env env) h (\<lambda>_. ()) (store_root ?s) man False ?s = (rc, stats, s)"
    by (metis prod.exhaust)
  have "(store_step sha care)\<^sup>*\<^sup>* (sv_store sv) (s\<lparr>st_tmp := st_tmp (sv_store sv)\<rparr>)"
    using importer_steps [OF assms r] step_counter [of sha care "sv_store sv" n] step_counter [of sha care s "st_tmp (sv_store sv)"]
    by (meson converse_rtranclp_into_rtranclp rtranclp.rtrancl_into_rtrancl)
  then show ?thesis using Cons r by (simp add: import_work_def steps_to_def store_root_def)
qed (simp add: import_work_def)


section \<open>The event loop\<close>

definition reactor_inv :: "(bytes \<Rightarrow> string) \<Rightarrow> bool \<Rightarrow> reactor \<Rightarrow> bool" where
  "reactor_inv sha care rx \<longleftrightarrow>
     store_reachable sha care (sv_store (rx_server rx))
     \<and> (\<forall>(i, cc) \<in> set (rx_conns rx). i < rx_next rx \<and> conn_wf (st_root (sv_store (rx_server rx))) cc)
     \<and> distinct (map fst (rx_conns rx))"

lemma reachable_sound: "store_reachable sha care (sv_store sv) \<Longrightarrow> sound sha care sv"
  by (simp add: sound_def reachable_inv reachable_no_links)

lemma reachable_steps:
  assumes "store_reachable sha care (sv_store sv)" and "steps_to sha care sv sv'"
  shows "store_reachable sha care (sv_store sv')"
proof -
  have "(store_step sha care)\<^sup>*\<^sup>* (sv_store sv) (sv_store sv')" using assms(2) by (simp add: steps_to_def)
  then show ?thesis
    by (induction rule: rtranclp_induct) (use assms(1) in \<open>auto intro: store_reachable.reach_step\<close>)
qed

text \<open>Replacing the globals by what a run of the store leaves, and one connection by a well-formed one.\<close>

lemma inv_server:
  assumes "reactor_inv sha care rx" and "steps_to sha care (rx_server rx) sv"
  shows "reactor_inv sha care (rx\<lparr>rx_server := sv\<rparr>)"
  using assms reachable_steps [OF _ assms(2)] steps_to_root [OF assms(2)] by (simp add: reactor_inv_def)

lemma inv_put:
  assumes "reactor_inv sha care rx" and "handled sha care (rx_server rx) r"
  shows "reactor_inv sha care (put_conn i r rx)"
proof -
  have st: "steps_to sha care (rx_server rx) (fst r)" and wf: "conn_wf (st_root (sv_store (rx_server rx))) (snd r)"
    using assms(2) by (simp_all add: handled_def)
  have ids: "map fst (rx_conns (put_conn i r rx)) = map fst (rx_conns rx)"
    by (simp add: put_conn_def comp_def case_prod_beta)
  show ?thesis
    using inv_server [OF assms(1) st] wf ids steps_to_root [OF st]
    by (auto simp: reactor_inv_def put_conn_def comp_def case_prod_beta split: if_splits)
qed

lemma conn_new_wf: "conn_wf root ((conn_new env)\<lparr>cn_interest := EPOLLIN\<rparr>)"
  by (simp add: conn_wf_def conn_new_def idle_def ready_def)

lemma conn_new_close: "conn_close env sv (conn_new env') = (sv, snd (conn_close env sv (conn_new env')))
    \<and> conn_wf root (snd (conn_close env sv (conn_new env')))"
  by (simp add: conn_close_def conn_new_def conn_wf_def)

lemma accept_inv: "reactor_inv sha care rx \<Longrightarrow> reactor_inv sha care (accept_loop env rs rx)"
proof (induction rs arbitrary: rx)
  case (Cons r rs)
  have new: "reactor_inv sha care (rx\<lparr>rx_server := rx_server rx, rx_conns := (rx_next rx, cc) # rx_conns rx, rx_next := rx_next rx + 1\<rparr>)"
    if "conn_wf (st_root (sv_store (rx_server rx))) cc" for cc
    using that Cons.prems by (force simp: reactor_inv_def)
  obtain cc where c: "conn_close env (rx_server rx) (conn_new env) = (rx_server rx, cc)"
    "conn_wf (st_root (sv_store (rx_server rx))) cc"
    using conn_new_close [of env "rx_server rx" env] by (metis surjective_pairing snd_conv)
  show ?case
    using Cons.IH [OF Cons.prems] Cons.IH [OF new [OF c(2)]] Cons.IH [OF new [OF conn_new_wf]] Cons.prems c(1)
    by (cases r) (simp_all add: Let_def)
qed simp

lemma sweep_loop_steps:
  assumes "steps_to sha care sv0 sv" and "\<forall>(i, cc) \<in> set ccs. conn_wf (st_root (sv_store sv0)) cc"
    and "sweep_loop env ccs sv = (sv', ccs')"
  shows "steps_to sha care sv0 sv' \<and> map fst ccs' = map fst ccs \<and> (\<forall>(i, cc) \<in> set ccs'. conn_wf (st_root (sv_store sv0)) cc)"
  using assms
proof (induction ccs arbitrary: sv sv' ccs')
  case (Cons c ccs)
  obtain i cc where c: "c = (i, cc)" by (cases c)
  have wf: "conn_wf (st_root (sv_store sv0)) cc" using Cons.prems(2) c by simp
  then have up: "up_ok sv0 cc" by (simp add: conn_wf_def)
  obtain sv1 cc1 where o: "(if cn_open cc \<and> se_now_ms env - cn_last_ms cc > time_limit cc then conn_close env sv cc
      else (sv, cc)) = (sv1, cc1)" by fastforce
  have h: "handled sha care sv0 (sv1, cc1)"
  proof (cases "cn_open cc \<and> se_now_ms env - cn_last_ms cc > time_limit cc")
    case True
    then show ?thesis using close_handled [OF Cons.prems(1) up, of env] o wf by simp
  next
    case False
    then have "(sv1, cc1) = (sv, cc)" using o by (simp split: if_splits)
    then show ?thesis using Cons.prems(1) wf by (simp add: handled_def)
  qed
  obtain sv2 rest where r: "sweep_loop env ccs sv1 = (sv2, rest)" by fastforce
  have e: "sv' = sv2" "ccs' = (i, cc1) # rest" using Cons.prems(3) o r c by auto
  have "steps_to sha care sv0 sv1" using h by (simp add: handled_def)
  from Cons.IH [OF this _ r] Cons.prems(2) show ?case using h e c by (simp add: handled_def)
qed simp

lemma sweep_inv: "reactor_inv sha care rx \<Longrightarrow> reactor_inv sha care (sweep_timeouts env rx)"
proof -
  assume inv: "reactor_inv sha care rx"
  obtain sv ccs where s: "sweep_loop env (rx_conns rx) (rx_server rx) = (sv, ccs)" by fastforce
  have wf: "\<forall>(i, cc) \<in> set (rx_conns rx). conn_wf (st_root (sv_store (rx_server rx))) cc"
    using inv by (auto simp: reactor_inv_def)
  note o = sweep_loop_steps [OF steps_refl wf s, of sha]
  have "fst ` set ccs = fst ` set (rx_conns rx)" using o by (metis list.set_map)
  then have ids: "i < rx_next rx" if "(i, cc) \<in> set ccs" for i cc
    using that inv unfolding reactor_inv_def by (metis (no_types, lifting) case_prodD fst_conv image_iff surjective_pairing)
  show ?thesis
    using inv_server [OF inv, of sv] o ids inv steps_to_root [of sha care "rx_server rx" sv]
    by (auto simp: sweep_timeouts_def s reactor_inv_def)
qed

lemma drain_inv: "reactor_inv sha care rx \<Longrightarrow> reactor_inv sha care (drain_pending_free rx)"
  by (auto simp: reactor_inv_def drain_pending_free_def distinct_map_filter)

text \<open>
  What an event relies on: a hash program that is honest. With \<open>care\<close>, the reads of entries do not
  fail while a client is served, which the collector relies on; without it anything may fail.
\<close>

definition event_ok :: "(bytes \<Rightarrow> string) \<Rightarrow> bool \<Rightarrow> senv \<Rightarrow> event \<Rightarrow> bool" where
  "event_ok sha care env ev \<longleftrightarrow>
     (case ev of
        On_Client i err rs ws \<Rightarrow> care \<longrightarrow> reads_ok (se_env env)
      | On_Hashed i \<Rightarrow> honest sha env
      | Import_Work h man \<Rightarrow> honest_hasher sha h
      | _ \<Rightarrow> True)"

lemma event_inv:
  assumes inv: "reactor_inv sha care rx" and ok: "event_ok sha care env ev"
  shows "reactor_inv sha care (handle_event env bi ev rx)"
proof -
  have snd: "sound sha care (rx_server rx)" using inv reachable_sound by (simp add: reactor_inv_def)
  have wf: "conn_wf (st_root (sv_store (rx_server rx))) cc" if "map_of (rx_conns rx) i = Some cc" for i cc
    using inv map_of_SomeD [OF that] by (auto simp: reactor_inv_def)
  show ?thesis
  proof (cases ev)
    case (On_Listener rs)
    then show ?thesis using accept_inv [OF inv] by (simp add: handle_event_def)
  next
    case (On_Client i err rs ws)
    then show ?thesis
      using inv ok inv_put [OF inv on_client_handled [OF snd _ wf]]
      by (auto simp: handle_event_def event_ok_def split: option.split)
  next
    case (On_Hashed i)
    have "handled sha care (rx_server rx) (finish_upload env (rx_server rx) cc)"
      if m: "map_of (rx_conns rx) i = Some cc" and "cn_open cc" "cn_state cc = CONN_HASHING" for cc
    proof -
      have "idle cc" "up_area (st_root (sv_store (rx_server rx))) (cn_up_path cc)"
        using wf [OF m] that(2,3) by (auto simp: conn_wf_def)
      then show ?thesis using finish_upload_handled [OF steps_refl snd] ok On_Hashed by (simp add: event_ok_def)
    qed
    then show ?thesis
      using inv inv_put [OF inv] On_Hashed by (auto simp: handle_event_def split: option.split)
  next
    case (On_Importer status)
    then show ?thesis
      using inv by (auto simp: handle_event_def reactor_inv_def)
  next
    case (Import_Work h man)
    then show ?thesis
      using inv_server [OF inv import_work_steps] ok by (simp add: handle_event_def event_ok_def)
  qed
qed

section \<open>Reachable states\<close>

text \<open>
  The server starts on a root where nothing exists yet, or where a reachable store was left behind.
  While it runs, another program may move a file into the directory of the entries.
\<close>

definition bootable :: "(bytes \<Rightarrow> string) \<Rightarrow> bool \<Rightarrow> path \<Rightarrow> fs \<Rightarrow> bool" where
  "bootable sha care root fs \<longleftrightarrow> length root + 400 < PATH_MAX
     \<and> (fresh_root fs root
        \<or> map_of fs root = Some Dir \<and> (\<exists>s. store_reachable sha care s \<and> st_root s = root \<and> st_fs s = fs))"

definition drop_file :: "string \<Rightarrow> node \<Rightarrow> reactor \<Rightarrow> reactor" where
  "drop_file n nd rx =
     (let sv = rx_server rx; s = sv_store sv
      in rx\<lparr>rx_server := sv\<lparr>sv_store := s\<lparr>st_fs := AList.update (entry_at (st_root s) n) nd (st_fs s)\<rparr>\<rparr>\<rparr>)"

lemma drop_inv:
  assumes "reactor_inv sha care rx" and "n \<noteq> []" and "CHR ''/'' \<notin> set n"
    and "map_of (st_fs (sv_store (rx_server rx))) (entry_at (st_root (sv_store (rx_server rx))) n) \<noteq> Some Dir"
  shows "reactor_inv sha care (drop_file n (Reg b m t) rx)"
  unfolding drop_file_def Let_def
  by (rule inv_server [OF assms(1)], rule steps_store [OF steps_refl], rule step_drop [OF assms(2-4)])

inductive server_reachable :: "(bytes \<Rightarrow> string) \<Rightarrow> bool \<Rightarrow> build_info \<Rightarrow> reactor \<Rightarrow> bool" for sha care bi where
  server_start: "server_main env bi files h man listening args s0 = Inr rx \<Longrightarrow>
    bootable sha care (cf_root (sv_conf (rx_server rx))) (st_fs s0) \<Longrightarrow> server_reachable sha care bi rx"
| server_event: "server_reachable sha care bi rx \<Longrightarrow> event_ok sha care env ev \<Longrightarrow>
    server_reachable sha care bi (handle_event env bi ev rx)"
| server_drop: "server_reachable sha care bi rx \<Longrightarrow> n \<noteq> [] \<Longrightarrow> CHR ''/'' \<notin> set n \<Longrightarrow>
    map_of (st_fs (sv_store (rx_server rx))) (entry_at (st_root (sv_store (rx_server rx))) n) \<noteq> Some Dir \<Longrightarrow>
    server_reachable sha care bi (drop_file n (Reg b m t) rx)"
| server_sweep: "server_reachable sha care bi rx \<Longrightarrow>
    server_reachable sha care bi (drain_pending_free (sweep_timeouts env rx))"

lemma mkdir_existing: "map_of fs p = Some nd \<Longrightarrow> mkdir_if_absent env fs p = Some fs' \<Longrightarrow> fs' = fs"
  by (auto simp: mkdir_if_absent_def sys_mkdir_def split: sum.splits if_splits)

lemma init_again:
  assumes "store_reachable sha care s" and "map_of (st_fs s) (st_root s) = Some Dir"
    and "length (st_root s) + 400 < PATH_MAX" and "st_fs s0 = st_fs s"
    and "store_init env (st_root s) s0 = (0, s')"
  shows "store_reachable sha care s'"
proof -
  have fits: "snprintf_fits PATH_MAX (st_root s)" "snprintf PATH_MAX (st_root s) = st_root s"
    using assms(3) by (auto simp: snprintf_fits_def snprintf_def)
  have dirs: "map_of (st_fs s) (st_root s @ ''/'' @ d) = Some Dir" if "d \<in> {''blobs'', ''packages'', ''tmp''}" for d
    using reachable_inv [OF assms(1)] that by (auto simp: store_inv_def store_dirs_def)
  have "s' = s0\<lparr>st_root := st_root s, st_fs := st_fs s\<rparr>"
    using assms(5) fits dirs [of "''blobs''"] dirs [of "''packages''"] dirs [of "''tmp''"] assms(2,4)
    by (auto simp: store_init_def Let_def STORE_DIR_def dest!: mkdir_existing [rotated] split: if_splits option.splits)
  then have "s' = s\<lparr>st_tmp := st_tmp s0\<rparr>" using assms(4) by simp
  then show ?thesis using store_reachable.reach_step [OF assms(1) step_counter] by simp
qed

lemma start_inv:
  assumes "server_main env bi files h man listening args s0 = Inr rx"
    and "bootable sha care (cf_root (sv_conf (rx_server rx))) (st_fs s0)"
  shows "reactor_inv sha care rx"
proof -
  obtain o1 :: options and tbl s where rx: "rx = \<lparr>rx_server = start_server env bi (op_conf o1) tbl s, rx_conns = [], rx_next = 0\<rparr>"
    and init: "store_init (se_env env) (cf_root (op_conf o1)) s0 = (0, s)"
    using assms(1) that
    by (simp add: server_main_def Let_def split: sum.splits prod.splits if_splits option.splits) metis
  have c: "sv_conf (rx_server rx) = op_conf o1" "sv_store (rx_server rx) = s"
    by (simp_all add: rx start_server_def)
  have "store_reachable sha care s"
    using assms(2) c(1) unfolding bootable_def
  proof (elim conjE disjE exE)
    assume "length (cf_root (sv_conf (rx_server rx))) + 400 < PATH_MAX" "fresh_root (st_fs s0) (cf_root (sv_conf (rx_server rx)))"
    then show ?thesis
      using store_reachable.reach_init [of "st_fs s0" "cf_root (op_conf o1)" "se_env env" "st_root s0" "st_tmp s0" s sha]
        init c(1) by (cases s0) simp
  next
    fix s1
    assume l: "length (cf_root (sv_conf (rx_server rx))) + 400 < PATH_MAX"
      and d: "map_of (st_fs s0) (cf_root (sv_conf (rx_server rx))) = Some Dir" and r: "store_reachable sha care s1"
      and e: "st_root s1 = cf_root (sv_conf (rx_server rx))" "st_fs s1 = st_fs s0"
    have root: "st_root s1 = cf_root (op_conf o1)" using e(1) c(1) by (rule trans [OF _ arg_cong])
    have "map_of (st_fs s1) (st_root s1) = Some Dir" "length (st_root s1) + 400 < PATH_MAX"
      unfolding e by (rule d, rule l)
    moreover have "store_init (se_env env) (st_root s1) s0 = (0, s)" unfolding root by (rule init)
    ultimately show ?thesis by (rule init_again [OF r _ _ e(2) [symmetric]])
  qed
  then show ?thesis using c by (simp add: reactor_inv_def rx)
qed

lemma server_reachable_inv: "server_reachable sha care bi rx \<Longrightarrow> reactor_inv sha care rx"
  by (induction rule: server_reachable.induct) (auto intro: start_inv event_inv sweep_inv drain_inv drop_inv)

text \<open>A whole turn of the loop, its events all under one environment.\<close>

lemma turn_reachable:
  assumes "server_reachable sha care bi rx" and "\<forall>ev \<in> set evs. event_ok sha care env ev"
  shows "server_reachable sha care bi (reactor_turn env bi evs rx)"
proof -
  have "server_reachable sha care bi (foldl (\<lambda>r ev. handle_event env bi ev r) rx evs)"
    using assms by (induction evs arbitrary: rx) (auto intro: server_reachable.server_event)
  then show ?thesis unfolding reactor_turn_def by (rule server_reachable.server_sweep)
qed

end
