(* ===== verification/Server_Props.thy ===== *)
theory Server_Props
  imports Server_System
begin

text \<open>
  The properties of the server: who may change the store, what an upload leaves behind, what a download
  sends, and the invariants of every state the event loop can reach.
\<close>

section \<open>A concrete server\<close>

definition calm_senv :: senv where
  "calm_senv = \<lparr>se_env = calm_env, se_now_ms = 5000, se_wall_ms = 1000, se_fails = (\<lambda>_. False),
                se_staged = length, se_sha256sum = (\<lambda>fs p. flat_hash (case map_of fs p of Some (Reg b _ _) \<Rightarrow> b | _ \<Rightarrow> []))\<rparr>"

definition sample_conf :: conf where
  "sample_conf = conf_defaults\<lparr>cf_root := ''/s'', cf_push_token := ''secret''\<rparr>"

definition sample_build :: build_info where
  "sample_build = \<lparr>CIXCACHE_BUILD_VERSION = ''cix-cache-2.5.0-1-x86_64'', CIXCACHE_BUILD_TIME = ''now'',
                   CIXCACHE_BUILD_DIRTY = False\<rparr>"

definition sample_server :: server where
  "sample_server = start_server calm_senv sample_build sample_conf g_suffixes sample_store"

definition sample_conn :: conn where
  "sample_conn = (conn_new calm_senv)\<lparr>cn_interest := EPOLLIN\<rparr>"

definition plain_request :: "string \<Rightarrow> string \<Rightarrow> http_request" where
  "plain_request method path =
     \<lparr>rq_method = method, rq_path = path, rq_content_length = 2, rq_body = ''hi'',
      rq_headers = method @ '' '' @ path @ '' HTTP/1.1'' @ [CR, LF] @ ''Host: a'' @ [CR, LF]\<rparr>"

lemma sample_idle: "idle sample_conn" "cn_up_path sample_conn = []"
  by (simp_all add: sample_conn_def conn_new_def idle_def ready_def)

section \<open>Handlers that change nothing\<close>

text \<open>Neither the store nor the processes importing into it are touched.\<close>

definition untouched :: "server \<Rightarrow> server \<Rightarrow> bool" where
  "untouched sv sv' \<longleftrightarrow> sv_store sv' = sv_store sv \<and> sv_importers sv' = sv_importers sv"

definition refused :: "server \<Rightarrow> server \<times> conn \<Rightarrow> bool" where
  "refused sv r \<longleftrightarrow> untouched sv (fst r) \<and> cn_up_path (snd r) = []
     \<and> (\<not> cn_open (snd r) \<or> cn_state (snd r) = CONN_SEND_HEADER)"

lemma untouched_quiet: "untouched sv sv1 \<Longrightarrow> quiet sv1 sv2 \<Longrightarrow> untouched sv sv2"
  using quiet_fields by (auto simp: untouched_def)

lemma untouched_fields [simp]:
  "untouched sv sv" "untouched sv (server_log env l x sv1) = untouched sv sv1"
  "untouched sv (sv1\<lparr>sv_requests := k\<rparr>) = untouched sv sv1"
  "untouched sv (sv1\<lparr>sv_artifact_misses := k\<rparr>) = untouched sv sv1"
  "untouched sv (sv1\<lparr>sv_artifact_hits := k\<rparr>) = untouched sv sv1"
  "untouched sv (sv1\<lparr>sv_artifact_aliases := k\<rparr>) = untouched sv sv1"
  "untouched sv (sv1\<lparr>sv_undefined := u\<rparr>) = untouched sv sv1"
  by (simp_all add: untouched_def)

lemma replied_refused:
  assumes "untouched sv sv1" and "replied env sv1 cc r" and "cn_up_path cc = []"
  shows "refused sv r"
  using assms unfolding replied_def refused_def
  by (auto simp: conn_close_def untouched_quiet)

context reply
begin

lemma respond_refused: "untouched sv sv1 \<Longrightarrow> idle cc \<Longrightarrow> cn_up_path cc = [] \<Longrightarrow> refused sv (respond sv1 cc)"
  by (rule replied_refused [OF _ respond_replied])

end

lemma serve_artifact_refused:
  assumes "untouched sv sv1" and "idle cc" and "cn_up_path cc = []"
  shows "refused sv (serve_artifact env req name head_only sv1 cc)"
proof (cases "bearer_ok req (cf_pull_token (sv_conf sv1))")
  case True
  show ?thesis
  proof (cases "store_open (se_env env) (sv_store sv1) name STORE_NAME_MAX")
    case (Inl e)
    then show ?thesis using True assms by (auto simp: serve_artifact_def intro!: error.respond_refused)
  next
    case (Inr r)
    obtain fd sz digest served where r: "r = (fd, sz, digest, served)" by (cases r)
    let ?sv1 = "sv1\<lparr>sv_artifact_hits := sv_artifact_hits sv1 + 1\<rparr>"
    obtain sv2 cc2 where n: "note_alias env name served ?sv1 cc = (sv2, cc2)" by fastforce
    have u: "untouched sv sv2" and "\<exists>x. cc2 = cc\<lparr>cn_note := x\<rparr>"
      using n assms(1) by (auto simp: note_alias_def split: if_splits)
    let ?cc3 = "if head_only then cc2\<lparr>cn_head_only := head_only\<rparr>
      else cc2\<lparr>cn_head_only := head_only, cn_blob := map_of (st_fs (sv_store sv1)) fd, cn_body_off := 0, cn_body_len := sz\<rparr>"
    have "ready ?cc3" "cn_up_path ?cc3 = []"
      using \<open>\<exists>x. cc2 = cc\<lparr>cn_note := x\<rparr>\<close> assms(2,3) by (auto simp: idle_def ready_def)
    then show ?thesis
      using replied_refused [OF u begin_response_replied] True Inr r n
      by (auto simp: serve_artifact_def Let_def)
  qed
qed (use assms in \<open>simp add: serve_artifact_def error.respond_refused\<close>)

lemma serve_static_refused:
  assumes "untouched sv sv1" and "idle cc" and "cn_up_path cc = []"
  shows "refused sv (serve_static env path head_only sv1 cc)"
proof -
  have h: "idle (cc\<lparr>cn_head_only := b\<rparr>)" "cn_up_path (cc\<lparr>cn_head_only := b\<rparr>) = []" for b using assms(2,3) by simp_all
  note r = error.respond_refused [OF assms] buffer.respond_refused [OF assms] bare.respond_refused [OF assms(1) h]
  let ?p = "cf_web_root (sv_conf sv1) @ (if path = ''/'' then ''/index.html'' else path)"
  show ?thesis
  proof (cases "sys_open (se_env env) (st_fs (sv_store sv1)) ?p")
    case (Inl e)
    then show ?thesis by (simp only: serve_static_def Let_def sum.case r if_split) simp
  next
    case (Inr fd)
    have "refused sv
       (case (ev_fails (se_env env) SYS_fstat fd, map_of (st_fs (sv_store sv1)) fd) of
          (False, Some (Reg body mode mtime)) \<Rightarrow> f body
        | _ \<Rightarrow> respond_error env 404 ''no such endpoint'' sv1 cc)"
      if "\<And>body. refused sv (f body)" for f
      using that r(1) by (auto split: bool.split option.split node.split)
    then show ?thesis unfolding serve_static_def Let_def Inr sum.case by (simp only: r if_split) (simp add: r)
  qed
qed

lemma gc_dry_run: "store_gc env s True = (k, freed, s') \<Longrightarrow> s' = s"
proof -
  have "fst (gc_loop env True live ns s f r) = s" for live ns f r
    by (induction ns arbitrary: f r) (auto simp: Let_def split: option.split)
  then show "store_gc env s True = (k, freed, s') \<Longrightarrow> s' = s"
    by (auto simp: store_gc_def Let_def split: prod.splits if_splits sum.splits) (metis fst_conv)+
qed

lemma gc_dry_refused:
  assumes "untouched sv sv1" and "idle cc" and "cn_up_path cc = []"
  shows "refused sv (api_gc env True sv1 cc)"
proof -
  obtain k f s where g: "store_gc (se_env env) (sv_store sv1) True = (k, f, s)" by (metis prod.exhaust)
  have s: "s = sv_store sv1" by (rule gc_dry_run [OF g])
  show ?thesis
    using assms by (auto simp: api_gc_def Let_def g s intro!: error.respond_refused json.respond_refused)
qed

section \<open>Who may change the store\<close>

text \<open>
  C4. Without the push token nothing changes: when a push token is configured and a request does not
  carry it, whatever its method and path, \<^verbatim>\<open>dispatch\<close> leaves the whole store, blobs, names and
  temporary files, as it was, starts no import, stages no upload, and answers at once or closes the
  connection.
\<close>

theorem unauthorised_changes_nothing:
  assumes "cf_push_token (sv_conf sv) \<noteq> []" and "\<not> bearer_ok req (cf_push_token (sv_conf sv))"
    and "idle cc" and "cn_up_path cc = []" and "dispatch env bi req sv cc = (sv', cc')"
  shows "sv_store sv' = sv_store sv \<and> sv_importers sv' = sv_importers sv \<and> cn_up_path cc' = []
    \<and> (\<not> cn_open cc' \<or> cn_state cc' = CONN_SEND_HEADER)"
proof -
  let ?sv = "sv\<lparr>sv_requests := sv_requests sv + 1\<rparr>" and ?cc = "cc\<lparr>cn_head_only := False, cn_note := []\<rparr>"
  have u: "untouched sv ?sv" "idle ?cc" "cn_up_path ?cc = []" using assms(3,4) by simp_all
  note e = error.respond_refused [OF u] json.respond_refused [OF u] serve_artifact_refused [OF u]
    serve_static_refused [OF u]
  have up: "refused sv (begin_upload env req name ?sv ?cc)" for name
    using assms(2) by (simp add: begin_upload_def upload_gate_def e)
  have del: "refused sv (delete_artifact env req name ?sv ?cc)" for name
    using assms(2) by (simp add: delete_artifact_def e)
  have art: "refused sv (route_artifact env req path ?sv ?cc)" for path
    by (simp add: route_artifact_def Let_def e up del)
  have api: "refused sv (route_api env bi req ep ?sv ?cc)" for ep
    using assms(2) by (simp add: route_api_def Let_def e operator_ok_def api_status_def api_artifacts_def)
  have "refused sv (dispatch env bi req sv cc)"
    by (simp add: dispatch_def Let_def e art api serve_manifest_def split: option.split)
  then show ?thesis by (simp add: assms(5) refused_def untouched_def)
qed

theorem unauthorised_changes_nothing_witness:
  "sv_store (fst (dispatch calm_senv sample_build (plain_request ''DELETE'' ''/z-1.iso'') sample_server sample_conn))
     = sv_store sample_server"
proof -
  obtain sv' cc' where run:
    "dispatch calm_senv sample_build (plain_request ''DELETE'' ''/z-1.iso'') sample_server sample_conn = (sv', cc')"
    by fastforce
  have t: "cf_push_token (sv_conf sample_server) = ''secret''"
    by (simp add: sample_server_def start_server_def sample_conf_def)
  have "\<not> bearer_ok (plain_request ''DELETE'' ''/z-1.iso'') ''secret''" by code_simp
  then show ?thesis
    using unauthorised_changes_nothing [OF _ _ sample_idle run] run by (simp add: t)
qed

text \<open>
  C12. Reading never writes: a \<^verbatim>\<open>GET\<close> or \<^verbatim>\<open>HEAD\<close> request, with any path, any headers and any token, leaves the
  whole store as it was and starts no import; this includes the dry run of the collector.
\<close>

theorem reads_change_nothing:
  assumes "rq_method req = ''GET'' \<or> rq_method req = ''HEAD''" and "idle cc" and "cn_up_path cc = []"
    and "dispatch env bi req sv cc = (sv', cc')"
  shows "sv_store sv' = sv_store sv \<and> sv_importers sv' = sv_importers sv \<and> cn_up_path cc' = []"
proof -
  let ?sv = "sv\<lparr>sv_requests := sv_requests sv + 1\<rparr>" and ?cc = "cc\<lparr>cn_head_only := False, cn_note := []\<rparr>"
  have u: "untouched sv ?sv" "idle ?cc" "cn_up_path ?cc = []" using assms(2,3) by simp_all
  note e = error.respond_refused [OF u] json.respond_refused [OF u] serve_artifact_refused [OF u]
    serve_static_refused [OF u] gc_dry_refused [OF u]
  define still where "still r \<longleftrightarrow> untouched sv (fst r) \<and> cn_up_path (snd r) = []" for r :: "server \<times> conn"
  have weaker: "still r" if "refused sv r" for r using that by (simp add: refused_def still_def)
  have log: "still (api_log env raw ?sv ?cc)" for raw
    using u weaker [OF e(2)] by (simp add: api_log_def Let_def) (simp add: still_def)
  have art: "still (route_artifact env req path ?sv ?cc)" for path
    using assms(1) by (auto simp: route_artifact_def Let_def intro!: weaker e)
  have api: "still (route_api env bi req ep ?sv ?cc)" for ep
    using assms(1) log
    by (auto simp: route_api_def Let_def api_status_def api_artifacts_def api_import_status_def intro!: weaker e)
  have "still (dispatch env bi req sv cc)"
    using assms(1) weaker [OF e(1)] weaker [OF e(2)] weaker [OF e(4)] art api
    by (simp add: dispatch_def Let_def serve_manifest_def split: option.split)
  then show ?thesis by (simp add: assms(4) still_def untouched_def)
qed

theorem reads_change_nothing_witness:
  "sv_store (fst (dispatch calm_senv sample_build (plain_request ''GET'' ''/api/v1/gc'') sample_server sample_conn))
     = sv_store sample_server"
proof -
  obtain sv' cc' where run:
    "dispatch calm_senv sample_build (plain_request ''GET'' ''/api/v1/gc'') sample_server sample_conn = (sv', cc')"
    by fastforce
  have "rq_method (plain_request ''GET'' ''/api/v1/gc'') = ''GET''" by (simp add: plain_request_def)
  then show ?thesis using reads_change_nothing [OF _ sample_idle run] run by simp
qed

section \<open>Reachable states\<close>


text \<open>A server started on an empty disk, and one client that has connected to it.\<close>

definition empty_disk :: store where
  "empty_disk = \<lparr>st_root = [], st_fs = [], st_tmp = 0\<rparr>"

definition first_reactor :: reactor where
  "first_reactor =
     \<lparr>rx_server = start_server calm_senv sample_build (conf_defaults\<lparr>cf_root := ''/s''\<rparr>) g_suffixes
        (snd (store_init calm_env ''/s'' empty_disk)), rx_conns = [], rx_next = 0\<rparr>"

definition joined_reactor :: reactor where
  "joined_reactor = handle_event calm_senv sample_build (On_Listener [Accepted]) first_reactor"

lemma first_reachable: "server_reachable flat_hash care sample_build first_reactor"
proof (rule server_start)
  have "server_options (\<lambda>_. Fopen_Failed) [''--root=/s''] = Inr (start_options (conf_defaults\<lparr>cf_root := ''/s''\<rparr>))"
    by code_simp
  moreover have "store_set_signature_policy (Some (cf_require_signature conf_defaults)) 64 g_suffixes = (0, [], g_suffixes)"
    by code_simp
  moreover have "fst (store_init calm_env ''/s'' empty_disk) = 0" by code_simp
  ultimately show "server_main calm_senv sample_build (\<lambda>_. Fopen_Failed) (\<lambda>_ _. None) None (\<lambda>_ _. True) [''--root=/s''] empty_disk
      = Inr first_reactor"
    by (cases "store_init calm_env ''/s'' empty_disk")
      (simp add: server_main_def start_options_def first_reactor_def calm_senv_def)
  show "bootable flat_hash care (cf_root (sv_conf (rx_server first_reactor))) (st_fs empty_disk)"
    by (simp add: bootable_def fresh_root_def fs_ok_def PATH_MAX_def first_reactor_def start_server_def empty_disk_def)
qed

lemma joined_reachable: "server_reachable flat_hash care sample_build joined_reactor"
  unfolding joined_reactor_def by (rule server_event [OF first_reachable]) (simp add: event_ok_def)

lemma joined_conns: "rx_conns joined_reactor = [(0, sample_conn)]"
  by (simp add: joined_reactor_def handle_event_def first_reactor_def calm_senv_def sample_conn_def)

text \<open>The same server started again on a disk that an earlier run left with an artifact published.\<close>

definition restarted_reactor :: reactor where
  "restarted_reactor =
     \<lparr>rx_server = start_server calm_senv sample_build (conf_defaults\<lparr>cf_root := ''/s''\<rparr>) g_suffixes
        (snd (store_init calm_env ''/s'' published_store)), rx_conns = [], rx_next = 0\<rparr>"

lemma restarted_reachable: "server_reachable flat_hash care sample_build restarted_reactor"
proof (rule server_start)
  have "server_options (\<lambda>_. Fopen_Failed) [''--root=/s''] = Inr (start_options (conf_defaults\<lparr>cf_root := ''/s''\<rparr>))"
    by code_simp
  moreover have "store_set_signature_policy (Some (cf_require_signature conf_defaults)) 64 g_suffixes = (0, [], g_suffixes)"
    by code_simp
  moreover have "fst (store_init calm_env ''/s'' published_store) = 0" by code_simp
  ultimately show "server_main calm_senv sample_build (\<lambda>_. Fopen_Failed) (\<lambda>_ _. None) None (\<lambda>_ _. True) [''--root=/s''] published_store
      = Inr restarted_reactor"
    by (cases "store_init calm_env ''/s'' published_store")
      (simp add: server_main_def start_options_def restarted_reactor_def calm_senv_def)
  have "map_of (st_fs published_store) ''/s'' = Some Dir" "st_root published_store = ''/s''" by code_simp+
  then show "bootable flat_hash care (cf_root (sv_conf (rx_server restarted_reactor))) (st_fs published_store)"
    using published_reachable by (auto simp: bootable_def PATH_MAX_def restarted_reactor_def start_server_def)
qed

lemma restarted_entry: "entry_digest (sv_store (rx_server restarted_reactor)) ''z-1-1.iso'' = Some digest_a"
proof -
  have "entry_digest (snd (store_init calm_env ''/s'' published_store)) ''z-1-1.iso'' = Some digest_a" by code_simp
  then show ?thesis by (simp add: restarted_reactor_def start_server_def)
qed

text \<open>
  The server on an empty disk once more: a file is moved into the tree, a client asks for an import, and the
  importer takes the file in.
\<close>

definition flat_hasher :: hasher where
  "flat_hasher fs p = Some (digest_a @ ''  -'', 0)"

definition asked_reactor :: reactor where
  "asked_reactor = handle_event calm_senv sample_build
     (On_Client 0 False [Read_Data (''POST /api/v1/import HTTP/1.1'' @ CR # LF # CR # [LF])] [])
     (drop_file ''z-9.iso'' (Reg ''yy'' 420 3) joined_reactor)"

definition imported_reactor :: reactor where
  "imported_reactor = handle_event calm_senv sample_build (Import_Work flat_hasher None) asked_reactor"

lemma flat_hasher_honest: "honest_hasher flat_hash flat_hasher"
proof -
  have "take 127 (digest_a @ ''  -'') = digest_a @ ''  -''" "\<not> length (digest_a @ ''  -'') < STORE_SHA256_HEX_LEN"
    "take STORE_SHA256_HEX_LEN (digest_a @ ''  -'') = digest_a" "store_digest_is_valid digest_a"
    by code_simp+
  then show ?thesis
    by (simp add: honest_hasher_def store_hash_file_def flat_hasher_def flat_hash_def Let_def)
qed

lemma imported_reachable: "server_reachable flat_hash care sample_build imported_reactor"
proof -
  have "sv_store (rx_server joined_reactor) = snd (store_init calm_env ''/s'' empty_disk)"
    by (simp add: joined_reactor_def handle_event_def first_reactor_def start_server_def calm_senv_def)
  moreover have "map_of (st_fs (snd (store_init calm_env ''/s'' empty_disk)))
      (entry_at (st_root (snd (store_init calm_env ''/s'' empty_disk))) ''z-9.iso'') = None" by code_simp
  ultimately have "server_reachable flat_hash care sample_build (drop_file ''z-9.iso'' (Reg ''yy'' 420 3) joined_reactor)"
    by (intro server_drop [OF joined_reachable]) simp_all
  then have "server_reachable flat_hash care sample_build asked_reactor"
    unfolding asked_reactor_def by (rule server_event) (simp add: event_ok_def calm_senv_def reads_ok_calm)
  then show ?thesis
    unfolding imported_reactor_def by (rule server_event) (simp add: event_ok_def flat_hasher_honest)
qed

lemma imported_entry:
  "entry_digest (sv_store (rx_server imported_reactor)) ''z-9-1.iso'' = Some digest_a"
  by code_simp


text \<open>
  C7. What a connection has sent is what it should have sent: in every reachable state, a connection that is
  sending has put on the wire exactly a prefix of its response, header first and then the body
  its header announces; one that has not been answered has sent nothing; and one with an upload in
  progress holds a staged file of its own area, a valid name and a valid declared digest.
\<close>

theorem connections_well_formed:
  assumes "server_reachable sha care bi rx" and "(i, cc) \<in> set (rx_conns rx)" and "cn_open cc"
  shows "(\<exists>rest. cn_hdr cc @ response_body cc = cn_sent cc @ rest)
      \<and> (cn_state cc \<in> {CONN_READ_REQUEST, CONN_RECV_BODY, CONN_HASHING} \<longrightarrow> cn_sent cc = [])
      \<and> (cn_state cc \<in> {CONN_RECV_BODY, CONN_HASHING} \<longrightarrow>
           up_area (st_root (sv_store (rx_server rx))) (cn_up_path cc)
           \<and> store_name_is_valid (cn_up_name cc) \<and> store_digest_is_valid (cn_up_digest cc))"
proof -
  have wf: "conn_wf (st_root (sv_store (rx_server rx))) cc"
    using server_reachable_inv [OF assms(1)] assms(2) by (auto simp: reactor_inv_def)
  have header: "\<exists>rest. cn_hdr cc @ x = take k (cn_hdr cc) @ rest" for k x
    by (intro exI [of _ "drop k (cn_hdr cc) @ x"]) simp
  have "\<exists>rest. cn_hdr cc @ response_body cc = cn_sent cc @ rest"
  proof (cases "cn_state cc")
    case CONN_SEND_HEADER
    then have "cn_sent cc = take (cn_hdr_off cc) (cn_hdr cc)"
      using wf assms(3) by (simp add: conn_wf_def sending_header_def)
    then show ?thesis using header by simp
  next
    case CONN_SEND_BODY
    then have b: "sending_body cc" using wf assms(3) by (simp add: conn_wf_def)
    then have h: "\<not> cn_head_only cc" by (simp add: sending_body_def)
    show ?thesis
    proof (cases "cn_blob cc")
      case (Some nd)
      let ?f = "file_bytes (cn_blob cc)"
      have s: "cn_sent cc = cn_hdr cc @ take (cn_body_off cc) ?f" and k: "cn_body_off cc \<le> nat (cn_body_len cc) \<or> cn_body_off cc = 0"
        using b Some by (auto simp: sending_body_def)
      have "take (nat (cn_body_len cc)) ?f = take (cn_body_off cc) ?f @ drop (cn_body_off cc) (take (nat (cn_body_len cc)) ?f)"
        using k append_take_drop_id [of "cn_body_off cc" "take (nat (cn_body_len cc)) ?f"] by (auto simp: min_def split: if_splits)
      then show ?thesis using s h Some by (auto simp: response_body_def)
    next
      case None
      then obtain b where "cn_out cc = Some b" "cn_sent cc = cn_hdr cc @ take (cn_out_off cc) b"
        using b by (auto simp: sending_body_def split: option.splits)
      then show ?thesis using h None by (auto simp: response_body_def intro: exI [of _ "drop (cn_out_off cc) b"])
    qed
  qed (use wf assms(3) in \<open>simp_all add: conn_wf_def idle_def ready_def\<close>)
  then show ?thesis using wf assms(3) by (auto simp: conn_wf_def idle_def ready_def gated_def)
qed


theorem connections_well_formed_witness: "cn_sent sample_conn = []"
proof -
  have "(0, sample_conn) \<in> set (rx_conns joined_reactor)" by (simp add: joined_conns)
  moreover have "cn_open sample_conn" "cn_state sample_conn = CONN_READ_REQUEST"
    by (simp_all add: sample_conn_def conn_new_def)
  ultimately show ?thesis using connections_well_formed [OF joined_reachable] by blast
qed

end
