(* ===== verification/Server_Uploads.thy ===== *)
theory Server_Uploads
  imports Server_Props
begin

text \<open>
  What an upload leaves behind: the gate it has passed, the file it is staged in, and the one
  name it publishes, or none.
\<close>

section \<open>The body\<close>

text \<open>An environment in which writing the staged file and starting the hash program succeed.\<close>

definition staging_works :: "senv \<Rightarrow> bool" where
  "staging_works env \<longleftrightarrow>
     (\<forall>d. length d \<le> se_staged env d)
     \<and> \<not> se_fails env SRV_pipe \<and> \<not> se_fails env SRV_fork \<and> \<not> se_fails env SRV_pidfd
     \<and> \<not> se_fails env SRV_conn_alloc \<and> \<not> se_fails env SRV_epoll_add"

definition staged_bytes :: "server \<Rightarrow> conn \<Rightarrow> bytes option" where
  "staged_bytes sv cc = reg_bytes (map_of (st_fs (sv_store sv)) (cn_up_path cc))"

lemma start_hash_works:
  "staging_works env \<Longrightarrow> start_hash_child env sv cc =
     (sv, cc\<lparr>cn_up_fd := None, cn_child := True, cn_state := CONN_HASHING, cn_last_ms := se_now_ms env,
             cn_interest := Want_Nothing\<rparr>)"
  by (simp add: start_hash_child_def staging_works_def Let_def)

text \<open>One chunk of the body.\<close>

lemma recv_body_stages:
  assumes works: "staging_works env" and fd: "cn_up_fd cc = Some (cn_up_path cc)"
    and b: "staged_bytes sv cc = Some b" and rem: "cn_up_received cc < cn_up_expect cc"
    and r: "recv_body env data sv cc = (fin, sv', cc')"
  defines "left \<equiv> nat (cn_up_expect cc - cn_up_received cc)"
  shows "staged_bytes sv' cc' = Some (b @ take left data) \<and> cn_up_path cc' = cn_up_path cc
    \<and> (if length data < left
       then \<not> fin \<and> cc' = cc\<lparr>cn_up_received := cn_up_received cc + int (length data)\<rparr>
       else fin \<and> cn_state cc' = CONN_HASHING \<and> cn_up_received cc' = cn_up_expect cc
         \<and> cn_open cc' = cn_open cc \<and> cn_interest cc' = Want_Nothing)"
proof -
  define taken where "taken = (if int (length data) > cn_up_expect cc - cn_up_received cc
    then nat (cn_up_expect cc - cn_up_received cc) else length data)"
  have taken: "taken = min left (length data)" "take taken data = take left data"
    using rem by (auto simp: taken_def left_def min_def)
  obtain m t where reg: "map_of (st_fs (sv_store sv)) (cn_up_path cc) = Some (Reg b m t)"
    using b unfolding staged_bytes_def by (cases "map_of (st_fs (sv_store sv)) (cn_up_path cc)" rule: reg_bytes.cases) auto
  let ?fs = "AList.update (cn_up_path cc) (Reg (b @ take taken data) m (ev_now (se_env env))) (st_fs (sv_store sv))"
  have "length (take taken data) \<le> se_staged env (take taken data)" using works unfolding staging_works_def by blast
  then have w: "stage_bytes env (st_fs (sv_store sv)) (cn_up_path cc) (take taken data) = (taken, ?fs)"
    using reg by (simp add: stage_bytes_def Let_def min_absorb2 taken(1))
  let ?c = "cc\<lparr>cn_up_received := cn_up_received cc + int taken\<rparr>"
  have "(fin, sv', cc') = (if cn_up_received ?c \<ge> cn_up_expect ?c then (True, start_hash_child env (set_fs sv ?fs) ?c)
      else (False, set_fs sv ?fs, ?c))"
    unfolding r [symmetric] recv_body_def Let_def fd option.case taken_def [symmetric] w prod.case by simp
  moreover have "cn_up_received ?c \<ge> cn_up_expect ?c \<longleftrightarrow> \<not> length data < left"
    using rem by (auto simp: taken(1) left_def)
  moreover have "cn_up_received cc + int taken = cn_up_expect cc" if "\<not> length data < left"
    using rem that by (auto simp: taken(1) left_def)
  ultimately show ?thesis
    using rem start_hash_works [OF works]
    by (auto simp: staged_bytes_def set_fs_def fs_simps taken left_def split: if_splits)
qed

text \<open>A connection that has staged \<open>b\<close> and waits for more, and one whose staged file is being hashed.\<close>

definition uploading :: "server \<Rightarrow> conn \<Rightarrow> bytes \<Rightarrow> bool" where
  "uploading sv cc b \<longleftrightarrow> cn_open cc \<and> cn_interest cc = EPOLLIN \<and> cn_state cc = CONN_RECV_BODY
     \<and> cn_up_fd cc = Some (cn_up_path cc) \<and> cn_up_received cc = int (length b) \<and> int (length b) < cn_up_expect cc
     \<and> staged_bytes sv cc = Some b"

definition hashing :: "server \<Rightarrow> conn \<Rightarrow> bytes \<Rightarrow> bool" where
  "hashing sv cc b \<longleftrightarrow> cn_open cc \<and> cn_interest cc = Want_Nothing \<and> cn_state cc = CONN_HASHING
     \<and> cn_up_received cc = int (length b) \<and> staged_bytes sv cc = Some b"

text \<open>What is staged of all the bytes that have come, of a declared number of them.\<close>

definition staged_of :: "int \<Rightarrow> bytes \<Rightarrow> server \<Rightarrow> conn \<Rightarrow> bool" where
  "staged_of n all sv cc \<longleftrightarrow>
     (if int (length all) < n then uploading sv cc all \<and> cn_up_expect cc = n else hashing sv cc (take (nat n) all))"

lemma reads_stage:
  assumes works: "staging_works env" and "uploading sv cc b" and "\<forall>c \<in> set cs. c \<noteq> [] \<and> length c \<le> READ_BUF"
    and "handle_read env bi (map Read_Data cs) sv cc = (sv', cc')"
  shows "staged_of (cn_up_expect cc) (b @ concat cs) sv' cc'"
  using assms(2-4)
proof (induction cs arbitrary: sv cc b)
  case Nil
  then show ?case by (simp add: staged_of_def uploading_def)
next
  case (Cons c cs)
  let ?cc = "cc\<lparr>cn_last_ms := se_now_ms env\<rparr>" and ?n = "cn_up_expect cc"
  have c: "take READ_BUF c = c" "c \<noteq> []" using Cons.prems(2) by auto
  have u: "cn_open cc" "cn_interest cc = EPOLLIN" "cn_state cc = CONN_RECV_BODY" "cn_up_fd cc = Some (cn_up_path cc)"
    "cn_up_received cc = int (length b)" "int (length b) < ?n" "staged_bytes sv ?cc = Some b"
    using Cons.prems(1) by (simp_all add: uploading_def staged_bytes_def)
  obtain fin sv1 cc1 where r: "recv_body env c sv ?cc = (fin, sv1, cc1)" by (metis prod.exhaust)
  note step = recv_body_stages [OF works _ u(7) _ r]
  show ?case
  proof (cases "int (length (b @ c)) < ?n")
    case True
    then have cc1: "\<not> fin" "cc1 = ?cc\<lparr>cn_up_received := cn_up_received cc + int (length c)\<rparr>"
      and s1: "staged_bytes sv1 cc1 = Some (b @ c)"
      using step u(4-6) by (auto simp: nat_less_iff)
    have h: "handle_read env bi (map Read_Data cs) sv1 cc1 = (sv', cc')"
      using Cons.prems(3) u(3) c cc1(1) r by (simp add: Let_def)
    have "uploading sv1 cc1 (b @ c)" using u True s1 by (simp add: uploading_def cc1(2))
    from Cons.IH [OF this _ h] Cons.prems(2) show ?thesis by (simp add: cc1(2))
  next
    case False
    then have len: "\<not> length c < nat (?n - cn_up_received ?cc)" using u(5,6) by (simp add: nat_less_iff)
    have eq: "b @ take (nat (?n - int (length b))) c = take (nat ?n) (b @ c)"
      using u(6) by (simp add: nat_diff_distrib')
    have hc: "cn_open cc1 \<and> cn_interest cc1 = Want_Nothing" using step len u(1,4-6) by simp
    have f: "fin" "cn_state cc1 = CONN_HASHING" "staged_bytes sv1 cc1 = Some (take (nat ?n) (b @ c))" "cn_up_received cc1 = ?n"
      using step len u(4-6) eq by auto
    have "(sv', cc') = (sv1, cc1)" using Cons.prems(3) c r f(1) u(3) by (simp add: Let_def)
    moreover have "take (nat ?n) (b @ concat (c # cs)) = take (nat ?n) (b @ c)" using False by simp
    moreover have "int (length (take (nat ?n) (b @ c))) = ?n" using False u(6) by simp
    ultimately show ?thesis using False f hc by (simp add: staged_of_def hashing_def)
  qed
qed

text \<open>The read events of one connection, the bytes of each event cut into reads in some way.\<close>

fun read_events :: "build_info \<Rightarrow> (senv \<times> bytes list) list \<Rightarrow> server \<times> conn \<Rightarrow> server \<times> conn" where
  "read_events bi [] r = r"
| "read_events bi ((env, cs) # es) r =
     read_events bi es (on_client env bi False (map Read_Data cs) [] (fst r) (snd r))"

lemma events_stage:
  assumes "staged_of n b sv cc"
    and "\<forall>(env, cs) \<in> set es. staging_works env \<and> (\<forall>c \<in> set cs. c \<noteq> [] \<and> length c \<le> READ_BUF)"
    and "read_events bi es (sv, cc) = (sv', cc')"
  shows "staged_of n (b @ concat (concat (map snd es))) sv' cc'"
  using assms
proof (induction es arbitrary: sv cc b)
  case (Cons e es)
  obtain env cs where e: "e = (env, cs)" by (cases e)
  obtain sv1 cc1 where h: "on_client env bi False (map Read_Data cs) [] sv cc = (sv1, cc1)" by fastforce
  have ok: "staging_works env" "\<forall>c \<in> set cs. c \<noteq> [] \<and> length c \<le> READ_BUF" using Cons.prems(2) by (auto simp: e)
  have run: "read_events bi es (sv1, cc1) = (sv', cc')" using Cons.prems(3) h by (simp add: e)
  have "staged_of n (b @ concat cs) sv1 cc1"
  proof (cases "int (length b) < n")
    case True
    then have u: "uploading sv cc b" "cn_up_expect cc = n" using Cons.prems(1) by (simp_all add: staged_of_def)
    then have "handle_read env bi (map Read_Data cs) sv cc = (sv1, cc1)" using h by (simp add: on_client_def uploading_def)
    then show ?thesis using reads_stage [OF ok(1) u(1) ok(2)] u(2) by simp
  next
    case False
    then have "hashing sv cc (take (nat n) b)" using Cons.prems(1) by (simp add: staged_of_def)
    then have "hashing sv1 cc1 (take (nat n) b)" using h by (simp add: on_client_def hashing_def)
    moreover have "take (nat n) (b @ concat cs) = take (nat n) b" using False by simp
    ultimately show ?thesis using False by (simp add: staged_of_def)
  qed
  from Cons.IH [OF this _ run] Cons.prems(2) show ?case by (simp add: e)
qed simp

section \<open>A concrete upload\<close>

definition small_server :: "store \<Rightarrow> server" where
  "small_server s =
     \<lparr>sv_conf = sample_conf, sv_suffixes = g_suffixes, sv_store = s, sv_started_ms = 0, sv_served_bytes = 0,
      sv_requests = 0, sv_artifact_hits = 0, sv_artifact_misses = 0, sv_artifact_aliases = 0, sv_log = [],
      sv_log_seq = 0, sv_import_running = False, sv_import_started_ms = 0, sv_import_last_status = - 1,
      sv_importers = [], sv_import_watched = False, sv_undefined = False\<rparr>"

definition up_file :: path where
  "up_file = ''/s/tmp/.up.7.0''"

definition upload_server :: "bytes \<Rightarrow> server" where
  "upload_server b =
     small_server (published_store\<lparr>st_fs := AList.update up_file (Reg b 420 1) (st_fs published_store)\<rparr>)"

definition upload_conn :: conn where
  "upload_conn = sample_conn\<lparr>cn_state := CONN_RECV_BODY, cn_up_fd := Some up_file, cn_up_path := up_file,
     cn_up_digest := digest_a, cn_up_name := ''y-1.iso'', cn_up_expect := 2\<rparr>"

definition hashing_conn :: conn where
  "hashing_conn = upload_conn\<lparr>cn_state := CONN_HASHING, cn_up_fd := None, cn_up_received := 2, cn_child := True,
     cn_interest := Want_Nothing\<rparr>"

text \<open>The hash program prints nothing for a file it cannot read.\<close>

definition careful_senv :: senv where
  "careful_senv = calm_senv\<lparr>se_sha256sum := (\<lambda>fs p. case map_of fs p of Some (Reg b _ _) \<Rightarrow> flat_hash b | _ \<Rightarrow> [])\<rparr>"

lemma up_file_area: "up_area ''/s'' up_file"
  unfolding up_area_def up_file_def by (rule exI [of _ "''7.0''"]) simp

lemma upload_root: "st_root (sv_store (upload_server b)) = ''/s''" "st_root published_store = ''/s''"
proof -
  show "st_root published_store = ''/s''" by code_simp
  then show "st_root (sv_store (upload_server b)) = ''/s''" by (simp add: upload_server_def small_server_def)
qed

lemma upload_sound: "sound flat_hash care (upload_server b)"
proof -
  have "tmp_area (st_root published_store) up_file" using up_tmp [OF up_file_area] upload_root by simp
  then have "store_reachable flat_hash care (sv_store (upload_server b))"
    unfolding upload_server_def small_server_def
    by (simp add: reach_step [OF published_reachable step_tmp_write])
  then show ?thesis by (rule reachable_sound)
qed

lemma upload_wf: "conn_wf ''/s'' upload_conn" "conn_wf ''/s'' hashing_conn"
proof -
  have g: "store_name_is_valid ''y-1.iso''" "store_digest_is_valid digest_a" by code_simp+
  have "up_file \<noteq> []" by (simp add: up_file_def)
  then show "conn_wf ''/s'' upload_conn" "conn_wf ''/s'' hashing_conn"
    using g up_file_area
    by (simp_all add: conn_wf_def upload_conn_def hashing_conn_def sample_conn_def conn_new_def idle_def ready_def gated_def)
qed

lemma careful_honest: "honest flat_hash careful_senv"
proof -
  have "\<not> store_digest_is_valid []" by code_simp
  moreover have "take STORE_SHA256_HEX_LEN (flat_hash b) = flat_hash b" for b by (simp add: flat_hash_def digest_a_def STORE_SHA256_HEX_LEN_def)
  ultimately show ?thesis by (auto simp: honest_def careful_senv_def split: option.split node.split)
qed

lemma careful_stages: "staging_works careful_senv"
  by (simp add: staging_works_def careful_senv_def calm_senv_def)

lemma upload_staged: "staged_bytes (upload_server b) upload_conn = Some b" "staged_bytes (upload_server b) hashing_conn = Some b"
  by (simp_all add: staged_bytes_def upload_server_def small_server_def upload_conn_def hashing_conn_def fs_simps)

section \<open>Answers\<close>

text \<open>The status a connection is about to send, if it has been answered.\<close>

definition answer :: "conn \<Rightarrow> string option" where
  "answer cc = (if cn_open cc \<and> cn_state cc = CONN_SEND_HEADER then Some (take 3 (drop 9 (cn_hdr cc))) else None)"

lemma answer_close [simp]: "answer (snd (conn_close env sv cc)) = None"
  by (simp add: answer_def conn_close_def)

lemma header_code:
  "http_format_header n status st ct len extra = Some hdr \<Longrightarrow> length (int_dec status) = 3
    \<Longrightarrow> take 3 (drop 9 hdr) = int_dec status"
  by (auto simp: http_format_header_def Let_def split: if_splits)

lemma begin_answer:
  "length (int_dec status) = 3 \<Longrightarrow>
   answer (snd (begin_response env status ct extra len sv cc)) \<in> {None, Some (int_dec status)}"
  using header_code [of HDR_MAX status "http_status_text status" ct len extra]
  by (cases "http_format_header HDR_MAX status (http_status_text status) ct len extra")
    (simp_all add: begin_response_def answer_def [of "cc\<lparr>cn_hdr := x\<rparr>" for cc x] answer_def [of "cc\<lparr>cn_interest := x\<rparr>" for cc x])

lemma error_answer:
  "length (int_dec status) = 3 \<Longrightarrow> answer (snd (respond_error env status msg sv cc)) \<in> {None, Some (int_dec status)}"
  using begin_answer by (simp add: respond_error_def respond_buffer_def Let_def)

lemma code_dec: "int_dec 201 = ''201''" "int_dec 400 = ''400''" "int_dec 409 = ''409''" "int_dec 500 = ''500''"
  "int_dec 401 = ''401''" "int_dec 411 = ''411''" "int_dec 413 = ''413''"
  by code_simp+

text \<open>A failure answered with an error.\<close>

definition failed_codes :: "string option set" where
  "failed_codes = {None, Some ''400'', Some ''409'', Some ''500''}"

lemma error_failed:
  assumes "(sv', cc') = respond_error env k msg sv cc" and "k \<in> {400, 409, 500}"
  shows "answer cc' \<in> failed_codes" "answer cc' \<noteq> Some ''201''"
proof -
  have "length (int_dec k) = 3" using assms(2) code_dec by auto
  then have a: "answer cc' \<in> {None, Some (int_dec k)}"
    using error_answer [of k env msg sv cc] arg_cong [OF assms(1), of snd] by simp
  then show "answer cc' \<in> failed_codes" "answer cc' \<noteq> Some ''201''"
    using assms(2) code_dec by (auto simp: failed_codes_def)
qed

lemma created_answer: "cn_open cc \<Longrightarrow> answer (snd (begin_response env 201 ''application/json'' [] 0 sv cc)) = Some ''201''"
proof -
  have "http_format_header HDR_MAX 201 (http_status_text 201) ''application/json'' 0 [] \<noteq> None" by code_simp
  then obtain hdr where "http_format_header HDR_MAX 201 (http_status_text 201) ''application/json'' 0 [] = Some hdr"
    by blast
  moreover from this have "take 3 (drop 9 hdr) = ''201''" using header_code [of _ 201] by (simp add: code_dec)
  ultimately show "cn_open cc \<Longrightarrow> ?thesis" by (simp add: begin_response_def answer_def)
qed


section \<open>All or nothing\<close>

text \<open>Removing an upload, and any reply, leaves the published names as they are.\<close>

lemma unlink_entries:
  assumes "up_area (st_root (sv_store sv)) (cn_up_path cc)"
  shows "entry_digest (sv_store (unlink_upload env sv cc)) = entry_digest (sv_store sv)"
proof -
  have "map_of (ignoring fs (sys_unlink e fs (cn_up_path cc))) (entry_at (st_root (sv_store sv)) n)
      = map_of fs (entry_at (st_root (sv_store sv)) n)" for fs e n
    using up_disjoint(2) [OF assms] by (intro ignoring_unlink_other) metis
  then show ?thesis by (simp add: unlink_upload_def set_fs_def entry_digest_def fun_eq_iff)
qed

lemma replied_entries:
  assumes "replied env sv cc r" and "cn_up_path cc \<noteq> [] \<Longrightarrow> up_area (st_root (sv_store sv)) (cn_up_path cc)"
  shows "entry_digest (sv_store (fst r)) = entry_digest (sv_store sv)"
proof -
  obtain sv1 cc1 where q: "quiet sv sv1" and c: "cn_up_path cc1 = cn_up_path cc" "cn_open cc1"
    and r: "r = conn_close env sv1 cc1 \<or> fst r = sv1" using assms(1) unfolding replied_def by auto
  have s: "sv_store sv1 = sv_store sv" using quiet_fields [OF q] by simp
  from r show ?thesis
  proof
    assume "r = conn_close env sv1 cc1"
    then show ?thesis using unlink_entries [of sv1 cc1 env] assms(2) c by (simp add: conn_close_def s)
  qed (simp add: s)
qed

text \<open>An upload that is turned down: no name changes.\<close>

definition rejected :: "server \<Rightarrow> server \<times> conn \<Rightarrow> bool" where
  "rejected sv r \<longleftrightarrow> entry_digest (sv_store (fst r)) = entry_digest (sv_store sv) \<and> answer (snd r) \<in> failed_codes"

lemma error_rejected:
  assumes "k \<in> {400, 409, 500}" and "idle cc" and "cn_up_path cc \<noteq> [] \<Longrightarrow> up_area (st_root (sv_store sv1)) (cn_up_path cc)"
    and "entry_digest (sv_store sv1) = entry_digest (sv_store sv)"
  shows "rejected sv (respond_error env k msg sv1 cc)"
proof -
  have "entry_digest (sv_store (fst (respond_error env k msg sv1 cc))) = entry_digest (sv_store sv)"
    using replied_entries [OF error.respond_replied [OF assms(2)], of sv1 env k msg] assms(3,4) by simp
  then show ?thesis using error_failed(1) [OF _ assms(1)] by (simp add: rejected_def) (metis prod.collapse)
qed

text \<open>An upload that is accepted, as \<open>d\<close>.\<close>

definition accepted :: "senv \<Rightarrow> string \<Rightarrow> string \<Rightarrow> server \<Rightarrow> server \<times> conn \<Rightarrow> bool" where
  "accepted env name d sv r \<longleftrightarrow>
     answer (snd r) = Some ''201'' \<and> store_resolve (se_env env) (sv_store (fst r)) name STORE_SHA256_MAX = Inr d
     \<and> map_of (st_fs (sv_store (fst r))) (blob_at (st_root (sv_store (fst r))) d) \<noteq> None
     \<and> (entry_digest (sv_store (fst r)) = entry_digest (sv_store sv)
        \<or> (\<exists>c. canon_of name = Some c \<and> entry_digest (sv_store sv) c = None
             \<and> entry_digest (sv_store (fst r)) = (entry_digest (sv_store sv))(c \<mapsto> d)))"

lemma blob_exists_node:
  assumes "store_blob_exists env s d \<noteq> None"
  shows "map_of (st_fs s) (blob_at (st_root s) d) \<noteq> None"
proof
  let ?p = "blob_at (st_root s) d"
  assume n: "map_of (st_fs s) ?p = None"
  then have "namei (st_fs s) ?p = Some ?p" by (intro namei_plain) simp
  moreover have "q = ?p" if "blob_path (st_root s) d = Some q" for q using that by (rule blob_path_Some)
  ultimately show False
    using assms n by (auto simp: store_blob_exists_def sys_stat_def split: if_splits option.splits sum.splits)
qed

text \<open>Nothing is published without a blob.\<close>

lemma publish_has_blob:
  assumes "store_publish env s name d = (STORE_OK, s')"
  shows "map_of (st_fs s') (blob_at (st_root s') d) \<noteq> None"
proof -
  have "store_blob_exists env s d \<noteq> None" using assms by (auto simp: store_publish_def split: if_splits)
  then show ?thesis
    using blob_exists_node publish_blobs [OF assms] publish_root [of env s name d] assms by simp
qed

lemma adopt_upload_effect:
  assumes "idle cc" and up: "up_area (st_root (sv_store sv)) (cn_up_path cc)"
    and reg: "map_of (st_fs (sv_store sv)) (cn_up_path cc) = Some (Reg b m t)"
  shows "accepted env (cn_up_name cc) d sv (adopt_upload env d sv cc) \<or> rejected sv (adopt_upload env d sv cc)"
proof -
  obtain e s1 where a: "store_blob_adopt (se_env env) (sv_store sv) (cn_up_path cc) d = (e, s1)" by fastforce
  obtain e' s2 where p: "store_publish (se_env env) s1 (cn_up_name cc) d = (e', s2)" by fastforce
  have "staged_at (sv_store sv) (cn_up_path cc)" using up_tmp [OF up] by (simp add: staged_at_def)
  from this reg a have ent: "entry_digest s1 = entry_digest (sv_store sv)" by (rule adopt_effect)
  let ?c = "cc\<lparr>cn_up_path := []\<rparr>"
  have c: "idle ?c" "cn_up_path ?c = []" "cn_open ?c" using assms(1) by (simp_all add: idle_def ready_def)
  show ?thesis
  proof (cases "e = STORE_OK \<and> e' = STORE_OK")
    case True
    let ?r = "begin_response env 201 ''application/json'' [] 0
      (server_log env ''info'' (''published '' @ cn_up_name cc @ '' -> '' @ d) (sv\<lparr>sv_store := s2\<rparr>)) ?c"
    have "sv_store (fst ?r) = s2" using quiet_fields(1) [OF bare.respond_quiet(1) [OF c(1,2)]] by simp
    then have "accepted env (cn_up_name cc) d sv ?r"
      using created_answer [OF c(3)] publish_resolve p True publish_entries [OF p] publish_has_blob ent
      by (auto simp: accepted_def)
    then show ?thesis using a p True by (simp add: adopt_upload_def Let_def)
  next
    case False
    have "entry_digest s2 = entry_digest s1" if "e = STORE_OK" using publish_entries [OF p] that False by auto
    then show ?thesis
      using a p False ent by (auto simp: adopt_upload_def Let_def intro!: error_rejected c)
  qed
qed

lemma settle_upload_effect:
  assumes "idle cc" and up: "up_area (st_root (sv_store sv)) (cn_up_path cc)"
    and "map_of (st_fs (sv_store sv)) (cn_up_path cc) = Some (Reg b m t)"
  shows "accepted env (cn_up_name cc) d sv (settle_upload env d sv cc) \<or> rejected sv (settle_upload env d sv cc)"
proof -
  let ?c = "cc\<lparr>cn_up_path := []\<rparr>"
  have err: "rejected sv (respond_error env k msg sv1 ?c)"
    if "k \<in> {400, 409, 500}" "sv_store sv1 = sv_store (unlink_upload env sv cc)" for k msg sv1
    by (rule error_rejected [OF that(1)]) (use assms(1) unlink_entries [OF up] that(2) in simp_all)
  show ?thesis
    using adopt_upload_effect [OF assms] err by (auto simp: settle_upload_def split: sum.split)
qed

lemma resolve_entry:
  assumes "store_resolve env s name STORE_SHA256_MAX = Inr d"
  shows "\<exists>n. entry_digest s n = Some d"
proof -
  obtain nm where "store_resolve_as env s name STORE_SHA256_MAX 0 = Inr (d, nm)"
    using assms by (cases "store_resolve_as env s name STORE_SHA256_MAX 0") (auto simp: store_resolve_def)
  then show ?thesis by (rule resolve_as_entry)
qed

text \<open>What an honest hash program says of a staged file.\<close>

lemma lower_digest: "store_digest_is_valid d \<Longrightarrow> lower d = d"
  unfolding lower_def store_digest_is_valid_iff
  by (rule map_idI) (auto simp: list_all_iff hex_lower_def c_tolower_def c_isdigit_def)

lemma honest_upload:
  assumes "sound sha care sv" and "honest sha env" and up: "up_area (st_root (sv_store sv)) (cn_up_path cc)"
  defines "d \<equiv> take STORE_SHA256_HEX_LEN (hash_output env sv cc)"
  assumes v: "store_digest_is_valid d"
  obtains b m t where "map_of (st_fs (sv_store sv)) (cn_up_path cc) = Some (Reg b m t)" "sha b = d"
proof -
  have d: "d = take STORE_SHA256_HEX_LEN (se_sha256sum env (st_fs (sv_store sv)) (cn_up_path cc))"
    by (simp add: d_def hash_output_def STORE_SHA256_HEX_LEN_def)
  have "map_of (st_fs (sv_store sv)) (cn_up_path cc) \<noteq> Some (Lnk x y)" for x y
    using assms(1) up by (auto simp: sound_def no_up_links_def)
  moreover have "case map_of (st_fs (sv_store sv)) (cn_up_path cc) of
      Some (Reg b _ _) \<Rightarrow> d = sha b | Some (Lnk _ _) \<Rightarrow> True | _ \<Rightarrow> False"
    using assms(2) v unfolding honest_def Let_def d by blast
  ultimately show thesis using that by (auto split: option.splits node.splits)
qed

text \<open>
  C2. An upload is all or nothing: when the hashing process has exited, either the client is told 201, and
  then the staged file's bytes hash to the declared digest, the name resolves to that digest, a blob with
  that hash is in the store, and the name's canonical entry is the only one that may be new; or the client
  is told 400, 409 or 500 or is disconnected, and no published name has changed in any way.
\<close>

theorem upload_all_or_nothing:
  assumes "sound sha care sv" and "honest sha env" and "conn_wf (st_root (sv_store sv)) cc" and "cn_open cc"
    and "cn_state cc = CONN_HASHING" and "finish_upload env sv cc = (sv', cc')"
  shows "if answer cc' = Some ''201''
    then (\<exists>b. staged_bytes sv cc = Some b \<and> sha b = cn_up_digest cc)
      \<and> store_resolve (se_env env) (sv_store sv') (cn_up_name cc) STORE_SHA256_MAX = Inr (cn_up_digest cc)
      \<and> (\<exists>b. blob_bytes (sv_store sv') (cn_up_digest cc) = Some b \<and> sha b = cn_up_digest cc)
      \<and> (entry_digest (sv_store sv') = entry_digest (sv_store sv)
         \<or> (\<exists>c. canon_of (cn_up_name cc) = Some c \<and> entry_digest (sv_store sv) c = None
              \<and> entry_digest (sv_store sv') = (entry_digest (sv_store sv))(c \<mapsto> cn_up_digest cc)))
    else entry_digest (sv_store sv') = entry_digest (sv_store sv) \<and> answer cc' \<in> failed_codes"
proof -
  let ?c = "cc\<lparr>cn_child := False\<rparr>"
  let ?d = "take STORE_SHA256_HEX_LEN (hash_output env sv cc)"
  have wf: "idle cc" "up_area (st_root (sv_store sv)) (cn_up_path cc)" "gated cc"
    using assms(3-5) by (auto simp: conn_wf_def)
  have c: "idle ?c" "cn_up_path ?c = cn_up_path cc" "cn_up_name ?c = cn_up_name cc" using wf(1) by simp_all
  show ?thesis
  proof (cases "STORE_SHA256_HEX_LEN \<le> length (hash_output env sv cc) \<and> store_digest_is_valid ?d
      \<and> c_strcasecmp ?d (cn_up_digest cc) = 0")
    case False
    have "rejected sv (finish_upload env sv cc)"
      using False wf(2) c by (auto simp: finish_upload_def Let_def not_le intro!: error_rejected)
    then show ?thesis by (auto simp: assms(6) rejected_def failed_codes_def)
  next
    case True
    then have run: "settle_upload env ?d sv ?c = (sv', cc')" using assms(6) by (simp add: finish_upload_def Let_def)
    have d: "?d = cn_up_digest cc" using True wf(3) lower_digest unfolding gated_def c_strcasecmp_eq by metis
    obtain b m t where reg: "map_of (st_fs (sv_store sv)) (cn_up_path cc) = Some (Reg b m t)" and sha: "sha b = ?d"
      using honest_upload [OF assms(1,2) wf(2)] True by blast
    have ad: "accepted env (cn_up_name cc) (cn_up_digest cc) sv (sv', cc') \<or> rejected sv (sv', cc')"
      using settle_upload_effect [of ?c sv b m t env ?d] c wf(2) reg run d by simp
    have blob: "\<exists>b. blob_bytes (sv_store sv') (cn_up_digest cc) = Some b \<and> sha b = cn_up_digest cc"
      if "accepted env (cn_up_name cc) (cn_up_digest cc) sv (sv', cc')"
    proof -
      have "steps_to sha care sv sv'" using finish_upload_handled [OF steps_refl assms(1,2) wf(1,2)] assms(6) by (simp add: handled_def)
      then have "store_inv sha care (sv_store sv')" using steps_sound assms(1) by (auto simp: sound_def)
      moreover have "store_digest_is_valid (cn_up_digest cc)" using wf(3) by (simp add: gated_def)
      moreover have "map_of (st_fs (sv_store sv')) (blob_at (st_root (sv_store sv')) (cn_up_digest cc)) \<noteq> None"
        using that by (simp add: accepted_def)
      ultimately show ?thesis unfolding store_inv_def by (elim conjE allE [of _ "cn_up_digest cc"]) auto
    qed
    have "staged_bytes sv cc = Some b \<and> sha b = cn_up_digest cc" using reg sha d by (simp add: staged_bytes_def)
    then show ?thesis using ad blob by (auto simp: accepted_def rejected_def failed_codes_def)
  qed
qed


theorem upload_all_or_nothing_witness:
  "\<exists>sv' cc'. finish_upload careful_senv (upload_server ''xy'') hashing_conn = (sv', cc') \<and> answer cc' = Some ''201''
     \<and> store_resolve (se_env careful_senv) (sv_store sv') ''y-1.iso'' STORE_SHA256_MAX = Inr digest_a"
proof -
  obtain sv' cc' where run: "finish_upload careful_senv (upload_server ''xy'') hashing_conn = (sv', cc')" by fastforce
  have "answer (snd (finish_upload careful_senv (upload_server ''xy'') hashing_conn)) = Some ''201''" by code_simp
  then have a: "answer cc' = Some ''201''" by (simp add: run)
  have h: "cn_open hashing_conn" "cn_state hashing_conn = CONN_HASHING" "cn_up_name hashing_conn = ''y-1.iso''"
    "cn_up_digest hashing_conn = digest_a"
    by (simp_all add: hashing_conn_def upload_conn_def sample_conn_def conn_new_def)
  have wf: "conn_wf (st_root (sv_store (upload_server ''xy''))) hashing_conn" by (simp add: upload_root upload_wf)
  show ?thesis
    using upload_all_or_nothing [OF upload_sound careful_honest wf h(1,2) run] run a h(3,4) by simp
qed

section \<open>The gate\<close>

text \<open>What a push must satisfy before a byte of its body is staged.\<close>

definition admitted :: "senv \<Rightarrow> server \<Rightarrow> http_request \<Rightarrow> string \<Rightarrow> string \<Rightarrow> bool" where
  "admitted env sv req name digest \<longleftrightarrow>
     bearer_ok req (cf_push_token (sv_conf sv)) \<and> store_name_is_valid name
     \<and> 0 < rq_content_length req \<and> rq_content_length req \<le> UPLOAD_MAX_BYTES
     \<and> map_option c_str (http_find_header (rq_headers req) ''X-Cix-Sha256'' (STORE_SHA256_MAX + 8)) = Some digest
     \<and> store_digest_is_valid digest
     \<and> (store_needs_signature (sv_suffixes sv) name \<longrightarrow>
          (\<exists>sg d. store_signature_name name STORE_NAME_MAX = Some sg
             \<and> store_resolve (se_env env) (sv_store sv) sg STORE_SHA256_MAX = Inr d))"

lemma gate_Inr:
  "upload_gate env sv req name = Inr digest \<and> (\<exists>u. signature_gate env sv name = Inr u) \<longleftrightarrow> admitted env sv req name digest"
  by (auto simp: upload_gate_def signature_gate_def admitted_def split: option.splits sum.splits)

lemma cut_fields:
  assumes "store_name_is_valid name" and "store_digest_is_valid digest"
  shows "snprintf STORE_NAME_MAX name = name" "snprintf STORE_SHA256_MAX digest = digest"
  using assms valid_length [of name]
  by (simp_all add: snprintf_def STORE_NAME_MAX_def store_digest_is_valid_iff STORE_SHA256_MAX_def STORE_SHA256_HEX_LEN_def)

text \<open>What staging and what follows it keep of a connection.\<close>

definition same_upload :: "conn \<Rightarrow> conn \<Rightarrow> bool" where
  "same_upload cc cc' \<longleftrightarrow> cn_up_name cc' = cn_up_name cc \<and> cn_up_digest cc' = cn_up_digest cc
     \<and> cn_up_expect cc' = cn_up_expect cc"

lemma same_upload_fields [simp]:
  "same_upload cc cc" "same_upload cc (c1\<lparr>cn_up_path := p\<rparr>) = same_upload cc c1"
  "same_upload cc (c1\<lparr>cn_up_fd := f\<rparr>) = same_upload cc c1" "same_upload cc (c1\<lparr>cn_state := st\<rparr>) = same_upload cc c1"
  "same_upload cc (c1\<lparr>cn_up_received := z\<rparr>) = same_upload cc c1" "same_upload cc (c1\<lparr>cn_child := b\<rparr>) = same_upload cc c1"
  "same_upload cc (c1\<lparr>cn_last_ms := z\<rparr>) = same_upload cc c1" "same_upload cc (c1\<lparr>cn_interest := i\<rparr>) = same_upload cc c1"
  by (simp_all add: same_upload_def)

lemma same_upload_reply [simp]: "same_upload cc (snd (respond_error env k msg sv c1)) = same_upload cc c1"
  by (simp add: same_upload_def respond_error_def respond_buffer_def begin_response_def conn_close_def Let_def
      split: option.split)

lemma stage_upload_keeps: "same_upload cc (snd (stage_upload env req sv cc))"
proof -
  have h: "same_upload cc (snd (start_hash_child env sv1 c1)) = same_upload cc c1" for sv1 c1
    by (simp add: start_hash_child_def Let_def)
  show ?thesis by (simp add: stage_upload_def Let_def h split: prod.split option.split sum.split)
qed

lemma hash_child_answer: "answer (snd (start_hash_child env sv cc)) \<in> {None, Some ''500''}"
  using error_answer [of 500, unfolded code_dec] by (auto simp: start_hash_child_def Let_def answer_def [of "cc\<lparr>cn_interest := x\<rparr>" for cc x])

lemma stage_upload_answer:
  assumes "cn_state cc \<noteq> CONN_SEND_HEADER"
  shows "answer (snd (stage_upload env req sv cc)) \<in> {None, Some ''500''}"
  using error_answer [of 500, unfolded code_dec] hash_child_answer
  by (simp add: stage_upload_def Let_def split: prod.split option.split sum.split)
    (auto simp: answer_def)

text \<open>The file for the body can be created: its path fits, and the call that opens it succeeds.\<close>

definition staging_opens :: "senv \<Rightarrow> server \<Rightarrow> bool" where
  "staging_opens env sv \<longleftrightarrow>
     (case store_tmp_path (se_env env) (sv_store sv) PATH_MAX of
        (Some p, s) \<Rightarrow> \<not> isl (sys_create env (st_fs s) p) | _ \<Rightarrow> False)"

text \<open>Staging has begun: the body that came with the request, and nothing else, is in the file.\<close>

definition upload_begun :: "http_request \<Rightarrow> server \<Rightarrow> conn \<Rightarrow> bool" where
  "upload_begun req sv cc \<longleftrightarrow> cn_open cc \<and> cn_up_path cc \<noteq> [] \<and> staged_bytes sv cc = Some (rq_body req)
     \<and> cn_up_received cc = int (length (rq_body req))
     \<and> (if int (length (rq_body req)) < rq_content_length req
        then cn_state cc = CONN_RECV_BODY \<and> cn_up_fd cc = Some (cn_up_path cc)
        else cn_state cc = CONN_HASHING)"

lemma error_settled:
  "\<not> cn_open (snd (respond_error env k msg sv cc)) \<or> cn_state (snd (respond_error env k msg sv cc)) = CONN_SEND_HEADER"
  by (auto simp: respond_error_def respond_buffer_def begin_response_def conn_close_def Let_def split: option.split)

lemma error_500: "\<not> cn_open (snd (respond_error env 500 msg sv cc)) \<or> answer (snd (respond_error env 500 msg sv cc)) = Some ''500''"
  using error_answer [of 500 env msg sv cc] error_settled [of env 500 msg sv cc] by (auto simp: code_dec answer_def split: if_splits)

lemma hash_child_begins:
  assumes "cn_open cc"
  shows "(\<not> cn_open (snd (start_hash_child env sv cc)) \<or> answer (snd (start_hash_child env sv cc)) = Some ''500'')
    \<or> start_hash_child env sv cc = (sv, cc\<lparr>cn_up_fd := None, cn_child := True, cn_state := CONN_HASHING,
        cn_last_ms := se_now_ms env, cn_interest := Want_Nothing\<rparr>)"
  using error_500 by (simp add: start_hash_child_def Let_def)

lemma created_file:
  assumes "sys_create env fs p = Inr (q, fs')" and "\<nexists>t m. map_of fs p = Some (Lnk t m)"
  shows "q = p \<and> (\<exists>m. map_of fs' p = Some (Reg [] m (ev_now (se_env env))))"
proof -
  have "namei fs p = Some p" by (rule namei_plain) (rule assms(2))
  then show ?thesis using assms(1) by (auto simp: sys_create_def fs_simps split: if_splits option.splits node.splits)
qed

lemma stage_upload_begins:
  assumes "idle cc" and "cn_up_received cc = 0" and "cn_up_expect cc = rq_content_length req" and len: "0 < rq_content_length req"
    and up: "no_up_links (sv_store sv)" and run: "stage_upload env req sv cc = (sv', cc')"
  shows "(\<not> cn_open cc' \<or> answer cc' = Some ''500'' \<or> upload_begun req sv' cc')
    \<and> (staging_works env \<and> staging_opens env sv \<longrightarrow> upload_begun req sv' cc' \<and> cn_interest cc' =
        (if int (length (rq_body req)) < rq_content_length req then cn_interest cc else Want_Nothing))"
proof -
  obtain p s where p: "store_tmp_path (se_env env) (sv_store sv) PATH_MAX = (p, s)" by fastforce
  have op: "cn_open cc" using assms(1) by (simp add: idle_def ready_def)
  show ?thesis
  proof (cases "\<exists>p0 q fs. p = Some p0 \<and> sys_create env (st_fs s) p0 = Inr (q, fs)")
    case False
    then obtain sv1 where "respond_error env 500 ''cannot stage upload'' sv1 cc = (sv', cc')"
      using run p by (cases p; cases "sys_create env (st_fs s) (the p)") (auto simp: stage_upload_def)
    moreover have "\<not> staging_opens env sv"
      using False p by (cases p; cases "sys_create env (st_fs s) (the p)") (auto simp: staging_opens_def)
    ultimately show ?thesis using error_500 [of env "''cannot stage upload''" sv1 cc] by simp
  next
    case True
    then obtain p0 q fs where p0: "p = Some p0" and c: "sys_create env (st_fs s) p0 = Inr (q, fs)" by blast
    have area: "up_area (st_root (sv_store sv)) p0" and fs: "st_fs s = st_fs (sv_store sv)"
      using tmp_path_up [OF p] p0 by simp_all
    have "\<nexists>t m. map_of (st_fs s) p0 = Some (Lnk t m)" using up area fs by (auto simp: no_up_links_def)
    then obtain m where q: "q = p0" and m: "map_of fs p0 = Some (Reg [] m (ev_now (se_env env)))"
      using created_file [OF c] by blast
    have p0n: "p0 \<noteq> []" using area by (rule up_not_empty)
    let ?sv = "set_fs (sv\<lparr>sv_store := s\<rparr>) fs" and ?c = "cc\<lparr>cn_up_path := p0, cn_up_fd := Some p0, cn_state := CONN_RECV_BODY\<rparr>"
    have body: "stage_bytes env fs p0 (rq_body req) = (k, AList.update p0 (Reg (take k (rq_body req)) m (ev_now (se_env env))) fs)"
      if "k = min (se_staged env (rq_body req)) (length (rq_body req))" for k
      using m that by (simp add: stage_bytes_def Let_def)
    show ?thesis
    proof (cases "rq_body req = []")
      case True
      have "(sv', cc') = (?sv, ?c)"
        using run True p p0 c q assms(2,3) len by (simp add: stage_upload_def Let_def)
      then show ?thesis
        using True op p0n m assms(2) len by (simp add: upload_begun_def staged_bytes_def set_fs_def)
    next
      case False
      let ?k = "min (se_staged env (rq_body req)) (length (rq_body req))"
      let ?fs = "AList.update p0 (Reg (take ?k (rq_body req)) m (ev_now (se_env env))) fs"
      let ?c2 = "?c\<lparr>cn_up_received := int (length (rq_body req))\<rparr>"
      have eq: "(sv', cc') = (if ?k \<noteq> length (rq_body req) then respond_error env 500 ''cannot stage upload'' (set_fs ?sv ?fs) ?c
          else if cn_up_received ?c2 \<ge> cn_up_expect ?c2 then start_hash_child env (set_fs ?sv ?fs) ?c2 else (set_fs ?sv ?fs, ?c2))"
        unfolding run [symmetric] stage_upload_def p p0 prod.case option.case c sum.case q body [OF refl] Let_def
        using False by simp
      have works: "?k = length (rq_body req)" if "staging_works env" using that by (simp add: staging_works_def)
      have st: "staged_bytes (set_fs ?sv ?fs) (c0\<lparr>cn_up_path := p0\<rparr>) = Some (rq_body req)" if "?k = length (rq_body req)" for c0
        using that by (simp add: staged_bytes_def set_fs_def fs_simps)
      show ?thesis
      proof (cases "?k = length (rq_body req)")
        case bad: False
        have "(sv', cc') = respond_error env 500 ''cannot stage upload'' (set_fs ?sv ?fs) ?c"
          by (rule trans [OF eq], rule if_P) (rule bad)
        then have "cc' = snd (respond_error env 500 ''cannot stage upload'' (set_fs ?sv ?fs) ?c)" by (metis snd_conv)
        moreover have "\<not> staging_works env" using bad works by blast
        ultimately show ?thesis using error_500 [of env "''cannot stage upload''" "set_fs ?sv ?fs" ?c] by metis
      next
        case k: True
        have sb: "staged_bytes (set_fs ?sv ?fs) c0 = Some (rq_body req)" if "cn_up_path c0 = p0" for c0
          using that k by (simp add: staged_bytes_def set_fs_def fs_simps)
        show ?thesis
        proof (cases "int (length (rq_body req)) < rq_content_length req")
          case True
          then have "(sv', cc') = (set_fs ?sv ?fs, ?c2)" using eq k assms(3) by simp
          then show ?thesis using True op p0n sb by (simp add: upload_begun_def)
        next
          case full: False
          then have h: "(sv', cc') = start_hash_child env (set_fs ?sv ?fs) ?c2" using eq k assms(3) by simp
          let ?c3 = "?c2\<lparr>cn_up_fd := None, cn_child := True, cn_state := CONN_HASHING,
              cn_last_ms := se_now_ms env, cn_interest := Want_Nothing\<rparr>"
          have ub: "upload_begun req (set_fs ?sv ?fs) ?c3 \<and> cn_interest ?c3 = Want_Nothing"
            using full op p0n sb by (simp add: upload_begun_def)
          have "cn_open ?c2" using op by simp
          from hash_child_begins [OF this, of env "set_fs ?sv ?fs"]
          have "(\<not> cn_open cc' \<or> answer cc' = Some ''500'') \<or> (sv', cc') = (set_fs ?sv ?fs, ?c3)"
            unfolding h [symmetric] snd_conv .
          moreover have "(sv', cc') = (set_fs ?sv ?fs, ?c3)" if "staging_works env"
            by (rule trans [OF h start_hash_works [OF that]])
          ultimately show ?thesis using ub full by (metis prod.inject)
        qed
      qed
    qed
  qed
qed

text \<open>
  C5. The gate of a push is exactly as documented: a body is staged only for a request with the push token,
  a valid name, a length between 1 byte and 16 GiB, a well-formed declared digest and, where the policy
  asks for one, a signature already published; everything else is answered 400, 401, 409, 411 or 413 (or
  disconnected) with the store untouched. Past the gate the connection is bound to that name, digest and
  length, and either the body that came with the request is in the staged file, byte for byte, and the
  connection goes on to receive the rest, or to hashing when nothing is missing, or a call has failed and
  the answer is 500 (or none); when the calls for staging succeed it is staged. No symbolic link may
  lie in the area of uploads, which no reachable store has.
\<close>

theorem push_gate_exact:
  assumes "cn_state cc = CONN_READ_REQUEST" and "idle cc" and "cn_up_path cc = []"
    and "begin_upload env req name sv cc = (sv', cc')"
  shows "if \<exists>digest. admitted env sv req name digest
    then (no_up_links (sv_store sv) \<longrightarrow>
        (\<not> cn_open cc' \<or> answer cc' = Some ''500'' \<or> upload_begun req sv' cc')
        \<and> (staging_works env \<and> staging_opens env sv \<longrightarrow> upload_begun req sv' cc'))
      \<and> answer cc' \<in> {None, Some ''500''}
      \<and> admitted env sv req (cn_up_name cc') (cn_up_digest cc') \<and> cn_up_name cc' = name
      \<and> cn_up_expect cc' = rq_content_length req
    else sv_store sv' = sv_store sv \<and> cn_up_path cc' = [] \<and> (\<not> cn_open cc' \<or> cn_state cc' = CONN_SEND_HEADER)
      \<and> answer cc' \<in> {None, Some ''400'', Some ''401'', Some ''409'', Some ''411'', Some ''413''}"
proof (cases "upload_gate env sv req name")
  case (Inl e)
  obtain k msg where e: "e = (k, msg)" by fastforce
  have k: "k \<in> {400, 401, 411, 413}"
    using Inl by (auto simp: upload_gate_def e split: if_splits option.splits)
  have run: "respond_error env k msg sv cc = (sv', cc')" using assms(4) by (simp add: begin_upload_def Inl e)
  have "length (int_dec k) = 3" "int_dec k \<in> {''400'', ''401'', ''411'', ''413''}" using k code_dec by auto
  then have "answer cc' \<in> {None, Some ''400'', Some ''401'', Some ''409'', Some ''411'', Some ''413''}"
    using error_answer [of k env msg sv cc] run by auto
  moreover have "\<nexists>digest. admitted env sv req name digest" using Inl gate_Inr [of env sv req name] by auto
  ultimately show ?thesis
    using error.respond_refused [OF untouched_fields(1) assms(2,3), of sv env k msg] run by (simp add: refused_def untouched_def)
next
  case (Inr digest)
  show ?thesis
  proof (cases "signature_gate env sv name")
    case (Inl sg)
    then obtain msg l t where run: "respond_error env 409 msg (server_log env l t sv) cc = (sv', cc')"
      using assms(4) by (simp add: begin_upload_def Inr)
    have "\<nexists>d. admitted env sv req name d" using Inl gate_Inr [of env sv req name] by auto
    moreover have "answer cc' \<in> {None, Some ''409''}"
      using error_answer [of 409 env msg "server_log env l t sv" cc] run by (simp add: code_dec)
    ultimately show ?thesis
      using error.respond_refused [OF _ assms(2,3), of sv "server_log env l t sv" env 409 msg] run
      by (auto simp: refused_def untouched_def)
  next
    case sig: (Inr u)
    then have a: "admitted env sv req name digest" using Inr gate_Inr [of env sv req name digest] by auto
    let ?c = "cc\<lparr>cn_up_digest := snprintf STORE_SHA256_MAX digest, cn_up_name := snprintf STORE_NAME_MAX name,
      cn_up_expect := rq_content_length req, cn_up_received := 0\<rparr>"
    have run: "stage_upload env req sv ?c = (sv', cc')" using assms(4) Inr sig by (simp add: begin_upload_def)
    have "answer cc' \<in> {None, Some ''500''}" using stage_upload_answer [of ?c env req sv] assms(1) run by simp
    moreover have "idle ?c" "0 < rq_content_length req" using assms(2) a by (simp_all add: admitted_def idle_def ready_def)
    then have "no_up_links (sv_store sv) \<longrightarrow> (\<not> cn_open cc' \<or> answer cc' = Some ''500'' \<or> upload_begun req sv' cc')
        \<and> (staging_works env \<and> staging_opens env sv \<longrightarrow> upload_begun req sv' cc')"
      using stage_upload_begins [OF _ _ _ _ _ run] by auto
    ultimately show ?thesis
      using stage_upload_keeps [of ?c env req sv] run a cut_fields [of name digest]
      by (auto simp: same_upload_def admitted_def)
  qed
qed

text \<open>A push of which the first byte comes with the headers.\<close>

definition push_request :: "bytes \<Rightarrow> http_request" where
  "push_request body =
     \<lparr>rq_method = ''PUT'', rq_path = ''/y-1.iso.minisig'', rq_content_length = 3, rq_body = body,
      rq_headers = ''PUT /y-1.iso.minisig HTTP/1.1'' @ [CR, LF] @ ''Authorization: Bearer secret'' @ [CR, LF]
        @ ''X-Cix-Sha256: '' @ digest_a @ [CR, LF]\<rparr>"

lemma push_admitted: "admitted careful_senv (upload_server []) (push_request ''a'') ''y-1.iso.minisig'' digest_a"
proof -
  have "upload_gate careful_senv (upload_server []) (push_request ''a'') ''y-1.iso.minisig'' = Inr digest_a" by code_simp
  moreover have "signature_gate careful_senv (upload_server []) ''y-1.iso.minisig'' = Inr ()" by code_simp
  ultimately show ?thesis using gate_Inr [of careful_senv "upload_server []" "push_request ''a''" "''y-1.iso.minisig''" digest_a] by blast
qed

lemma push_opens: "staging_opens careful_senv (upload_server [])"
  by code_simp

theorem push_gate_exact_witness:
  "upload_begun (push_request ''a'')
     (fst (begin_upload careful_senv (push_request ''a'') ''y-1.iso.minisig'' (upload_server []) sample_conn))
     (snd (begin_upload careful_senv (push_request ''a'') ''y-1.iso.minisig'' (upload_server []) sample_conn))
   \<and> sv_store (fst (begin_upload careful_senv (plain_request ''PUT'' ''/y-1.iso'') ''y-1.iso'' (upload_server []) sample_conn))
     = sv_store (upload_server [])"
proof
  let ?r = "plain_request ''PUT'' ''/y-1.iso''"
  have st: "cn_state sample_conn = CONN_READ_REQUEST" by (simp add: sample_conn_def conn_new_def)
  obtain sv' cc' where run: "begin_upload careful_senv ?r ''y-1.iso'' (upload_server []) sample_conn = (sv', cc')" by fastforce
  have "\<not> bearer_ok ?r ''secret''" by code_simp
  then have "\<nexists>digest. admitted careful_senv (upload_server []) ?r ''y-1.iso'' digest"
    by (simp add: admitted_def upload_server_def small_server_def sample_conf_def)
  then show "sv_store (fst (begin_upload careful_senv ?r ''y-1.iso'' (upload_server []) sample_conn)) = sv_store (upload_server [])"
    using push_gate_exact [OF st sample_idle run] run by simp
  obtain sv1 cc1 where run1: "begin_upload careful_senv (push_request ''a'') ''y-1.iso.minisig'' (upload_server []) sample_conn = (sv1, cc1)"
    by fastforce
  have "no_up_links (sv_store (upload_server []))" using upload_sound [of True] by (simp add: sound_def)
  moreover have "\<exists>d. admitted careful_senv (upload_server []) (push_request ''a'') ''y-1.iso.minisig'' d"
    using push_admitted by blast
  ultimately have "upload_begun (push_request ''a'') sv1 cc1"
    using push_gate_exact [OF st sample_idle run1] careful_stages push_opens by (simp only: if_True simp_thms)
  then show "upload_begun (push_request ''a'') (fst (begin_upload careful_senv (push_request ''a'') ''y-1.iso.minisig'' (upload_server []) sample_conn))
      (snd (begin_upload careful_senv (push_request ''a'') ''y-1.iso.minisig'' (upload_server []) sample_conn))"
    by (simp add: run1)
qed

text \<open>
  C8. The body is staged whole, however it arrives: a push that passes the gate, with the calls for staging
  succeeding, some of the body riding with the headers and the rest in any number of later read events,
  cut into reads in any way, leaves in the staged file exactly the bytes that came as far as the declared
  number goes; bytes of later reads beyond it are dropped, and the connection goes on to hashing exactly when
  the declared number is reached. The bytes that ride with the headers may not be more than declared: the
  code writes all of them, without cutting them at the declared length.
\<close>

theorem body_staged_whole:
  assumes "cn_state cc = CONN_READ_REQUEST" and "idle cc" and "cn_up_path cc = []" and "cn_interest cc = EPOLLIN"
    and "no_up_links (sv_store sv)" and "admitted env sv req name digest"
    and "staging_works env" and "staging_opens env sv"
    and "int (length (rq_body req)) \<le> rq_content_length req"
    and "\<forall>(env, cs) \<in> set es. staging_works env \<and> (\<forall>c \<in> set cs. c \<noteq> [] \<and> length c \<le> READ_BUF)"
    and "read_events bi es (begin_upload env req name sv cc) = (sv', cc')"
  defines "all \<equiv> rq_body req @ concat (concat (map snd es))"
  shows "staged_bytes sv' cc' = Some (take (nat (rq_content_length req)) all)
    \<and> cn_state cc' = (if int (length all) < rq_content_length req then CONN_RECV_BODY else CONN_HASHING)"
proof -
  let ?n = "rq_content_length req"
  let ?c = "cc\<lparr>cn_up_digest := snprintf STORE_SHA256_MAX digest, cn_up_name := snprintf STORE_NAME_MAX name,
      cn_up_expect := ?n, cn_up_received := 0\<rparr>"
  obtain sv1 cc1 where b: "begin_upload env req name sv cc = (sv1, cc1)" by fastforce
  have g: "upload_gate env sv req name = Inr digest" "signature_gate env sv name = Inr ()"
    using gate_Inr [of env sv req name digest] assms(6) by auto
  then have run: "stage_upload env req sv ?c = (sv1, cc1)" using b by (simp add: begin_upload_def)
  have c: "idle ?c" "0 < ?n" using assms(2,6) by (simp_all add: admitted_def idle_def ready_def)
  have u: "upload_begun req sv1 cc1" "cn_interest cc1 = (if int (length (rq_body req)) < ?n then EPOLLIN else Want_Nothing)"
    using stage_upload_begins [OF c(1) _ _ c(2) assms(5) run] assms(4,7,8) by simp_all
  have "cn_up_expect cc1 = ?n" using stage_upload_keeps [of ?c env req sv] run by (simp add: same_upload_def)
  then have "staged_of ?n (rq_body req) sv1 cc1"
    using u assms(9) by (auto simp: staged_of_def upload_begun_def uploading_def hashing_def split: if_splits)
  from events_stage [OF this assms(10)] assms(11) b
  have "staged_of ?n all sv' cc'" by (simp add: all_def)
  then show ?thesis by (auto simp: staged_of_def uploading_def hashing_def split: if_splits)
qed

theorem body_staged_whole_witness:
  "case read_events sample_build [(careful_senv, [''b'']), (careful_senv, [''cd'', ''e''])]
      (begin_upload careful_senv (push_request ''a'') ''y-1.iso.minisig'' (upload_server []) sample_conn) of
     (sv', cc') \<Rightarrow> staged_bytes sv' cc' = Some ''abc'' \<and> cn_state cc' = CONN_HASHING"
proof -
  let ?es = "[(careful_senv, [''b'']), (careful_senv, [''cd'', ''e''])]"
  obtain sv' cc' where run: "read_events sample_build ?es
      (begin_upload careful_senv (push_request ''a'') ''y-1.iso.minisig'' (upload_server []) sample_conn) = (sv', cc')" by fastforce
  have st: "cn_state sample_conn = CONN_READ_REQUEST" "cn_interest sample_conn = EPOLLIN" by (simp_all add: sample_conn_def conn_new_def)
  have up: "no_up_links (sv_store (upload_server []))" using upload_sound [of True] by (simp add: sound_def)
  have es: "\<forall>(env, cs) \<in> set ?es. staging_works env \<and> (\<forall>c \<in> set cs. c \<noteq> [] \<and> length c \<le> READ_BUF)"
    using careful_stages by (simp add: READ_BUF_def)
  have "int (length (rq_body (push_request ''a''))) \<le> rq_content_length (push_request ''a'')" by (simp add: push_request_def)
  from body_staged_whole [OF st(1) sample_idle st(2) up push_admitted careful_stages push_opens this es run]
  have "staged_bytes sv' cc' = Some ''abc'' \<and> cn_state cc' = CONN_HASHING" by (simp add: push_request_def)
  then show ?thesis unfolding run prod.case .
qed

end
