(* ===== verification/Server_Serving.thy ===== *)
theory Server_Serving
  imports Server_Uploads Http_Props
begin

text \<open>
  What a download sends: the response the server forms for an artifact, and the proof that a response,
  once formed, is sent whole when the client keeps reading.
\<close>

section \<open>Sending\<close>

text \<open>A connection on its way to sending what it promised, header and body.\<close>

definition promised :: "conn \<Rightarrow> bytes" where
  "promised cc = cn_hdr cc @ response_body cc"

lemma promised_fields [simp]:
  "promised (cc\<lparr>cn_hdr_off := n\<rparr>) = promised cc" "promised (cc\<lparr>cn_body_off := n\<rparr>) = promised cc"
  "promised (cc\<lparr>cn_out_off := n\<rparr>) = promised cc" "promised (cc\<lparr>cn_last_ms := t\<rparr>) = promised cc"
  "promised (cc\<lparr>cn_sent := b\<rparr>) = promised cc" "promised (cc\<lparr>cn_state := st\<rparr>) = promised cc"
  by (simp_all add: promised_def response_body_def cong: if_cong option.case_cong)

definition sending :: "conn \<Rightarrow> bool" where
  "sending cc \<longleftrightarrow> cn_open cc
     \<and> (cn_state cc = CONN_SEND_HEADER \<and> sending_header cc \<or> cn_state cc = CONN_SEND_BODY \<and> sending_body cc)"

lemma blob_promised:
  "sending_body cc \<Longrightarrow> cn_blob cc = Some nd \<Longrightarrow>
   promised cc = cn_hdr cc @ take (nat (cn_body_len cc)) (file_bytes (cn_blob cc)) \<and> cn_out cc = None
   \<and> cn_sent cc = cn_hdr cc @ take (cn_body_off cc) (file_bytes (cn_blob cc))"
  by (simp add: sending_body_def promised_def response_body_def)

lemma out_promised:
  "sending_body cc \<Longrightarrow> cn_blob cc = None \<Longrightarrow>
   \<exists>b. cn_out cc = Some b \<and> promised cc = cn_hdr cc @ b \<and> cn_sent cc = cn_hdr cc @ take (cn_out_off cc) b
     \<and> cn_out_off cc \<le> length b"
  by (auto simp: sending_body_def promised_def response_body_def split: option.splits)

lemma sent_all:
  assumes "sending cc" and "nothing_to_send cc"
  shows "cn_sent cc = promised cc"
proof -
  have st: "cn_state cc = CONN_SEND_BODY" "sending_body cc"
    using assms by (auto simp: sending_def nothing_to_send_def)
  show ?thesis
  proof (cases "cn_blob cc")
    case None
    then show ?thesis using st assms(2) out_promised [OF st(2)] by (auto simp: nothing_to_send_def)
  next
    case (Some nd)
    have "cn_body_len cc \<le> int (cn_body_off cc)" using st assms(2) Some by (auto simp: nothing_to_send_def)
    then have "nat (cn_body_len cc) = cn_body_off cc"
      using st(2) Some by (cases "cn_body_off cc") (auto simp: sending_body_def)
    then show ?thesis using blob_promised [OF st(2) Some] by simp
  qed
qed

text \<open>The promise of a step: it has sent more, or it has sent everything and closed.\<close>

definition advanced :: "conn \<Rightarrow> bool \<times> server \<times> conn \<Rightarrow> bool" where
  "advanced cc r \<longleftrightarrow>
     (if fst r then \<not> cn_open (snd (snd r)) \<and> cn_sent (snd (snd r)) = promised cc
      else sending (snd (snd r)) \<and> promised (snd (snd r)) = promised cc
        \<and> length (cn_sent cc) < length (cn_sent (snd (snd r))))"

lemma header_advanced:
  assumes "sending cc" and "cn_state cc = CONN_SEND_HEADER" and "0 < k"
  shows "advanced cc (sent_header env k sv cc)"
proof -
  have s: "sending_header cc" "cn_open cc" using assms(1,2) by (auto simp: sending_def)
  define n where "n = min k (length (header_rest cc))"
  define c1 where "c1 = cc\<lparr>cn_hdr_off := cn_hdr_off cc + n, cn_last_ms := se_now_ms env,
                   cn_sent := cn_sent cc @ take n (header_rest cc)\<rparr>"
  have n: "0 < n" "n \<le> length (header_rest cc)" using s(1) assms(3) by (auto simp: n_def header_rest_def sending_header_def)
  have sent: "cn_sent c1 = take (cn_hdr_off c1) (cn_hdr c1)"
    using s(1) by (simp add: c1_def sending_header_def header_rest_def take_add)
  have more: "length (cn_sent cc) < length (cn_sent c1)" using n by (simp add: c1_def)
  have p: "promised c1 = promised cc" by (simp add: c1_def)
  have pb: "promised (c1\<lparr>cn_state := CONN_SEND_BODY\<rparr>) = promised cc" using p by simp
  have f: "cn_open c1" "cn_state c1 = CONN_SEND_HEADER" "cn_body_off c1 = 0" "cn_out_off c1 = 0"
    "cn_blob c1 = None \<or> cn_out c1 = None"
    using s assms(2) by (simp_all add: c1_def sending_header_def)
  have eq: "sent_header env k sv cc =
      (if cn_hdr_off c1 < length (cn_hdr c1) then (False, sv, c1)
       else if cn_head_only c1 \<or> (cn_blob c1 = None \<and> cn_out c1 = None) then (True, conn_close env sv c1)
       else (False, sv, c1\<lparr>cn_state := CONN_SEND_BODY\<rparr>))"
    unfolding sent_header_def Let_def n_def [symmetric] c1_def [symmetric] ..
  have go: "advanced cc (False, sv, c1)" if "cn_hdr_off c1 < length (cn_hdr c1)"
    using that f sent p more by (simp add: advanced_def sending_def sending_header_def)
  have close: "advanced cc (True, conn_close env sv c1)"
    if "\<not> cn_hdr_off c1 < length (cn_hdr c1)" "cn_head_only c1 \<or> (cn_blob c1 = None \<and> cn_out c1 = None)"
  proof -
    have "response_body c1 = []" using that(2) by (auto simp: response_body_def)
    then have "cn_sent c1 = promised c1" using that(1) sent by (simp add: promised_def)
    then show ?thesis using f(1) p by (simp add: advanced_def conn_close_def)
  qed
  have body: "advanced cc (False, sv, c1\<lparr>cn_state := CONN_SEND_BODY\<rparr>)"
    if "\<not> cn_hdr_off c1 < length (cn_hdr c1)" "\<not> (cn_head_only c1 \<or> (cn_blob c1 = None \<and> cn_out c1 = None))"
    using that f sent pb more by (auto simp: advanced_def sending_def sending_body_def split: option.split)
  show ?thesis unfolding eq using go close body by simp
qed

lemma blob_advanced:
  assumes "sending cc" and "cn_state cc = CONN_SEND_BODY" and "cn_blob cc = Some nd" and "\<not> nothing_to_send cc" and "0 < k"
  shows "advanced cc (sent_blob env k sv cc)"
proof -
  have s: "sending_body cc" "cn_open cc" using assms(1,2) by (auto simp: sending_def)
  note bp = blob_promised [OF s(1) assms(3)]
  define n where "n = min k (length (blob_chunk cc))"
  define c1 where "c1 = cc\<lparr>cn_body_off := cn_body_off cc + n, cn_last_ms := se_now_ms env,
                         cn_sent := cn_sent cc @ take n (blob_chunk cc)\<rparr>"
  define s1 where "s1 = sv\<lparr>sv_served_bytes := sv_served_bytes sv + int n\<rparr>"
  let ?f = "file_bytes (cn_blob cc)"
  have off: "int (cn_body_off cc) < cn_body_len cc" using assms(2,3,4) by (simp add: nothing_to_send_def)
  have chunk: "take n (blob_chunk cc) = take n (drop (cn_body_off cc) ?f)"
    by (simp add: blob_chunk_def n_def min_def)
  have sent: "cn_sent c1 = cn_hdr c1 @ take (cn_body_off c1) ?f"
    using bp chunk by (simp add: c1_def take_add)
  have le: "int (cn_body_off c1) \<le> cn_body_len cc"
    using off by (auto simp: c1_def n_def blob_chunk_def)
  have p: "promised c1 = promised cc" by (simp add: c1_def)
  have f: "cn_open c1" "cn_state c1 = CONN_SEND_BODY" "cn_blob c1 = cn_blob cc" "cn_out c1 = None" "cn_hdr c1 = cn_hdr cc"
    "\<not> cn_head_only c1" "cn_body_len c1 = cn_body_len cc"
    using s assms(2) bp by (simp_all add: c1_def sending_body_def)
  have eq: "sent_blob env k sv cc =
      (if n = 0 then (True, conn_close env sv cc)
       else if int (cn_body_off c1) \<ge> cn_body_len c1 then (True, conn_close env s1 c1) else (False, s1, c1))"
    unfolding sent_blob_def Let_def n_def [symmetric] c1_def [symmetric] s1_def [symmetric] ..
  have short: "advanced cc (True, conn_close env sv cc)" if "n = 0"
  proof -
    have "length ?f \<le> cn_body_off cc" using that off assms(5) by (auto simp: n_def blob_chunk_def SENDFILE_CHUNK_def)
    then have "cn_sent cc = promised cc" using bp off by simp
    then show ?thesis using s(2) by (simp add: advanced_def conn_close_def)
  qed
  have all: "advanced cc (True, conn_close env s1 c1)" if "int (cn_body_off c1) \<ge> cn_body_len c1"
  proof -
    have "nat (cn_body_len cc) = cn_body_off c1" using that le f(7) by simp
    then have "cn_sent c1 = promised cc" using sent bp f(5) by simp
    then show ?thesis using f(1) by (simp add: advanced_def conn_close_def)
  qed
  have "n \<noteq> 0 \<Longrightarrow> length (cn_sent cc) < length (cn_sent c1)" by (simp add: c1_def n_def)
  then have go: "advanced cc (False, s1, c1)" if "n \<noteq> 0" "\<not> int (cn_body_off c1) \<ge> cn_body_len c1"
    using that f sent p le assms(3) by (simp add: advanced_def sending_def sending_body_def)
  show ?thesis unfolding eq using short all go by simp
qed

lemma out_advanced:
  assumes "sending cc" and "cn_state cc = CONN_SEND_BODY" and "cn_blob cc = None" and "0 < k"
  shows "advanced cc (sent_out env k sv cc)"
proof -
  have s: "sending_body cc" "cn_open cc" using assms(1,2) by (auto simp: sending_def)
  obtain b where b: "cn_out cc = Some b" "promised cc = cn_hdr cc @ b" "cn_sent cc = cn_hdr cc @ take (cn_out_off cc) b"
    "cn_out_off cc \<le> length b"
    using out_promised [OF s(1) assms(3)] by blast
  define n where "n = min k (length (out_rest cc))"
  define c1 where "c1 = cc\<lparr>cn_out_off := cn_out_off cc + n, cn_last_ms := se_now_ms env,
                   cn_sent := cn_sent cc @ take n (out_rest cc)\<rparr>"
  define s1 where "s1 = sv\<lparr>sv_served_bytes := sv_served_bytes sv + int n\<rparr>"
  have f: "cn_open c1" "cn_state c1 = CONN_SEND_BODY" "cn_blob c1 = None" "cn_out c1 = Some b" "cn_hdr c1 = cn_hdr cc"
    "\<not> cn_head_only c1"
    using s assms(2,3) b by (simp_all add: c1_def sending_body_def)
  have p: "promised c1 = promised cc" by (simp add: c1_def)
  have sent: "cn_sent c1 = cn_hdr c1 @ take (cn_out_off c1) b" using b by (simp add: c1_def out_rest_def take_add)
  have eq: "sent_out env k sv cc =
      (if cn_out_off c1 \<ge> (case cn_out c1 of None \<Rightarrow> 0 | Some b \<Rightarrow> length b)
       then (True, conn_close env s1 c1) else (False, s1, c1))"
    unfolding sent_out_def Let_def n_def [symmetric] c1_def [symmetric] s1_def [symmetric] ..
  have all: "advanced cc (True, conn_close env s1 c1)" if "length b \<le> cn_out_off c1"
    using that sent b(2) f(1,5) by (simp add: advanced_def conn_close_def)
  have "length (cn_sent cc) < length (cn_sent c1)" if "\<not> length b \<le> cn_out_off c1"
    using that assms(4) b by (auto simp: c1_def n_def out_rest_def)
  then have go: "advanced cc (False, s1, c1)" if "\<not> length b \<le> cn_out_off c1"
    using that f sent p by (simp add: advanced_def sending_def sending_body_def)
  show ?thesis unfolding eq f(4) option.case using all go by simp
qed

lemma step_advanced:
  assumes "sending cc" and "\<not> nothing_to_send cc" and "0 < k"
  shows "advanced cc (sent_bytes env k sv cc)"
proof (cases "cn_state cc = CONN_SEND_HEADER")
  case False
  then have "cn_state cc = CONN_SEND_BODY" using assms(1) by (auto simp: sending_def)
  then show ?thesis
    using blob_advanced [OF assms(1) _ _ assms(2,3)] out_advanced [OF assms(1) _ _ assms(3)]
    by (cases "cn_blob cc") (simp_all add: sent_bytes_def)
qed (simp add: sent_bytes_def header_advanced [OF assms(1) _ assms(3)])

text \<open>A client that keeps reading: every write takes something, unless it is interrupted.\<close>

fun progress :: "write_result \<Rightarrow> nat" where
  "progress (Wrote k) = min k 1"
| "progress _ = 0"

definition keeps_reading :: "write_result list \<Rightarrow> bool" where
  "keeps_reading ws \<longleftrightarrow> (\<forall>w \<in> set ws. w = Write_Intr \<or> (\<exists>k. w = Wrote (Suc k)))"

lemma sent_bound: "sending cc \<Longrightarrow> length (cn_sent cc) \<le> length (promised cc)"
  by (auto simp: sending_def sending_header_def promised_def sending_body_def response_body_def split: option.splits)


lemma write_delivers:
  assumes "sending cc" and "keeps_reading ws" and "length (promised cc) < length (cn_sent cc) + sum_list (map progress ws)"
    and "handle_write env ws sv cc = (sv', cc')"
  shows "\<not> cn_open cc' \<and> cn_sent cc' = promised cc"
  using assms
proof (induction ws arbitrary: sv cc)
  case Nil
  then show ?case using sent_bound [OF Nil.prems(1)] by simp
next
  case (Cons w ws)
  show ?case
  proof (cases "nothing_to_send cc")
    case True
    then have "(sv', cc') = conn_close env sv cc" using Cons.prems(4) by simp
    then show ?thesis using sent_all [OF Cons.prems(1) True] Cons.prems(1) by (simp add: conn_close_def sending_def)
  next
    case False
    have ws: "keeps_reading ws" using Cons.prems(2) by (simp add: keeps_reading_def)
    consider "w = Write_Intr" | k where "w = Wrote (Suc k)" using Cons.prems(2) by (auto simp: keeps_reading_def)
    then show ?thesis
    proof cases
      case 1
      then show ?thesis using Cons.IH [OF Cons.prems(1) ws] Cons.prems(3,4) False by simp
    next
      case (2 k)
      obtain fin sv1 cc1 where r: "sent_bytes env (Suc k) sv cc = (fin, sv1, cc1)" by (metis prod.exhaust)
      have a: "advanced cc (fin, sv1, cc1)" using step_advanced [OF Cons.prems(1) False, of "Suc k" env sv] r by simp
      show ?thesis
      proof (cases fin)
        case True
        then show ?thesis using a r Cons.prems(4) False by (auto simp: 2 advanced_def)
      next
        case go: False
        then have "handle_write env ws sv1 cc1 = (sv', cc')" using r Cons.prems(4) False by (simp add: 2)
        then show ?thesis using Cons.IH [of cc1 sv1, OF _ ws] a go Cons.prems(3) by (simp add: 2 advanced_def)
      qed
    qed
  qed
qed

text \<open>
  A client that may also pause: a write can find no room, which ends the event, and the next time
  the connection is writable the server goes on where it stopped.
\<close>

definition patient :: "write_result list \<Rightarrow> bool" where
  "patient ws \<longleftrightarrow> (\<forall>w \<in> set ws. w = Write_Intr \<or> w = Write_Again \<or> (\<exists>k. w = Wrote (Suc k)))"

text \<open>The bytes one event is sure to send: its writes up to the one that finds no room.\<close>

definition event_progress :: "write_result list \<Rightarrow> nat" where
  "event_progress ws = sum_list (map progress (takeWhile (\<lambda>w. w \<noteq> Write_Again) ws))"

lemma event_progress_simps [simp]:
  "event_progress [] = 0" "event_progress (Write_Again # ws) = 0" "event_progress (Write_Intr # ws) = event_progress ws"
  "event_progress (Wrote k # ws) = min k 1 + event_progress ws"
  by (simp_all add: event_progress_def)

lemma write_resumes:
  assumes "sending cc" and "patient ws" and "handle_write env ws sv cc = (sv', cc')"
  shows "\<not> cn_open cc' \<and> cn_sent cc' = promised cc
    \<or> sending cc' \<and> promised cc' = promised cc \<and> length (cn_sent cc) + event_progress ws \<le> length (cn_sent cc')"
  using assms
proof (induction ws arbitrary: sv cc)
  case Nil
  show ?case
  proof (cases "nothing_to_send cc")
    case True
    then have "(sv', cc') = conn_close env sv cc" using Nil.prems(3) by simp
    then show ?thesis using sent_all [OF Nil.prems(1) True] Nil.prems(1) by (simp add: conn_close_def sending_def)
  qed (use Nil.prems in simp)
next
  case (Cons w ws)
  have ws: "patient ws" and w: "w = Write_Intr \<or> w = Write_Again \<or> (\<exists>k. w = Wrote (Suc k))"
    using Cons.prems(2) by (auto simp: patient_def)
  show ?case
  proof (cases "nothing_to_send cc")
    case True
    then have "(sv', cc') = conn_close env sv cc" using Cons.prems(3) by simp
    then show ?thesis using sent_all [OF Cons.prems(1) True] Cons.prems(1) by (simp add: conn_close_def sending_def)
  next
    case False
    consider "w = Write_Intr" | "w = Write_Again" | k where "w = Wrote (Suc k)" using w by blast
    then show ?thesis
    proof cases
      case 1
      then show ?thesis using Cons.IH [OF Cons.prems(1) ws] Cons.prems(3) False by simp
    next
      case 2
      then show ?thesis using Cons.prems False by simp
    next
      case (3 k)
      obtain fin sv1 cc1 where r: "sent_bytes env (Suc k) sv cc = (fin, sv1, cc1)" by (metis prod.exhaust)
      have a: "advanced cc (fin, sv1, cc1)" using step_advanced [OF Cons.prems(1) False, of "Suc k" env sv] r by simp
      show ?thesis
      proof (cases fin)
        case True
        then show ?thesis using a r Cons.prems(3) False by (auto simp: 3 advanced_def)
      next
        case go: False
        then have run: "handle_write env ws sv1 cc1 = (sv', cc')" using r Cons.prems(3) False by (simp add: 3)
        have c1: "sending cc1" "promised cc1 = promised cc" "length (cn_sent cc) < length (cn_sent cc1)"
          using a go by (simp_all add: advanced_def)
        show ?thesis using Cons.IH [OF c1(1) ws run] c1(2,3) by (auto simp: 3)
      qed
    qed
  qed
qed

lemma write_interest:
  "cn_open (snd (handle_write env ws sv cc)) \<Longrightarrow> cn_interest (snd (handle_write env ws sv cc)) = cn_interest cc"
proof (induction ws arbitrary: sv cc)
  case Nil
  then show ?case by (auto simp: conn_close_def split: if_splits)
next
  case (Cons w ws)
  have closed: "\<not> cn_open (snd (conn_close env sv c))" if "cn_open c" for sv c using that by (simp add: conn_close_def)
  have sent: "cn_interest c1 = cn_interest cc" if "sent_bytes env k sv cc = (False, s1, c1)" for k s1 c1
    using that by (auto simp: sent_bytes_def sent_header_def sent_blob_def sent_out_def Let_def split: if_splits)
  have fin: "cn_open c1 \<longrightarrow> cn_interest c1 = cn_interest cc" if "sent_bytes env k sv cc = (True, s1, c1)" for k s1 c1
    using that
    by (auto simp: sent_bytes_def sent_header_def sent_blob_def sent_out_def Let_def conn_close_def split: if_splits)
  show ?case
    using Cons.prems Cons.IH sent fin
    by (cases w) (auto simp: conn_close_def split: if_splits prod.splits bool.splits)
qed

text \<open>
  The write events of one connection, in turns of the loop under environments of their own; before each
  of them the handlers of other connections may have changed the globals.
\<close>

fun write_events :: "build_info \<Rightarrow> (senv \<times> (server \<Rightarrow> server) \<times> write_result list) list \<Rightarrow> server \<times> conn \<Rightarrow> server \<times> conn" where
  "write_events bi [] r = r"
| "write_events bi ((env, others, ws) # es) r = write_events bi es (on_client env bi False [] ws (others (fst r)) (snd r))"

lemma closed_stays: "\<not> cn_open cc \<Longrightarrow> snd (write_events bi es (sv, cc)) = cc"
proof (induction es arbitrary: sv)
  case (Cons e es)
  then show ?case by (cases e) (simp add: on_client_def)
qed simp

lemma events_deliver:
  assumes "sending cc" and "cn_interest cc = EPOLLOUT" and "\<forall>(env, others, ws) \<in> set es. patient ws"
    and "write_events bi es (sv, cc) = (sv', cc')"
  shows "(cn_open cc' \<or> cn_sent cc' = promised cc) \<and> (\<exists>rest. promised cc = cn_sent cc' @ rest)
    \<and> (length (promised cc) < length (cn_sent cc) + (\<Sum>(env, others, ws) \<leftarrow> es. event_progress ws) \<longrightarrow> \<not> cn_open cc')"
  using assms
proof (induction es arbitrary: sv cc)
  case Nil
  have "\<exists>rest. promised cc = cn_sent cc @ rest"
    using Nil.prems(1) unfolding sending_def
  proof (elim conjE disjE)
    assume "sending_header cc"
    then show ?thesis
      by (auto simp: sending_header_def promised_def intro!: exI [of _ "drop (cn_hdr_off cc) (cn_hdr cc) @ response_body cc"])
  next
    assume b: "sending_body cc"
    show ?thesis
    proof (cases "cn_blob cc")
      case None
      then obtain x where "promised cc = cn_hdr cc @ x" "cn_sent cc = cn_hdr cc @ take (cn_out_off cc) x"
        using out_promised [OF b] by blast
      then show ?thesis by (intro exI [of _ "drop (cn_out_off cc) x"]) simp
    next
      case (Some nd)
      note p = blob_promised [OF b Some]
      have "cn_body_off cc \<le> nat (cn_body_len cc)" using b Some by (auto simp: sending_body_def)
      then have "take (nat (cn_body_len cc)) (file_bytes (cn_blob cc)) = take (cn_body_off cc) (file_bytes (cn_blob cc))
          @ drop (cn_body_off cc) (take (nat (cn_body_len cc)) (file_bytes (cn_blob cc)))"
        using append_take_drop_id [of "cn_body_off cc" "take (nat (cn_body_len cc)) (file_bytes (cn_blob cc))"]
        by (simp add: min_def)
      then show ?thesis using p by (metis append.assoc)
    qed
  qed
  then show ?case using Nil.prems(1,4) sent_bound [OF Nil.prems(1)] by (auto simp: sending_def)
next
  case (Cons e es)
  obtain env others ws where e: "e = (env, others, ws)" by (cases e)
  obtain sv1 cc1 where h: "handle_write env ws (others sv) cc = (sv1, cc1)" by fastforce
  have "cn_open cc" using Cons.prems(1) by (simp add: sending_def)
  then have run: "write_events bi es (sv1, cc1) = (sv', cc')"
    using Cons.prems(2,4) h by (simp add: e on_client_def)
  have p: "patient ws" "\<forall>(env, others, ws) \<in> set es. patient ws" using Cons.prems(3) by (simp_all add: e)
  from write_resumes [OF Cons.prems(1) p(1) h] show ?case
  proof (elim disjE conjE)
    assume c: "\<not> cn_open cc1" "cn_sent cc1 = promised cc"
    then have "cc' = cc1" using closed_stays [OF c(1), of bi es sv1] run by simp
    then show ?thesis using c by simp
  next
    assume c: "sending cc1" "promised cc1 = promised cc" "length (cn_sent cc) + event_progress ws \<le> length (cn_sent cc1)"
    have "cn_interest cc1 = EPOLLOUT"
      using write_interest [of env ws "others sv" cc] h c(1) Cons.prems(2) by (simp add: sending_def)
    from Cons.IH [OF c(1) this p(2) run] c(2,3) show ?thesis by (auto simp: e)
  qed
qed


definition sending_conn :: conn where
  "sending_conn = sample_conn\<lparr>cn_state := CONN_SEND_HEADER, cn_interest := EPOLLOUT, cn_hdr := ''ab'', cn_out := Some ''c''\<rparr>"

definition sample_events :: "(senv \<times> (server \<Rightarrow> server) \<times> write_result list) list" where
  "sample_events = [(careful_senv, id, [Wrote 1, Write_Again]), (careful_senv, id, [Write_Again]),
     (careful_senv, id, [Write_Intr, Wrote 5, Wrote 1]), (careful_senv, id, [Wrote 1])]"


section \<open>Downloads\<close>

lemma open_blob:
  assumes inv: "store_inv sha care s" and run: "store_open env s name n = Inr (fd, sz, d, served)"
  obtains b m t where "store_resolve_as env s name STORE_SHA256_MAX n = Inr (d, served)"
    "map_of (st_fs s) fd = Some (Reg b m t)" "blob_bytes s d = Some b" "sha b = d" "sz = int (length b)"
proof -
  let ?p = "blob_at (st_root s) d"
  have r: "store_resolve_as env s name STORE_SHA256_MAX n = Inr (d, served)"
    using run by (auto simp: store_open_def split: sum.splits option.splits bool.splits)
  obtain k where k: "entry_digest s k = Some d" using resolve_as_entry [OF r] by blast
  have v: "store_digest_is_valid d" by (rule entry_digest_valid [OF k])
  have p: "blob_path (st_root s) d = Some ?p" by (rule wf_blob_path [OF inv_wf [OF inv] v])
  have "map_of (st_fs s) ?p \<noteq> None"
  proof
    assume n: "map_of (st_fs s) ?p = None"
    then have "namei (st_fs s) ?p = Some ?p" by (intro namei_plain) simp
    then show False using run r p n by (simp add: store_open_def sys_open_def split: if_splits)
  qed
  then obtain b where b: "blob_bytes s d = Some b" "sha b = d"
    using inv v unfolding store_inv_def by (elim conjE allE [of _ d]) auto
  then obtain m t where node: "map_of (st_fs s) ?p = Some (Reg b m t)"
    unfolding blob_bytes_def by (cases "map_of (st_fs s) ?p" rule: reg_bytes.cases) auto
  have "namei (st_fs s) ?p = Some ?p" using node by (intro namei_plain) simp
  then have "fd = ?p \<and> sz = int (length b)"
    using run r p node
    by (cases "ev_fails env SYS_open ?p"; cases "ev_fails env SYS_fstat ?p")
      (simp_all add: store_open_def sys_open_def node_size_def)
  then show thesis using that r node b by blast
qed


text \<open>The head of a download, without the blank line that ends it.\<close>

definition download_head :: "string \<Rightarrow> int \<Rightarrow> string \<Rightarrow> string" where
  "download_head ct n d = ''HTTP/1.1 200 OK'' @ field_lines
     [(''Content-Type'', '' '' @ ct), (''Content-Length'', '' '' @ int_dec n), (''Connection'', '' close''),
      (''X-Cix-Sha256'', '' '' @ d)]"

lemma head_format:
  "http_format_header HDR_MAX 200 (http_status_text 200) ct n (''X-Cix-Sha256: '' @ d @ [CR, LF]) =
     (if snprintf_fits HDR_MAX (download_head ct n d @ [CR, LF, CR, LF])
      then Some (download_head ct n d @ [CR, LF, CR, LF]) else None)"
proof -
  have "int_dec 200 = ''200''" by code_simp
  then show ?thesis
    by (simp add: http_format_header_def http_status_text_def download_head_def field_lines_def field_line_def)
qed

lemma trim_plain: "(\<And>c. c \<in> set x \<Longrightarrow> \<not> is_blank c) \<Longrightarrow> trim_blanks ('' '' @ x) = x"
proof -
  assume n: "\<And>c. c \<in> set x \<Longrightarrow> \<not> is_blank c"
  have "dropWhile is_blank y = y" if "set y \<subseteq> set x" for y using n that by (cases y) auto
  from this [of x] this [of "rev x"] show ?thesis by (simp add: trim_blanks_def is_blank_def)
qed

lemma dec_chars: "c \<in> set (int_dec i) \<Longrightarrow> c_isdigit c \<or> c = CHR ''-''"
proof -
  have "c \<in> set (nat_dec n) \<Longrightarrow> c_isdigit c" for n
    using nat_dec_all_digits(1) [of n] by (simp add: list_all_iff)
  then show "c \<in> set (int_dec i) \<Longrightarrow> c_isdigit c \<or> c = CHR ''-''" by (auto simp: int_dec_def split: if_splits)
qed

lemma type_chars: "CR \<notin> set (artifact_content_type n)"
  by (simp add: artifact_content_type_def split: option.split)

lemma head_reads:
  assumes "store_digest_is_valid d" and head: "head = download_head (artifact_content_type n) i d"
  shows "http_find_header head ''X-Cix-Sha256'' STORE_SHA256_MAX = Some d"
    and "length (int_dec i) < 32 \<Longrightarrow> http_find_header head ''Content-Length'' 32 = Some (int_dec i)"
proof -
  have hex: "\<not> is_blank c" "c \<noteq> CR" if "c \<in> set d" for c
    using assms(1) that by (auto simp: store_digest_is_valid_iff list_all_iff hex_lower_def c_isdigit_def byte_def is_blank_def)
  have dec: "\<not> is_blank c" "c \<noteq> CR" if "c \<in> set (int_dec i)" for c
    using dec_chars [OF that] by (auto simp: c_isdigit_def byte_def is_blank_def)
  let ?fs = "[(''Content-Type'', '' '' @ artifact_content_type n), (''Content-Length'', '' '' @ int_dec i),
    (''Connection'', '' close''), (''X-Cix-Sha256'', '' '' @ d)]"
  have ok: "list_all field_ok ?fs" using hex(2) dec(2) type_chars by (auto simp: field_ok_def)
  have line: "CR \<notin> set ''HTTP/1.1 200 OK''" by simp
  note find = find_header_fields [OF line ok, folded download_head_def, folded head]
  have t: "trim_blanks ('' '' @ d) = d" "trim_blanks ('' '' @ int_dec i) = int_dec i"
    using trim_plain hex(1) dec(1) by blast+
  have l: "lower ''Content-Type'' = ''content-type''" "lower ''Content-Length'' = ''content-length''"
    "lower ''Connection'' = ''connection''" "lower ''X-Cix-Sha256'' = ''x-cix-sha256''"
    by code_simp+
  have "length d < STORE_SHA256_MAX"
    using assms(1) by (simp add: store_digest_is_valid_iff STORE_SHA256_MAX_def STORE_SHA256_HEX_LEN_def)
  then show "http_find_header head ''X-Cix-Sha256'' STORE_SHA256_MAX = Some d"
    using t(1) by (simp add: find field_value_def l fitting_def)
  show "length (int_dec i) < 32 \<Longrightarrow> http_find_header head ''Content-Length'' 32 = Some (int_dec i)"
    using t(2) by (simp add: find field_value_def l fitting_def)
qed


lemma extra_fits:
  assumes "store_digest_is_valid d"
  shows "snprintf (STORE_SHA256_MAX + 32) (''X-Cix-Sha256: '' @ d @ [CR, LF]) = ''X-Cix-Sha256: '' @ d @ [CR, LF]"
  using assms by (simp add: snprintf_def store_digest_is_valid_iff STORE_SHA256_MAX_def STORE_SHA256_HEX_LEN_def)

lemma note_alias_keeps:
  assumes "note_alias env name served sv cc = (sv', cc')"
  shows "sv_store sv' = sv_store sv \<and> (\<exists>x. cc' = cc\<lparr>cn_note := x\<rparr>)"
  using assms by (auto simp: note_alias_def split: if_splits)

text \<open>The connection of a download that is answered 200.\<close>

lemma serve_found:
  assumes "sound sha care sv" and "idle cc" and "bearer_ok req (cf_pull_token (sv_conf sv))"
    and op: "store_open (se_env env) (sv_store sv) name STORE_NAME_MAX = Inr (fd, sz, d, served)"
    and run: "serve_artifact env req name head_only sv cc = (sv', cc')"
  defines "head \<equiv> download_head (artifact_content_type served) sz d"
  obtains b where "store_resolve_as (se_env env) (sv_store sv) name STORE_SHA256_MAX STORE_NAME_MAX = Inr (d, served)"
    and "blob_bytes (sv_store sv) d = Some b" and "sha b = d" and "sz = int (length b)"
    and "if snprintf_fits HDR_MAX (head @ [CR, LF, CR, LF])
      then answer cc' = Some ''200'' \<and> cn_hdr cc' = head @ [CR, LF, CR, LF]
        \<and> response_body cc' = (if head_only then [] else b) \<and> sending cc'
      else \<not> cn_open cc'"
proof -
  have inv: "store_inv sha care (sv_store sv)" using assms(1) by (simp add: sound_def)
  obtain b m t where o: "store_resolve_as (se_env env) (sv_store sv) name STORE_SHA256_MAX STORE_NAME_MAX = Inr (d, served)"
    and reg: "map_of (st_fs (sv_store sv)) fd = Some (Reg b m t)" and b: "blob_bytes (sv_store sv) d = Some b"
    "sha b = d" "sz = int (length b)"
    by (rule open_blob [OF inv op])
  have dv: "store_digest_is_valid d" using resolve_as_entry [OF o] entry_digest_valid by blast
  obtain sv2 cc2 where n: "note_alias env name served (sv\<lparr>sv_artifact_hits := sv_artifact_hits sv + 1\<rparr>) cc = (sv2, cc2)"
    by fastforce
  then obtain x where cc2: "cc2 = cc\<lparr>cn_note := x\<rparr>" using note_alias_keeps by blast
  let ?c = "cc2\<lparr>cn_head_only := head_only\<rparr>"
  let ?c3 = "if head_only then ?c else ?c\<lparr>cn_blob := map_of (st_fs (sv_store sv)) fd, cn_body_off := 0, cn_body_len := sz\<rparr>"
  have run': "begin_response env 200 (artifact_content_type served) (''X-Cix-Sha256: '' @ d @ [CR, LF]) sz sv2 ?c3 = (sv', cc')"
    using run assms(3) n unfolding serve_artifact_def Let_def op sum.case prod.case extra_fits [OF dv]
    by (cases head_only) simp_all
  have fmt: "http_format_header HDR_MAX 200 (http_status_text 200) (artifact_content_type served) sz (''X-Cix-Sha256: '' @ d @ [CR, LF]) =
      (if snprintf_fits HDR_MAX (head @ [CR, LF, CR, LF]) then Some (head @ [CR, LF, CR, LF]) else None)"
    using head_format [of "artifact_content_type served" sz d] by (simp add: head_def)
  have "take 3 (drop 9 head) = ''200''" by (simp add: head_def download_head_def)
  then have code: "take 3 (drop 9 (head @ [CR, LF, CR, LF])) = ''200''" by (simp add: head_def download_head_def)
  have i: "cn_open cc" "cn_sent cc = []" "cn_body_off cc = 0" "cn_out_off cc = 0" "cn_blob cc = None" "cn_out cc = None"
    using assms(2) by (auto simp: idle_def ready_def)
  have fin: "if snprintf_fits HDR_MAX (head @ [CR, LF, CR, LF])
      then answer cc' = Some ''200'' \<and> cn_hdr cc' = head @ [CR, LF, CR, LF]
        \<and> response_body cc' = (if head_only then [] else b) \<and> sending cc'
      else \<not> cn_open cc'"
  proof (cases "snprintf_fits HDR_MAX (head @ [CR, LF, CR, LF])")
    case True
    then have c': "cc' = ?c3\<lparr>cn_hdr := head @ [CR, LF, CR, LF], cn_hdr_off := 0, cn_state := CONN_SEND_HEADER,
        cn_last_ms := se_now_ms env, cn_interest := EPOLLOUT\<rparr>"
      using run' fmt by (simp add: begin_response_def)
    then have f: "cn_open cc'" "cn_state cc' = CONN_SEND_HEADER" "cn_hdr cc' = head @ [CR, LF, CR, LF]" "cn_hdr_off cc' = 0"
      "cn_sent cc' = []" "cn_body_off cc' = 0" "cn_out_off cc' = 0" "cn_out cc' = None" "cn_head_only cc' = head_only"
      "cn_blob cc' = (if head_only then None else Some (Reg b m t))" "\<not> head_only \<Longrightarrow> cn_body_len cc' = int (length b)"
      using i reg b(3) by (simp_all add: c' cc2)
    have "response_body cc' = (if head_only then [] else b)" using f by (simp add: response_body_def file_bytes_def)
    then show ?thesis using True f code by (simp add: answer_def sending_def sending_header_def)
  next
    case False
    then have "(sv', cc') = conn_close env sv2 ?c3" using run' fmt by (simp add: begin_response_def)
    then show ?thesis using False by (simp add: conn_close_def split: if_splits)
  qed
  show thesis by (rule that [OF o b fin])
qed

lemma length_size: "i \<le> LONG_MAX \<Longrightarrow> length (int_dec i) < 32 \<or> i < 0"
proof -
  assume "i \<le> LONG_MAX"
  then have "nat i < 10 ^ 19" by (simp add: LONG_MAX_def)
  then have "length (nat_dec (nat i)) \<le> 19" by (rule length_nat_dec) simp
  then show ?thesis by (simp add: int_dec_def)
qed

lemma head_fits:
  assumes "store_digest_is_valid d" and "0 \<le> i" and "i \<le> LONG_MAX"
  shows "snprintf_fits HDR_MAX (download_head (artifact_content_type n) i d @ [CR, LF, CR, LF])"
proof -
  have "length (artifact_content_type n) < 32" by (simp add: artifact_content_type_def split: option.split)
  moreover have "length d = 64" using assms(1) by (simp add: store_digest_is_valid_iff STORE_SHA256_HEX_LEN_def)
  moreover have "length (int_dec i) < 32" using length_size [OF assms(3)] assms(2) by simp
  ultimately show ?thesis
    by (simp add: snprintf_fits_def download_head_def field_lines_def field_line_def HDR_MAX_def)
qed

text \<open>The status of a request for an artifact that is not served.\<close>

definition miss_code :: "store_error \<Rightarrow> string" where
  "miss_code e = (if e = STORE_ERR_AMBIGUOUS then ''409'' else if e = STORE_ERR_INVALID_NAME then ''400'' else ''404'')"

lemma pull_codes: "int_dec 401 = ''401''" "int_dec 404 = ''404''" "int_dec 409 = ''409''" "int_dec 400 = ''400''"
  by code_simp+

lemma serve_missed:
  assumes "bearer_ok req (cf_pull_token (sv_conf sv))"
    and "store_open (se_env env) (sv_store sv) name STORE_NAME_MAX = Inl e"
  obtains sv1 x where "serve_artifact env req name head_only sv cc =
    respond_error env (if e = STORE_ERR_AMBIGUOUS then 409 else if e = STORE_ERR_INVALID_NAME then 400 else 404)
      (store_error_str e) sv1 (cc\<lparr>cn_note := x\<rparr>)"
proof (cases "e = STORE_ERR_AMBIGUOUS")
  case True
  then show thesis using assms that by (simp add: serve_artifact_def)
next
  case False
  then show thesis using assms that by (simp add: serve_artifact_def)
qed

lemma serve_refused:
  assumes "serve_artifact env req name head_only sv cc = (sv', cc')"
  shows "\<not> bearer_ok req (cf_pull_token (sv_conf sv)) \<Longrightarrow> answer cc' \<in> {None, Some ''401''}"
    and "bearer_ok req (cf_pull_token (sv_conf sv)) \<Longrightarrow>
      store_open (se_env env) (sv_store sv) name STORE_NAME_MAX = Inl e \<Longrightarrow> answer cc' \<in> {None, Some (miss_code e)}"
proof -
  have code: "answer (snd (respond_error env k msg sv1 c1)) \<in> {None, Some (int_dec k)}" if "k \<in> {400, 401, 404, 409}" for k msg sv1 c1
    using that pull_codes by (intro error_answer) auto
  show "answer cc' \<in> {None, Some ''401''}" if "\<not> bearer_ok req (cf_pull_token (sv_conf sv))"
    using that assms code [of 401 "''authentication required''" sv cc] by (simp add: serve_artifact_def pull_codes)
  assume b: "bearer_ok req (cf_pull_token (sv_conf sv))"
    and e: "store_open (se_env env) (sv_store sv) name STORE_NAME_MAX = Inl e"
  let ?k = "if e = STORE_ERR_AMBIGUOUS then 409 else if e = STORE_ERR_INVALID_NAME then 400 else 404 :: int"
  obtain sv1 c1 where "respond_error env ?k (store_error_str e) sv1 c1 = (sv', cc')"
    using serve_missed [OF b e] assms by metis
  then have "cc' = snd (respond_error env ?k (store_error_str e) sv1 c1)" by simp
  moreover have "int_dec ?k = miss_code e" by (simp add: miss_code_def pull_codes)
  ultimately show "answer cc' \<in> {None, Some (miss_code e)}" using code [of ?k "store_error_str e" sv1 c1] by (auto split: if_splits)
qed

text \<open>
  C3. A download is authentic and complete: when the server answers a \<^verbatim>\<open>GET\<close> of an artifact with 200 and the
  client keeps reading, the client receives a head followed by a body, the head's \<^verbatim>\<open>X-Cix-Sha256\<close> is
  the digest the name resolves to, its \<^verbatim>\<open>Content-Length\<close> is the length of the body, and the body is
  the blob published under that digest and hashes to it; then the connection is closed.
\<close>

theorem download_authentic:
  assumes "sound sha care sv" and "idle cc" and "serve_artifact env req name False sv cc = (sv', cc')"
    and "answer cc' = Some ''200''" and "keeps_reading ws"
    and "length (cn_hdr cc' @ response_body cc') < sum_list (map progress ws)"
    and "handle_write env' ws sv' cc' = (sv'', cc'')"
  shows "\<exists>head body d served.
      cn_sent cc'' = head @ [CR, LF, CR, LF] @ body \<and> \<not> cn_open cc''
    \<and> store_resolve_as (se_env env) (sv_store sv) name STORE_SHA256_MAX STORE_NAME_MAX = Inr (d, served)
    \<and> http_find_header head ''X-Cix-Sha256'' STORE_SHA256_MAX = Some d
    \<and> (int (length body) \<le> LONG_MAX \<longrightarrow>
         http_find_header head ''Content-Length'' 32 = Some (int_dec (int (length body))))
    \<and> blob_bytes (sv_store sv) d = Some body \<and> sha body = d"
proof -
  have b: "bearer_ok req (cf_pull_token (sv_conf sv))" using serve_refused(1) [OF assms(3)] assms(4) by auto
  obtain fd sz d served where op: "store_open (se_env env) (sv_store sv) name STORE_NAME_MAX = Inr (fd, sz, d, served)"
    using serve_refused(2) [OF assms(3) b] assms(4)
    by (cases "store_open (se_env env) (sv_store sv) name STORE_NAME_MAX") (auto simp: miss_code_def split: if_splits)
  let ?head = "download_head (artifact_content_type served) sz d"
  obtain body where r: "store_resolve_as (se_env env) (sv_store sv) name STORE_SHA256_MAX STORE_NAME_MAX = Inr (d, served)"
    "blob_bytes (sv_store sv) d = Some body" "sha body = d" "sz = int (length body)"
    and cs: "if snprintf_fits HDR_MAX (?head @ [CR, LF, CR, LF])
      then answer cc' = Some ''200'' \<and> cn_hdr cc' = ?head @ [CR, LF, CR, LF]
        \<and> response_body cc' = (if False then [] else body) \<and> sending cc'
      else \<not> cn_open cc'"
    by (rule serve_found [OF assms(1,2) b op assms(3)])
  have c: "cn_hdr cc' = ?head @ [CR, LF, CR, LF]" "response_body cc' = body" "sending cc'"
    using cs assms(4) by (auto simp: answer_def split: if_splits)
  have "\<not> cn_open cc'' \<and> cn_sent cc'' = promised cc'"
    using write_delivers [OF c(3) assms(5) _ assms(7)] assms(6) by (simp add: promised_def)
  then have s: "\<not> cn_open cc''" "cn_sent cc'' = ?head @ [CR, LF, CR, LF] @ body" by (simp_all add: promised_def c)
  have dv: "store_digest_is_valid d" using resolve_as_entry [OF r(1)] entry_digest_valid by blast
  have len: "length (int_dec (int (length body))) < 32" if "int (length body) \<le> LONG_MAX"
    using length_size [OF that] by simp
  show ?thesis
    using r s head_reads [OF dv refl, where n = served and i = sz] len
    by (intro exI [of _ ?head] exI [of _ body] exI [of _ d] exI [of _ served]) simp
qed

definition pull_server :: server where
  "pull_server = small_server published_store"

definition pull_request :: http_request where
  "pull_request = plain_request ''GET'' ''/z-1.iso''"

lemma pull_sound: "sound flat_hash care pull_server"
  by (rule reachable_sound) (simp add: pull_server_def small_server_def published_reachable)

theorem download_authentic_witness:
  "\<exists>head body. cn_sent (snd (case serve_artifact careful_senv pull_request ''z-1.iso'' False pull_server sample_conn of
       (sv', cc') \<Rightarrow> handle_write careful_senv (replicate 300 (Wrote 1)) sv' cc')) = head @ [CR, LF, CR, LF] @ body
     \<and> http_find_header head ''X-Cix-Sha256'' STORE_SHA256_MAX = Some digest_a"
proof -
  let ?r = "serve_artifact careful_senv pull_request ''z-1.iso'' False pull_server sample_conn"
  let ?ws = "replicate 300 (Wrote 1)"
  obtain sv' cc' where run: "?r = (sv', cc')" by fastforce
  obtain sv'' cc'' where send: "handle_write careful_senv ?ws sv' cc' = (sv'', cc'')" by fastforce
  have "answer (snd ?r) = Some ''200''" by code_simp
  then have a: "answer cc' = Some ''200''" by (simp add: run)
  have "length (cn_hdr (snd ?r) @ response_body (snd ?r)) < 300" by code_simp
  then have l: "length (cn_hdr cc' @ response_body cc') < sum_list (map progress ?ws)"
    by (simp add: run sum_list_replicate)
  have ws: "keeps_reading ?ws" by (simp add: keeps_reading_def)
  obtain head body d served where d: "cn_sent cc'' = head @ [CR, LF, CR, LF] @ body"
    "store_resolve_as (se_env careful_senv) (sv_store pull_server) ''z-1.iso'' STORE_SHA256_MAX STORE_NAME_MAX = Inr (d, served)"
    "http_find_header head ''X-Cix-Sha256'' STORE_SHA256_MAX = Some d" "flat_hash body = d"
    using download_authentic [OF pull_sound sample_idle(1) run a ws l send] by blast
  then have "d = digest_a" by (simp add: flat_hash_def)
  then have "cn_sent (snd (case ?r of (sv', cc') \<Rightarrow> handle_write careful_senv ?ws sv' cc')) = head @ [CR, LF, CR, LF] @ body
      \<and> http_find_header head ''X-Cix-Sha256'' STORE_SHA256_MAX = Some digest_a"
    unfolding run prod.case send snd_conv using d by simp
  then show ?thesis by blast
qed

text \<open>
  C13. Every pull has its status: with the memory for a response there and sizes that fit a C integer,
  a request for an artifact is answered 401 without the pull token, 409 when the name is in doubt, 400 when it is
  no name, 404 when nothing is published under it or its blob cannot be opened, and 200 otherwise.
\<close>

theorem pull_status_exact:
  assumes "sound sha care sv" and "idle cc" and "\<And>n. \<not> ev_nomem (se_env env) n" and "sizes_fit (se_env env) (st_fs (sv_store sv))"
    and "serve_artifact env req name head_only sv cc = (sv', cc')"
  shows "answer cc' = Some
    (if \<not> bearer_ok req (cf_pull_token (sv_conf sv)) then ''401''
     else case store_open (se_env env) (sv_store sv) name STORE_NAME_MAX of Inl e \<Rightarrow> miss_code e | Inr _ \<Rightarrow> ''200'')"
proof -
  have err: "answer cc' = Some (int_dec k)"
    if h: "respond_error env k msg sv1 c1 = (sv', cc')" "length (int_dec k) = 3" "cn_open c1"
      "http_format_header HDR_MAX k (http_status_text k) ''application/json'' (int (length (jw_buf (error_json msg)))) [] \<noteq> None"
    for k msg sv1 c1
  proof -
    obtain hdr where "http_format_header HDR_MAX k (http_status_text k) ''application/json'' (int (length (jw_buf (error_json msg)))) [] = Some hdr"
      using h(4) by blast
    then show ?thesis
      using h(1-3) assms(3) header_code [of HDR_MAX k]
      by (auto simp: respond_error_def respond_buffer_def begin_response_def Let_def answer_def)
  qed
  have o: "cn_open cc" using assms(2) by (simp add: idle_def ready_def)
  show ?thesis
  proof (cases "bearer_ok req (cf_pull_token (sv_conf sv))")
    case False
    have "http_format_header HDR_MAX 401 (http_status_text 401) ''application/json''
        (int (length (jw_buf (error_json ''authentication required'')))) [] \<noteq> None" by code_simp
    then show ?thesis
      using err [of 401 "''authentication required''" sv cc] False assms(5) o by (simp add: serve_artifact_def pull_codes)
  next
    case b: True
    show ?thesis
    proof (cases "store_open (se_env env) (sv_store sv) name STORE_NAME_MAX")
      case (Inl e)
      let ?k = "if e = STORE_ERR_AMBIGUOUS then 409 else if e = STORE_ERR_INVALID_NAME then 400 else 404 :: int"
      obtain sv1 x where "respond_error env ?k (store_error_str e) sv1 (cc\<lparr>cn_note := x\<rparr>) = (sv', cc')"
        using serve_missed [OF b Inl] assms(5) by metis
      moreover have "http_format_header HDR_MAX ?k (http_status_text ?k) ''application/json''
          (int (length (jw_buf (error_json (store_error_str e))))) [] \<noteq> None"
        by (cases e; simp only: store_error.simps if_True if_False; code_simp)
      moreover have "int_dec ?k = miss_code e" by (simp add: miss_code_def pull_codes)
      ultimately show ?thesis using err [of ?k "store_error_str e" sv1 "cc\<lparr>cn_note := x\<rparr>"] Inl b o by (simp add: miss_code_def)
    next
      case (Inr r)
      obtain fd sz d served where op: "store_open (se_env env) (sv_store sv) name STORE_NAME_MAX = Inr (fd, sz, d, served)"
        using Inr by (cases r) auto
      let ?head = "download_head (artifact_content_type served) sz d"
      obtain body where r: "store_resolve_as (se_env env) (sv_store sv) name STORE_SHA256_MAX STORE_NAME_MAX = Inr (d, served)"
        "blob_bytes (sv_store sv) d = Some body" "sha body = d" "sz = int (length body)"
        and cs: "if snprintf_fits HDR_MAX (?head @ [CR, LF, CR, LF])
          then answer cc' = Some ''200'' \<and> cn_hdr cc' = ?head @ [CR, LF, CR, LF]
            \<and> response_body cc' = (if head_only then [] else body) \<and> sending cc'
          else \<not> cn_open cc'"
        by (rule serve_found [OF assms(1,2) b op assms(5)])
      have "store_digest_is_valid d" using resolve_as_entry [OF r(1)] entry_digest_valid by blast
      moreover have "sz \<le> LONG_MAX"
        using r(2,4) assms(4) by (auto simp: blob_bytes_def sizes_fit_def list_all_iff node_size_def dest!: map_of_SomeD elim!: reg_bytes.elims)
      moreover have "0 \<le> sz" by (simp add: r(4))
      ultimately have "snprintf_fits HDR_MAX (?head @ [CR, LF, CR, LF])" by (simp add: head_fits)
      then show ?thesis using cs b op by simp
    qed
  qed
qed

theorem pull_status_exact_witness:
  "answer (snd (serve_artifact careful_senv pull_request ''nothing'' False pull_server sample_conn)) = Some ''400''"
proof -
  obtain sv' cc' where run: "serve_artifact careful_senv pull_request ''nothing'' False pull_server sample_conn = (sv', cc')"
    by fastforce
  have m: "\<not> ev_nomem (se_env careful_senv) n" for n by (simp add: careful_senv_def calm_senv_def calm_env_def)
  have f: "sizes_fit (se_env careful_senv) (st_fs (sv_store pull_server))" by code_simp
  have o: "store_open (se_env careful_senv) (sv_store pull_server) ''nothing'' STORE_NAME_MAX = Inl STORE_ERR_INVALID_NAME"
    "bearer_ok pull_request (cf_pull_token (sv_conf pull_server))"
    by code_simp+
  show ?thesis
    using pull_status_exact [OF pull_sound sample_idle(1) m f run] run o by (simp add: miss_code_def)
qed

end
