(* ===== verification/Server_Reports.thy ===== *)
theory Server_Reports
  imports Server_Serving
begin

text \<open>
  What the server reports: the activity log read back from its ring, and the listing grouped from the
  entries of the store.
\<close>

section \<open>The activity log\<close>

text \<open>What is logged, by its time, level and text; the history the ring stands for, numbered from 1.\<close>

type_synonym log_call = "senv \<times> string \<times> string"

definition logged :: "log_call list \<Rightarrow> server \<Rightarrow> server" where
  "logged calls sv = foldl (\<lambda>sv (env, level, text). server_log env level text sv) sv calls"

definition log_item :: "int \<Rightarrow> log_call \<Rightarrow> log_entry" where
  "log_item i c = (case c of (env, level, text) \<Rightarrow>
     \<lparr>le_seq = i, le_wall_ms = se_wall_ms env, le_level = snprintf 8 level, le_text = snprintf LOG_TEXT_MAX text\<rparr>)"

definition history :: "log_call list \<Rightarrow> log_entry list" where
  "history calls = map (\<lambda>j. log_item (int j + 1) (calls ! j)) [0..<length calls]"

text \<open>The ring holds the end of a history.\<close>

definition ring_holds :: "log_entry list \<Rightarrow> server \<Rightarrow> bool" where
  "ring_holds h sv \<longleftrightarrow> sv_log_seq sv = int (length h) \<and> length (sv_log sv) = LOG_RING
     \<and> (\<forall>j < length h. length h \<le> j + LOG_RING \<longrightarrow> sv_log sv ! (j mod LOG_RING) = h ! j)"

lemma history_snoc: "history (calls @ [c]) = history calls @ [log_item (int (length calls) + 1) c]"
  by (simp add: history_def nth_append)

lemma length_history [simp]: "length (history calls) = length calls"
  by (simp add: history_def)

lemma history_seq: "j < length calls \<Longrightarrow> le_seq (history calls ! j) = int j + 1"
  by (simp add: history_def log_item_def split: prod.split)

lemma ring_step:
  assumes "ring_holds (history calls) sv"
  shows "ring_holds (history (calls @ [(env, level, text)])) (server_log env level text sv)"
proof -
  let ?n = "length calls"
  let ?e = "log_item (int ?n + 1) (env, level, text)"
  let ?sv = "server_log env level text sv"
  have r: "sv_log_seq sv = int ?n" "length (sv_log sv) = LOG_RING"
    "\<And>j. j < ?n \<Longrightarrow> ?n \<le> j + LOG_RING \<Longrightarrow> sv_log sv ! (j mod LOG_RING) = history calls ! j"
    using assms by (auto simp: ring_holds_def)
  have pos: "?n mod LOG_RING < LOG_RING" by (simp add: LOG_RING_def)
  have "nat (int ?n mod int LOG_RING) = ?n mod LOG_RING" by (simp flip: zmod_int)
  then have log: "sv_log ?sv = (sv_log sv)[?n mod LOG_RING := ?e]" and seq: "sv_log_seq ?sv = int ?n + 1"
    using r(1) by (simp_all add: server_log_def log_item_def Let_def)
  have "sv_log ?sv ! (j mod LOG_RING) = (history calls @ [?e]) ! j" if j: "j < Suc ?n" "Suc ?n \<le> j + LOG_RING" for j
  proof (cases "j = ?n")
    case True
    then show ?thesis using r(2) pos by (simp add: log nth_append)
  next
    case False
    then have "\<not> LOG_RING dvd ?n - j" using j by (auto dest: dvd_imp_le)
    then have "j mod LOG_RING \<noteq> ?n mod LOG_RING" using j mod_eq_dvd_iff_nat [of j "?n" LOG_RING] by auto
    then show ?thesis using r(3) [of j] j False by (simp add: log nth_append)
  qed
  then show ?thesis using r(2) by (simp add: ring_holds_def history_snoc seq log)
qed

lemma ring_logged: "ring_holds (history done1) sv \<Longrightarrow> ring_holds (history (done1 @ calls)) (logged calls sv)"
proof (induction calls arbitrary: sv done1)
  case (Cons c calls)
  obtain env level msg where "c = (env, level, msg)" by (metis prod.exhaust)
  then show ?case using Cons.IH [OF ring_step [OF Cons.prems, of env level msg]] by (simp add: logged_def)
qed (simp add: logged_def)

lemma ring_reads:
  assumes r: "ring_holds h sv" and h: "\<And>j. j < length h \<Longrightarrow> le_seq (h ! j) = int j + 1"
    and a: "0 \<le> after" "int (length h) - int LOG_RING \<le> after"
  shows "log_entries sv after = drop (nat after) h"
proof -
  let ?n = "length h"
  have at: "sv_log sv ! nat ((i - 1) mod int LOG_RING) = h ! nat (i - 1) \<and> le_seq (h ! nat (i - 1)) = i"
    if "after + 1 \<le> i" "i \<le> int ?n" for i
  proof -
    define j where "j = nat (i - 1)"
    have j: "i = int j + 1" "j < ?n" "?n \<le> j + LOG_RING" using that a by (auto simp: j_def)
    have "nat ((i - 1) mod int LOG_RING) = j mod LOG_RING" by (simp add: j(1) flip: zmod_int)
    then show ?thesis using r h [OF j(2)] j by (simp add: ring_holds_def)
  qed
  have seq: "sv_log_seq sv = int ?n" using r by (simp add: ring_holds_def)
  have "log_entries sv after = map (\<lambda>i. h ! nat (i - 1)) [after + 1..int ?n]"
    unfolding log_entries_def seq map_filter_def Let_def
    using at by (auto simp: filter_id_conv intro!: map_cong arg_cong [where f = "map _"])
  also have "\<dots> = drop (nat after) h"
  proof (rule nth_equalityI)
    show "length (map (\<lambda>i. h ! nat (i - 1)) [after + 1..int ?n]) = length (drop (nat after) h)"
      using a by simp
    fix k assume "k < length (map (\<lambda>i. h ! nat (i - 1)) [after + 1..int ?n])"
    then have k: "k < nat (int ?n - after)" by simp
    then have "[after + 1..int ?n] ! k = after + 1 + int k" by simp
    then show "map (\<lambda>i. h ! nat (i - 1)) [after + 1..int ?n] ! k = drop (nat after) h ! k"
      using k a by (simp add: nat_add_distrib)
  qed
  finally show ?thesis .
qed



section \<open>The listing\<close>

lemma cmp_by_stem_split: "cmp_by_stem = then_cmp (on_cmp stem_of c_strcmp) (on_cmp e_name c_strcmp)"
  by (rule ext)+ (simp add: cmp_by_stem_def then_cmp_def on_cmp_def stem_of_def Let_def)

interpretation listed: comparator cmp_by_stem
  unfolding cmp_by_stem_split by (intro comparator_intros)

lemma cmp_identity_split:
  "cmp_identity_newest = then_cmp (on_cmp (\<lambda>g. - id_modified g) int_cmp) (on_cmp id_stem c_strcmp)"
  by (auto simp: fun_eq_iff cmp_identity_newest_def on_cmp_def then_cmp_def int_cmp_def)

interpretation latest: comparator cmp_identity_newest
  unfolding cmp_identity_split by (intro comparator_intros)

text \<open>The identity of a stem, read off the entries.\<close>

definition members :: "store_entry list \<Rightarrow> string \<Rightarrow> store_entry list" where
  "members live stem = filter (\<lambda>e. stem_of e = stem) live"

definition identity_of :: "store_entry list \<Rightarrow> string \<Rightarrow> identity" where
  "identity_of live stem =
     \<lparr>id_stem = stem, id_first = length (takeWhile (\<lambda>e. stem_of e \<noteq> stem) live), id_n = length (members live stem),
      id_bytes = sum_list (map (\<lambda>e. max 0 (e_size e)) (members live stem)),
      id_modified = foldl max 0 (map e_mtime (members live stem)), id_version_rank = 0\<rparr>"

definition build_step :: "nat \<Rightarrow> store_entry \<Rightarrow> identity list \<Rightarrow> identity list" where
  "build_step i e out =
     (let out1 = (if out = [] \<or> id_stem (last out) \<noteq> stem_of e then out @ [new_identity (stem_of e) i] else out)
      in butlast out1 @ [add_encoding e (last out1)])"

lemma build_snoc: "build_loop i (es @ [e]) out = build_step (i + length es) e (build_loop i es out)"
  by (induction es arbitrary: i out) (simp_all add: build_step_def stem_of_def Let_def)

lemma stem_of_short: "length (stem_of e) < STORE_NAME_MAX"
  by (auto simp: stem_of_def store_stem_of_def Let_def STORE_NAME_MAX_def min_def)

lemma members_snoc: "members (es @ [e]) stem = members es stem @ (if stem_of e = stem then [e] else [])"
  by (simp add: members_def)

lemma identity_other:
  "stem \<in> stem_of ` set es \<Longrightarrow> stem_of e \<noteq> stem \<Longrightarrow> identity_of (es @ [e]) stem = identity_of es stem"
  by (auto simp: identity_of_def members_snoc takeWhile_append)

lemma add_identity:
  assumes "stem_of e \<in> stem_of ` set es"
  shows "add_encoding e (identity_of es (stem_of e)) = identity_of (es @ [e]) (stem_of e)"
  using assms by (auto simp: identity_of_def members_snoc add_encoding_def max_def takeWhile_append)

lemma new_identity_first:
  assumes "stem_of e \<notin> stem_of ` set es"
  shows "add_encoding e (new_identity (stem_of e) (length es)) = identity_of (es @ [e]) (stem_of e)"
proof -
  have "members es (stem_of e) = []" using assms unfolding members_def filter_empty_conv by (metis imageI)
  moreover have "takeWhile (\<lambda>x. stem_of x \<noteq> stem_of e) es = es"
    using assms unfolding takeWhile_eq_all_conv by (metis imageI)
  ultimately show ?thesis
    using stem_of_short [of e]
    by (simp add: identity_of_def members_snoc add_encoding_def new_identity_def snprintf_def max_def)
qed

lemma remdups_snoc:
  "remdups_adj (xs @ [x]) = remdups_adj xs @ (if xs \<noteq> [] \<and> last xs = x then [] else [x])"
  by (induction xs rule: remdups_adj.induct) simp_all

lemma sorted_new_stem:
  assumes "stem_sorted (es @ [e])" and "es = [] \<or> stem_of (last es) \<noteq> stem_of e"
  shows "stem_of e \<notin> stem_of ` set es"
proof
  assume "stem_of e \<in> stem_of ` set es"
  then obtain x where x: "x \<in> set es" "stem_of x = stem_of e" by auto
  then have ne: "es \<noteq> []" by auto
  then have es: "es = butlast es @ [last es]" by simp
  have "c_strcmp (stem_of (last es)) (stem_of e) \<le> 0"
    using assms(1) ne by (auto simp: stem_sorted_def sorted_wrt_append)
  moreover have "c_strcmp (stem_of x) (stem_of (last es)) \<le> 0"
  proof -
    have "sorted_wrt (\<lambda>a b. c_strcmp (stem_of a) (stem_of b) \<le> 0) (butlast es @ [last es])"
      using assms(1) es by (simp add: stem_sorted_def sorted_wrt_append)
    moreover have "x \<in> set (butlast es) \<or> x = last es" using x(1) es by (metis Un_iff insert_iff list.set(2) set_append empty_iff list.set(1))
    ultimately show ?thesis by (auto simp: sorted_wrt_append)
  qed
  ultimately have "c_strcmp (stem_of (last es)) (stem_of e) = 0"
    using x(2) strcmp.cmp_le_iff [of "stem_of e" "stem_of (last es)"] by simp
  then show False using assms(2) ne by simp
qed

lemma build_groups: "stem_sorted es \<Longrightarrow> build_loop 0 es [] = map (identity_of es) (remdups_adj (map stem_of es))"
proof (induction es rule: rev_induct)
  case (snoc e es)
  have sorted: "stem_sorted es" using snoc.prems by (simp add: stem_sorted_def sorted_wrt_append)
  let ?rs = "remdups_adj (map stem_of es)"
  have out: "build_loop 0 es [] = map (identity_of es) ?rs" by (rule snoc.IH [OF sorted])
  have other: "identity_of es r = identity_of (es @ [e]) r" if "r \<in> set ?rs" "r \<noteq> stem_of e" for r
    using identity_other [of r es e] that by simp
  show ?case
  proof (cases "es \<noteq> [] \<and> stem_of (last es) = stem_of e")
    case True
    then have ne: "?rs \<noteq> []" by simp
    have last: "last ?rs = stem_of e" using True by (simp add: last_map)
    have in_es: "stem_of e \<in> stem_of ` set es" using True by (metis image_eqI last_in_set)
    obtain qs where rs: "?rs = qs @ [stem_of e]" using ne last append_butlast_last_id by metis
    have "stem_of e \<notin> set qs" using stems_distinct [OF sorted] by (simp add: rs)
    then have "map (identity_of es) qs = map (identity_of (es @ [e])) qs" using other rs by (intro map_cong) auto
    moreover have "id_stem (identity_of es (stem_of e)) = stem_of e" by (simp add: identity_of_def)
    ultimately have "build_step (length es) e (map (identity_of es) ?rs) = map (identity_of (es @ [e])) ?rs"
      using add_identity [OF in_es] by (simp add: rs build_step_def)
    moreover have "remdups_adj (map stem_of (es @ [e])) = ?rs" using True by (simp add: remdups_snoc last_map)
    ultimately show ?thesis by (simp add: build_snoc out)
  next
    case False
    then have new: "stem_of e \<notin> stem_of ` set es" using sorted_new_stem [OF snoc.prems] by blast
    then have ne: "r \<noteq> stem_of e" if "r \<in> set ?rs" for r
      using that new by (metis remdups_adj_set set_map)
    then have m: "map (identity_of es) ?rs = map (identity_of (es @ [e])) ?rs" using other ne by (intro map_cong) blast+
    have "id_stem (last (map (identity_of es) ?rs)) \<noteq> stem_of e" if "?rs \<noteq> []"
      using ne [OF last_in_set [OF that]] that by (simp add: last_map identity_of_def)
    then have "build_step (length es) e (map (identity_of es) ?rs) = map (identity_of es) ?rs @ [identity_of (es @ [e]) (stem_of e)]"
      using new_identity_first [OF new] by (auto simp: build_step_def)
    moreover have "remdups_adj (map stem_of (es @ [e])) = ?rs @ [stem_of e]"
      using False by (cases "es = []") (simp_all add: remdups_snoc last_map)
    ultimately show ?thesis by (simp add: build_snoc out m)
  qed
qed simp


lemma build_bytes: "sum_list (map id_bytes (build_loop 0 es [])) = sum_list (map (\<lambda>e. max 0 (e_size e)) es)"
proof (induction es rule: rev_induct)
  case (snoc e es)
  have "sum_list (map id_bytes (build_step i e out)) = sum_list (map id_bytes out) + max 0 (e_size e)" for i out
  proof (cases "out = [] \<or> id_stem (last out) \<noteq> stem_of e")
    case True
    then show ?thesis by (auto simp: build_step_def add_encoding_def new_identity_def Let_def max_def)
  next
    case False
    then obtain out' g where "out = out' @ [g]" by (metis append_butlast_last_id)
    then show ?thesis using False by (simp add: build_step_def add_encoding_def Let_def max_def)
  qed
  then show ?case using snoc.IH by (simp add: build_snoc)
qed simp

lemma members_segment:
  assumes "stem_sorted live"
  shows "take (length (members live st)) (drop (length (takeWhile (\<lambda>e. stem_of e \<noteq> st) live)) live) = members live st"
proof -
  let ?t = "takeWhile (\<lambda>e. stem_of e \<noteq> st) live" and ?d = "dropWhile (\<lambda>e. stem_of e \<noteq> st) live"
  have split: "live = ?t @ ?d" by simp
  have "members ?t st = []" unfolding members_def filter_empty_conv by (metis set_takeWhileD)
  then have m: "members live st = members ?d st" using split by (metis append_Nil filter_append members_def)
  have d: "drop (length ?t) live = ?d" by (simp add: dropWhile_eq_drop)
  show ?thesis
  proof (cases ?d)
    case Nil
    then show ?thesis by (simp add: m members_def)
  next
    case (Cons r rest)
    have st: "stem_of r = st" using hd_dropWhile [of "\<lambda>e. stem_of e \<noteq> st" live] Cons by simp
    have "stem_sorted (r # rest)"
      using assms split Cons unfolding stem_sorted_def by (metis sorted_wrt_append)
    from stem_sorted_first(1) [OF this] have "members ?d st = takeWhile (\<lambda>x. stem_of x = st) ?d"
      by (simp add: members_def Cons st)
    then show ?thesis by (simp add: m d takeWhile_eq_take [symmetric])
  qed
qed

lemma qsort_stem_sorted: "stem_sorted (c_qsort cmp_by_stem xs)"
  unfolding stem_sorted_def
  by (rule sorted_wrt_mono_rel [OF _ listed.sorted_qsort])
    (auto simp: cmp_by_stem_def stem_of_def Let_def split: if_splits)

lemma listed_sorted: "stem_sorted (listed_entries env s)"
proof -
  have "stem_sorted []" by (simp add: stem_sorted_def)
  then show ?thesis by (simp add: listed_entries_def qsort_stem_sorted split: option.split)
qed

lemma ranked:
  obtains f where "rank_identities env ids = map2 (\<lambda>g r. g\<lparr>id_version_rank := r\<rparr>) ids f" "length f = length ids"
proof (cases "ids \<noteq> [] \<and> ev_nomem env (length ids * STORE_ENTRY_SIZE)")
  case True
  have "map (\<lambda>g. g\<lparr>id_version_rank := 0\<rparr>) ids = map2 (\<lambda>g r. g\<lparr>id_version_rank := r\<rparr>) ids (replicate (length ids) 0)" for ids
    by (induction ids) simp_all
  then show thesis by (intro that [of "replicate (length ids) 0"]) (use True in \<open>simp_all add: rank_identities_def\<close>)
next
  case False
  define rs where "rs = store_rank_versions (ev_nomem env (8 * length ids)) (map stem_entry ids)"
  have m: "map2 (\<lambda>g r. g\<lparr>id_version_rank := e_version_rank r\<rparr>) xs ys = map2 (\<lambda>g r. g\<lparr>id_version_rank := r\<rparr>) xs (map e_version_rank ys)"
    for xs ys by (induction xs ys rule: list_induct2') simp_all
  have "length rs = length ids" by (simp add: rs_def)
  moreover have "rank_identities env ids = map2 (\<lambda>g r. g\<lparr>id_version_rank := e_version_rank r\<rparr>) ids rs"
    unfolding rank_identities_def rs_def using False by (simp only: if_False)
  ultimately show thesis using that [of "map e_version_rank rs"] by (simp add: m)
qed

lemma ranked_keeps:
  "map (\<lambda>g. g\<lparr>id_version_rank := 0\<rparr>) (rank_identities env ids) = map (\<lambda>g. g\<lparr>id_version_rank := 0\<rparr>) ids"
proof -
  obtain f where f: "rank_identities env ids = map2 (\<lambda>g r. g\<lparr>id_version_rank := r\<rparr>) ids f" "length f = length ids" by (rule ranked)
  show ?thesis unfolding f(1) by (rule nth_equalityI) (use f(2) in simp_all)
qed

text \<open>The identities that are listed, but for their rank: one per stem.\<close>

lemma listed_image:
  assumes "stem_sorted live"
  shows "mset (map (\<lambda>g. g\<lparr>id_version_rank := 0\<rparr>) (listed_identities env live)) =
    mset (map (identity_of live) (remdups_adj (map stem_of live)))"
proof -
  have "mset (map (\<lambda>g. g\<lparr>id_version_rank := 0\<rparr>) (listed_identities env live)) =
      mset (map (\<lambda>g. g\<lparr>id_version_rank := 0\<rparr>) (rank_identities env (build_identities live)))"
    by (simp add: listed_identities_def)
  also have "\<dots> = mset (map (\<lambda>g. g\<lparr>id_version_rank := 0\<rparr>) (map (identity_of live) (remdups_adj (map stem_of live))))"
    unfolding ranked_keeps by (simp add: build_identities_def build_groups [OF assms])
  also have "map (\<lambda>g. g\<lparr>id_version_rank := 0\<rparr>) (map (identity_of live) (remdups_adj (map stem_of live)))
      = map (identity_of live) (remdups_adj (map stem_of live))"
    by (simp add: identity_of_def)
  finally show ?thesis .
qed


lemma ranked_bytes: "map id_bytes (rank_identities env ids) = map id_bytes ids"
  using arg_cong [OF ranked_keeps [of env ids], of "map id_bytes"] by (simp add: comp_def)

text \<open>What the identities are, and that they make up the listing.\<close>

lemma listed_groups:
  fixes env :: env and s :: store
  defines "live \<equiv> listed_entries env s"
  defines "ids \<equiv> listed_identities env live"
  shows "distinct (map id_stem ids) \<and> set (map id_stem ids) = stem_of ` set live
    \<and> sorted_wrt (\<lambda>g h. cmp_identity_newest g h \<le> 0) ids
    \<and> (\<forall>g \<in> set ids. members live (id_stem g) \<noteq> []
         \<and> take (id_n g) (drop (id_first g) live) = members live (id_stem g)
         \<and> id_bytes g = sum_list (map (\<lambda>e. max 0 (e_size e)) (members live (id_stem g)))
         \<and> id_modified g = foldl max 0 (map e_mtime (members live (id_stem g))))
    \<and> sum_list (map id_bytes ids) = sum_list (map (\<lambda>e. max 0 (e_size e)) live)"
proof -
  let ?rs = "remdups_adj (map stem_of live)" and ?plain = "\<lambda>g. g\<lparr>id_version_rank := 0\<rparr>"
  have sorted: "stem_sorted live" by (simp add: live_def listed_sorted)
  have img: "mset (map ?plain ids) = mset (map (identity_of live) ?rs)" unfolding ids_def by (rule listed_image [OF sorted])
  have "mset (map id_stem (map ?plain ids)) = mset (map id_stem (map (identity_of live) ?rs))"
    using arg_cong [OF img, of "image_mset id_stem"] by (simp add: multiset.map_comp)
  then have stems: "mset (map id_stem ids) = mset ?rs" by (simp add: comp_def identity_of_def)
  have plain: "\<exists>st \<in> set ?rs. ?plain g = identity_of live st" if "g \<in> set ids" for g
  proof -
    have "?plain g \<in> set (map ?plain ids)" using that by simp
    then have "?plain g \<in> set (map (identity_of live) ?rs)" using mset_eq_setD [OF img] by blast
    then show ?thesis by auto
  qed
  have each: "members live (id_stem g) \<noteq> [] \<and> take (id_n g) (drop (id_first g) live) = members live (id_stem g)
      \<and> id_bytes g = sum_list (map (\<lambda>e. max 0 (e_size e)) (members live (id_stem g)))
      \<and> id_modified g = foldl max 0 (map e_mtime (members live (id_stem g)))" if "g \<in> set ids" for g
  proof -
    from plain [OF that] obtain st where st: "st \<in> set ?rs" "?plain g = identity_of live st" by blast
    have f: "id_stem g = st" "id_first g = id_first (identity_of live st)" "id_n g = id_n (identity_of live st)"
      "id_bytes g = id_bytes (identity_of live st)" "id_modified g = id_modified (identity_of live st)"
      using arg_cong [OF st(2), of id_stem] arg_cong [OF st(2), of id_first] arg_cong [OF st(2), of id_n]
        arg_cong [OF st(2), of id_bytes] arg_cong [OF st(2), of id_modified]
      by simp_all (simp add: identity_of_def)
    have "members live st \<noteq> []" using st(1) unfolding members_def filter_empty_conv by auto
    then show ?thesis using members_segment [OF sorted, of st] by (simp add: f) (simp add: identity_of_def)
  qed
  have "sum_list (map id_bytes ids) = sum_list (map id_bytes (rank_identities env (build_identities live)))"
    unfolding ids_def listed_identities_def
    by (metis latest.mset_qsort mset_map sum_mset_sum_list)
  then have bytes: "sum_list (map id_bytes ids) = sum_list (map (\<lambda>e. max 0 (e_size e)) live)"
    by (simp add: ranked_bytes build_identities_def build_bytes)
  show ?thesis
    using mset_eq_imp_distinct_iff [OF stems] mset_eq_setD [OF stems] stems_distinct [OF sorted] each bytes
      latest.sorted_qsort by (simp add: ids_def listed_identities_def)
qed

text \<open>
  C10. The listing groups every encoding under its identity, once: the records of \<^verbatim>\<open>/api/v1/artifacts\<close>
  carry every stem of the listed entries exactly once; each points at the contiguous run of exactly the
  entries of its stem, with their total size and latest time; the order is latest first, by stem among
  equals; and the sizes add up to those of all entries.
\<close>

theorem listing_groups_exact:
  fixes env :: env and s :: store
  defines "live \<equiv> listed_entries env s"
  defines "ids \<equiv> listed_identities env live"
  shows "distinct (map id_stem ids) \<and> set (map id_stem ids) = stem_of ` set live
    \<and> sorted_wrt (\<lambda>g h. cmp_identity_newest g h \<le> 0) ids
    \<and> (\<forall>g \<in> set ids. members live (id_stem g) \<noteq> []
         \<and> take (id_n g) (drop (id_first g) live) = members live (id_stem g)
         \<and> id_bytes g = sum_list (map (\<lambda>e. max 0 (e_size e)) (members live (id_stem g)))
         \<and> id_modified g = foldl max 0 (map e_mtime (members live (id_stem g))))
    \<and> sum_list (map id_bytes ids) = sum_list (map (\<lambda>e. max 0 (e_size e)) live)"
  unfolding ids_def live_def by (rule listed_groups)

theorem listing_groups_exact_witness:
  "sum_list (map id_bytes (listed_identities calm_env (listed_entries calm_env published_store))) = 1"
proof -
  have "sum_list (map (\<lambda>e. max 0 (e_size e)) (listed_entries calm_env published_store)) = 1" by code_simp
  then show ?thesis using listing_groups_exact [of calm_env published_store] by simp
qed

section \<open>The counters\<close>

definition is_package :: "store_entry \<Rightarrow> bool" where
  "is_package e \<longleftrightarrow> \<not> store_is_signature (e_name e) \<and> \<not> store_is_installer (e_name e)"

definition short_name :: "store_entry \<Rightarrow> string" where
  "short_name e = snprintf STORE_NAME_MAX (d_name (store_split_display (e_name e) STORE_NAME_MAX STORE_NAME_MAX 0))"

definition count_in :: "env \<Rightarrow> list_ctx \<Rightarrow> store_entry \<Rightarrow> list_ctx" where
  "count_in env c e = snd (count_entry env (e_name e) (e_digest e) (e_size e) (e_mtime e) c)"

lemma count_entry_goes_on: "fst (count_entry env n d z t c) = 0"
  by (simp add: count_entry_def Let_def)

lemma visible_entry:
  assumes "visible env s n"
  shows "snprintf STORE_NAME_MAX n = n" "snprintf STORE_SHA256_MAX (the (raw_digest env s n)) = the (raw_digest env s n)"
proof -
  obtain d where "raw_digest env s n = Some d" "store_name_is_valid n" using assms by (auto simp: visible_def)
  then show "snprintf STORE_NAME_MAX n = n" "snprintf STORE_SHA256_MAX (the (raw_digest env s n)) = the (raw_digest env s n)"
    using cut_fields [of n d] raw_digest_valid by auto
qed

text \<open>Counting walks over the entries a listing collects.\<close>

lemma walk_counts:
  assumes "walk_loop env s (collect_entry env) ns st = (0, st')"
  shows "\<exists>new. es_v st' = es_v st @ new \<and> walk_loop env s (count_entry env) ns c = (0, foldl (count_in env) c new)"
  using assms
proof (induction ns arbitrary: st c)
  case (Cons n ns)
  show ?case
  proof (cases "visible env s n")
    case True
    let ?d = "the (raw_digest env s n)"
    let ?e = "\<lparr>e_name = n, e_digest = ?d, e_size = walk_size env s ?d, e_mtime = walk_mtime env s n, e_version_rank = 0\<rparr>"
    obtain st1 where st1: "collect_entry env n ?d (walk_size env s ?d) (walk_mtime env s n) st = (0, st1)"
      "walk_loop env s (collect_entry env) ns st1 = (0, st')"
      using Cons.prems walk_loop_visible [OF True, of "collect_entry env" ns st] by (auto split: prod.splits if_splits)
    have v: "es_v st1 = es_v st @ [?e]"
      using st1(1) visible_entry [OF True] by (auto simp: collect_entry_def split: option.splits)
    obtain new where new: "es_v st' = es_v st1 @ new"
      "walk_loop env s (count_entry env) ns (count_in env c ?e) = (0, foldl (count_in env) (count_in env c ?e) new)"
      using Cons.IH [OF st1(2)] by blast
    have "walk_loop env s (count_entry env) (n # ns) c = walk_loop env s (count_entry env) ns (count_in env c ?e)"
      using walk_loop_visible [OF True, of "count_entry env" ns c]
        count_entry_goes_on [of env n ?d "walk_size env s ?d" "walk_mtime env s n" c]
      by (simp add: count_in_def split: prod.splits)
    then show ?thesis using v new by (intro exI [of _ "?e # new"]) simp
  next
    case False
    then show ?thesis using Cons walk_loop_hidden [OF False] by metis
  qed
qed simp

lemma status_walk:
  assumes "store_list env s = Some ents"
  shows "status_counts env s = foldl (count_in env) no_counts ents"
proof -
  obtain st where w: "store_walk env s (collect_entry env) \<lparr>es_v = [], es_cap = 0\<rparr> = (0, st)" "es_v st = ents"
    using assms by (auto simp: store_list_def split: prod.splits if_splits)
  then obtain names where names: "snprintf_fits PATH_MAX (st_root s @ ''/'' @ STORE_DIR)"
    "sys_opendir env (st_fs s) (st_root s @ ''/'' @ STORE_DIR) = Inr names"
    "walk_loop env s (collect_entry env) names \<lparr>es_v = [], es_cap = 0\<rparr> = (0, st)"
    by (auto simp: store_walk_def Let_def split: if_splits sum.splits)
  then show ?thesis
    using walk_counts [OF names(3), of no_counts] w(2) by (auto simp: status_counts_def store_walk_def Let_def)
qed

lemma count_in_fields:
  assumes "\<And>n. \<not> ev_nomem env n"
  shows "lc_count (count_in env c e) = lc_count c + (if is_package e then 1 else 0)"
    "lc_installers (count_in env c e) =
       lc_installers c + (if \<not> store_is_signature (e_name e) \<and> store_is_installer (e_name e) then 1 else 0)"
    "lc_unstamped (count_in env c e) =
       lc_unstamped c + (if \<not> store_is_signature (e_name e) \<and> store_arch_of (e_name e) = None then 1 else 0)"
    "lc_bytes (count_in env c e) + lc_installer_bytes (count_in env c e) =
       lc_bytes c + lc_installer_bytes c + max 0 (e_size e)"
    "lc_names (count_in env c e) = lc_names c @ (if is_package e then [short_name e] else [])"
  using assms
  by (auto simp: count_in_def count_entry_def Let_def is_package_def short_name_def remember_name_def grow_def)


lemma counted:
  assumes "\<And>n. \<not> ev_nomem env n"
  defines "t \<equiv> \<lambda>c ents. foldl (count_in env) c ents"
  shows "lc_count (t c ents) = lc_count c + int (length (filter is_package ents))"
    "lc_installers (t c ents) = lc_installers c
       + int (length (filter (\<lambda>e. \<not> store_is_signature (e_name e) \<and> store_is_installer (e_name e)) ents))"
    "lc_unstamped (t c ents) = lc_unstamped c
       + int (length (filter (\<lambda>e. \<not> store_is_signature (e_name e) \<and> store_arch_of (e_name e) = None) ents))"
    "lc_bytes (t c ents) + lc_installer_bytes (t c ents) =
       lc_bytes c + lc_installer_bytes c + sum_list (map (\<lambda>e. max 0 (e_size e)) ents)"
    "lc_names (t c ents) = lc_names c @ map short_name (filter is_package ents)"
  unfolding t_def
  by (induction ents arbitrary: c) (simp_all add: count_in_fields [OF assms(1)])

lemma count_changes_groups: "count_changes xs = int (length (remdups_adj xs))"
  by (induction xs rule: count_changes.induct) auto

lemma sorted_groups_distinct:
  "sorted_wrt (\<lambda>a b. c_strcmp a b \<le> 0) xs \<Longrightarrow> distinct (remdups_adj xs)"
proof (induction xs rule: remdups_adj.induct)
  case (3 x y xs)
  show ?case
  proof (cases "x = y")
    case False
    have "x \<noteq> z" if "z \<in> set (y # xs)" for z
    proof
      assume "x = z"
      then have "c_strcmp x y \<le> 0" "c_strcmp y x \<le> 0" using "3.prems" that by auto
      then have "c_strcmp x y = 0" using strcmp.cmp_le_iff [of y x] by simp
      then show False using False by simp
    qed
    then show ?thesis using 3 False by auto
  qed (use 3 in simp)
qed simp_all

lemma distinct_names_card: "distinct_names lc = int (card (set (lc_names lc)))"
proof (cases "lc_names lc = []")
  case False
  let ?xs = "c_qsort c_strcmp (lc_names lc)"
  have "distinct (remdups_adj ?xs)" by (rule sorted_groups_distinct [OF strcmp.sorted_qsort])
  then have "length (remdups_adj ?xs) = card (set (lc_names lc))" by (metis distinct_card remdups_adj_set strcmp.set_qsort)
  then show ?thesis using False by (simp add: distinct_names_def count_changes_groups)
qed (simp add: distinct_names_def)



end
