(* ===== verification/Server_Running.thy ===== *)
theory Server_Running
  imports Server_Reports Server_Main
begin

text \<open>
  How the server starts and keeps going: which settings win, and that no stalled connection outlives a
  turn of the loop.
\<close>

section \<open>Settings\<close>

text \<open>The value an option is given last on the command line.\<close>

definition last_given :: "string \<Rightarrow> string list \<Rightarrow> string option" where
  "last_given flag args =
     (case filter (\<lambda>a. has_prefix a flag) args of [] \<Rightarrow> None | as \<Rightarrow> Some (drop (length flag) (last as)))"

lemma last_given_Cons:
  "last_given flag (a # as) =
     (case last_given flag as of Some v \<Rightarrow> Some v | None \<Rightarrow> if has_prefix a flag then Some (drop (length flag) a) else None)"
  by (auto simp: last_given_def split: list.splits)

definition given :: "string \<Rightarrow> nat \<Rightarrow> string list \<Rightarrow> string \<Rightarrow> string" where
  "given flag n args old = (case last_given flag args of None \<Rightarrow> old | Some v \<Rightarrow> snprintf n v)"

lemma given_Nil: "given flag n [] old = old"
  by (simp add: given_def last_given_def)

lemma given_Cons:
  "given flag n (a # as) old = given flag n as (if has_prefix a flag then snprintf n (drop (length flag) a) else old)"
  by (simp add: given_def last_given_Cons split: option.split)

lemma has_prefix_take: "has_prefix a flag \<longleftrightarrow> take (length flag) a = flag"
  using strncmp_prefix [of a flag] by (simp add: has_prefix_def starts_with_def)

lemma has_prefix_simps [simp]:
  "has_prefix a []" "\<not> has_prefix [] (y # ys)" "has_prefix (x # xs) (y # ys) \<longleftrightarrow> x = y \<and> has_prefix xs ys"
  by (simp_all add: has_prefix_take)

lemma has_prefix_append: "has_prefix a flag \<Longrightarrow> \<exists>r. a = flag @ r"
  by (metis append_take_drop_id has_prefix_take)

lemma parse_conf:
  assumes "parse_arg a o1 = Inr o2"
  shows "cf_root (op_conf o2) = given ''--root='' CONF_PATH_MAX [a] (cf_root (op_conf o1))
    \<and> cf_bind (op_conf o2) = given ''--bind='' CONF_BIND_MAX [a] (cf_bind (op_conf o1))
    \<and> cf_web_root (op_conf o2) = given ''--web-root='' CONF_PATH_MAX [a] (cf_web_root (op_conf o1))
    \<and> cf_push_token (op_conf o2) = given ''--push-token='' CONF_TOKEN_MAX [a] (cf_push_token (op_conf o1))
    \<and> cf_pull_token (op_conf o2) = given ''--pull-token='' CONF_TOKEN_MAX [a] (cf_pull_token (op_conf o1))
    \<and> cf_require_signature (op_conf o2) =
        given ''--require-signature='' CONF_TOKEN_MAX [a] (cf_require_signature (op_conf o1))
    \<and> (case last_given ''--port='' [a] of None \<Rightarrow> cf_port (op_conf o2) = cf_port (op_conf o1)
       | Some v \<Rightarrow> conf_parse_port (Some v) = Some (cf_port (op_conf o2)))"
proof -
  note open_up = given_Cons given_Nil last_given_Cons last_given_def [of _ "[]"] parse_arg_def Let_def set_text_def
  consider r where "a = ''--config='' @ r" | r where "a = ''--root='' @ r" | r where "a = ''--bind='' @ r"
    | r where "a = ''--port='' @ r" | r where "a = ''--web-root='' @ r" | r where "a = ''--push-token='' @ r"
    | r where "a = ''--pull-token='' @ r" | r where "a = ''--require-signature='' @ r"
    | "\<not> has_prefix a ''--config=''" "\<not> has_prefix a ''--root=''" "\<not> has_prefix a ''--bind=''"
      "\<not> has_prefix a ''--port=''" "\<not> has_prefix a ''--web-root=''" "\<not> has_prefix a ''--push-token=''"
      "\<not> has_prefix a ''--pull-token=''" "\<not> has_prefix a ''--require-signature=''"
    using has_prefix_append by blast
  then show ?thesis
  proof cases
    case 9
    then show ?thesis using assms by (auto simp: open_up split: if_splits)
  qed (use assms in \<open>auto simp: open_up split: option.splits\<close>)
qed


definition settings_laid :: "string list \<Rightarrow> conf \<Rightarrow> conf \<Rightarrow> bool" where
  "settings_laid args base c \<longleftrightarrow>
     cf_root c = given ''--root='' CONF_PATH_MAX args (cf_root base)
     \<and> cf_bind c = given ''--bind='' CONF_BIND_MAX args (cf_bind base)
     \<and> cf_web_root c = given ''--web-root='' CONF_PATH_MAX args (cf_web_root base)
     \<and> cf_push_token c = given ''--push-token='' CONF_TOKEN_MAX args (cf_push_token base)
     \<and> cf_pull_token c = given ''--pull-token='' CONF_TOKEN_MAX args (cf_pull_token base)
     \<and> cf_require_signature c = given ''--require-signature='' CONF_TOKEN_MAX args (cf_require_signature base)
     \<and> (case last_given ''--port='' args of None \<Rightarrow> cf_port c = cf_port base
        | Some v \<Rightarrow> conf_parse_port (Some v) = Some (cf_port c))"

lemma given_step: "given flag n (a # as) old = given flag n as (given flag n [a] old)"
  by (simp add: given_Cons given_Nil)

lemma parse_laid: "parse_args args o1 = Inr o2 \<Longrightarrow> settings_laid args (op_conf o1) (op_conf o2)"
proof (induction args arbitrary: o1)
  case Nil
  then show ?case by (simp add: settings_laid_def given_Nil last_given_def)
next
  case (Cons a as)
  obtain o' where o': "parse_arg a o1 = Inr o'" "parse_args as o' = Inr o2"
    using Cons.prems by (auto split: sum.splits)
  have "case last_given ''--port='' (a # as) of None \<Rightarrow> cf_port (op_conf o2) = cf_port (op_conf o1)
       | Some v \<Rightarrow> conf_parse_port (Some v) = Some (cf_port (op_conf o2))"
    using Cons.IH [OF o'(2)] parse_conf [OF o'(1)]
    by (auto simp: settings_laid_def last_given_Cons [of _ a] last_given_def [of _ "[]"] split: option.splits if_splits)
  then show ?case
    using Cons.IH [OF o'(2)] parse_conf [OF o'(1)] unfolding settings_laid_def given_step [of _ _ a as] by simp
qed

lemma parse_codes: "parse_args args o1 = Inl rc \<Longrightarrow> rc = 0 \<or> rc = 2"
proof (induction args arbitrary: o1)
  case (Cons a as)
  have "rc = 0 \<or> rc = 2" if "parse_arg a o1 = Inl rc"
    using that by (auto simp: parse_arg_def Let_def split: if_splits option.splits)
  then show ?case using Cons by (auto split: sum.splits)
qed simp

text \<open>
  C15. The command line wins over the file, and the file over the defaults: when the options are
  accepted, every setting is what its option was given last on the command line, cut to its field, or
  else what loading the file named by the last \<^verbatim>\<open>--config=\<close> gave, or else the default; a port on the command line
  is one \<^verbatim>\<open>conf_parse_port\<close> accepts. When they are not, the exit code is 1 exactly when that file was refused, and
  otherwise 0 or 2.
\<close>

theorem settings_precedence:
  "case server_options files args of
     Inr o1 \<Rightarrow>
       (case last_given ''--config='' args of
          None \<Rightarrow> settings_laid args conf_defaults (op_conf o1)
        | Some p \<Rightarrow> fst (conf_load conf_defaults (files p)) = 0
            \<and> settings_laid args (snd (conf_load conf_defaults (files p))) (op_conf o1))
   | Inl rc \<Rightarrow>
       (if (case last_given ''--config='' args of None \<Rightarrow> False | Some p \<Rightarrow> fst (conf_load conf_defaults (files p)) \<noteq> 0)
        then rc = 1 else rc = 0 \<or> rc = 2)"
proof -
  have path: "config_path args p = (case last_given ''--config='' args of None \<Rightarrow> p | Some v \<Rightarrow> Some v)" for p
    by (induction args arbitrary: p) (auto simp: last_given_Cons last_given_def [of _ "[]"] eval_nat_numeral split: option.split)
  have run: "case parse_args args (start_options c) of
      Inr o1 \<Rightarrow> settings_laid args c (op_conf o1) | Inl rc \<Rightarrow> rc = 0 \<or> rc = 2" for c
    using parse_laid [of args "start_options c"] parse_codes [of args "start_options c"]
    by (cases "parse_args args (start_options c)") (simp_all add: start_options_def)
  show ?thesis
  proof (cases "last_given ''--config='' args")
    case None
    then show ?thesis
      using run [of conf_defaults] by (cases "parse_args args (start_options conf_defaults)") (simp_all add: server_options_def path)
  next
    case (Some p)
    obtain rc c where l: "conf_load conf_defaults (files p) = (rc, c)" by fastforce
    then show ?thesis
      using run [of c] Some
      by (cases "rc = 0"; cases "parse_args args (start_options c)") (simp_all add: server_options_def path)
  qed
qed

section \<open>Stalled connections\<close>

definition stalled :: "senv \<Rightarrow> conn \<Rightarrow> bool" where
  "stalled env cc \<longleftrightarrow> se_now_ms env - cn_last_ms cc > time_limit cc"

text \<open>A connection as closing leaves it.\<close>

definition torn_down :: "conn \<Rightarrow> conn" where
  "torn_down cc = cc\<lparr>cn_open := False, cn_interest := Want_Nothing, cn_blob := None, cn_up_fd := None,
     cn_child := False, cn_up_path := [], cn_out := None, cn_http := http_conn_free (cn_http cc)\<rparr>"

lemma sweep_keeps:
  "snd (sweep_loop env ccs sv) = map (\<lambda>(i, cc). (i, if cn_open cc \<and> stalled env cc then torn_down cc else cc)) ccs"
proof (induction ccs arbitrary: sv)
  case (Cons p ccs)
  obtain i cc where p: "p = (i, cc)" by fastforce
  let ?r = "if cn_open cc \<and> stalled env cc then conn_close env sv cc else (sv, cc)"
  obtain sv1 cc1 where r: "?r = (sv1, cc1)" by fastforce
  then have cc1: "cc1 = (if cn_open cc \<and> stalled env cc then torn_down cc else cc)"
    by (auto simp: conn_close_def torn_down_def split: if_splits)
  obtain sv2 rest where rest: "sweep_loop env ccs sv1 = (sv2, rest)" by fastforce
  have "sweep_loop env (p # ccs) sv = (sv2, (i, cc1) # rest)"
    using r rest by (simp add: p stalled_def [symmetric])
  then show ?case using Cons.IH [of sv1] cc1 rest by (simp add: p)
qed simp

text \<open>
  C14. No stalled connection outlives a turn of the loop: after the events of a turn and its sweep, the
  connections left are exactly those that are open and have made progress within their limit (a minute
  while a request or a header is due, five minutes during a transfer), each in the state the events
  left it in.
\<close>

theorem turn_leaves_live:
  assumes "reactor_turn env bi evs rx = rx'"
  defines "after \<equiv> foldl (\<lambda>r ev. handle_event env bi ev r) rx evs"
  shows "rx_conns rx' = filter (\<lambda>(i, cc). cn_open cc \<and> \<not> stalled env cc) (rx_conns after)"
proof -
  have closed: "\<not> cn_open (torn_down cc)" for cc by (simp add: torn_down_def)
  have live: "filter (\<lambda>(i, cc). cn_open cc) (map (\<lambda>(i, cc). (i, if cn_open cc \<and> stalled env cc then torn_down cc else cc)) ccs)
      = filter (\<lambda>(i, cc). cn_open cc \<and> \<not> stalled env cc) ccs" for ccs
    by (induction ccs) (auto simp: closed split: if_splits)
  have "rx_conns rx' = filter (\<lambda>(i, cc). cn_open cc) (snd (sweep_loop env (rx_conns after) (rx_server after)))"
    unfolding assms(1) [symmetric] after_def [symmetric] reactor_turn_def drain_pending_free_def sweep_timeouts_def
    by (simp split: prod.split)
  also have "\<dots> = filter (\<lambda>(i, cc). cn_open cc \<and> \<not> stalled env cc) (rx_conns after)"
    unfolding sweep_keeps by (rule live)
  finally show ?thesis .
qed

theorem turn_leaves_live_witness:
  "rx_conns (reactor_turn (calm_senv\<lparr>se_now_ms := 65001\<rparr>) sample_build [] joined_reactor) = []"
proof -
  let ?env = "calm_senv\<lparr>se_now_ms := 65001\<rparr>"
  have "stalled ?env sample_conn"
    by (simp add: stalled_def sample_conn_def conn_new_def calm_senv_def time_limit_def IDLE_TIMEOUT_MS_def)
  then show ?thesis using turn_leaves_live [OF refl, of ?env sample_build "[]" joined_reactor] by (simp add: joined_conns)
qed

end
