(* ===== verification/Client.thy ===== *)
theory Client
  imports C_Io Json
begin

text \<open>
  The HTTP client of the command line (\<^verbatim>\<open>src/client/src/httpclient.c\<close>). The network is a list of sockets, what
  successive connection attempts meet: whether the peer accepts, what the kernel answers to the
  writes, and what it answers to the reads once the request has been sent. A peer is taken to close in
  the end: when the answers to the reads are used up, the stream has ended.
\<close>

section \<open>The client\<close>

record cix_client =
  cl_host :: string
  cl_port :: int
  cl_token :: string

definition cix_client_init :: "string \<Rightarrow> int \<Rightarrow> cix_client" where
  "cix_client_init host port = \<lparr>cl_host = snprintf 64 host, cl_port = port, cl_token = []\<rparr>"

definition cix_client_set_token :: "cix_client \<Rightarrow> string option \<Rightarrow> cix_client" where
  "cix_client_set_token c token = c\<lparr>cl_token := snprintf 64 (case token of Some t \<Rightarrow> t | None \<Rightarrow> [])\<rparr>"

section \<open>Connecting\<close>

text \<open>\<open>so_accepts\<close>: whether a socket can be made and the address and port connected to.\<close>

record socket =
  so_accepts :: "string \<Rightarrow> nat \<Rightarrow> bool"
  so_writes :: "write_result list"
  so_reads :: "bytes \<Rightarrow> read_result list"

text \<open>The port is converted to 16 bits. The result is the socket and those later attempts will meet.\<close>

definition cix_client_connect_raw :: "cix_client \<Rightarrow> socket list \<Rightarrow> socket option \<times> socket list" where
  "cix_client_connect_raw c net =
     (case net of
        [] \<Rightarrow> (None, [])
      | so # rest \<Rightarrow>
          (if is_ipv4 (cl_host c) \<and> so_accepts so (cl_host c) (nat (cl_port c mod 2 ^ 16)) then (Some so, rest)
           else (None, rest)))"

section \<open>Reading the response\<close>

record read_buf =
  rb_buf :: bytes
  rb_cap :: nat

definition read_buf_grow :: "(nat \<Rightarrow> bool) \<Rightarrow> read_buf \<Rightarrow> nat \<Rightarrow> read_buf option" where
  "read_buf_grow nomem rb want_extra =
     (if length (rb_buf rb) + want_extra \<le> rb_cap rb then Some rb
      else
        (let ncap = grow_cap (length (rb_buf rb) + want_extra) (if rb_cap rb \<noteq> 0 then rb_cap rb * 2 else 4096)
         in if nomem ncap then None else Some (rb\<lparr>rb_cap := ncap\<rparr>)))"

text \<open>The loop; \<open>None\<close> is -1. A read returns no more bytes than there is room for.\<close>

fun read_loop :: "(nat \<Rightarrow> bool) \<Rightarrow> read_result list \<Rightarrow> read_buf \<Rightarrow> read_buf option" where
  "read_loop nomem [] rb = read_buf_grow nomem rb 4096"
| "read_loop nomem (r # rs) rb =
     (case read_buf_grow nomem rb 4096 of
        None \<Rightarrow> None
      | Some rb1 \<Rightarrow>
          (case r of
             Read_Intr \<Rightarrow> read_loop nomem rs rb1
           | Read_Data d \<Rightarrow>
               (let chunk = take (rb_cap rb1 - length (rb_buf rb1)) d
                in if chunk = [] then Some rb1
                   else read_loop nomem rs (rb1\<lparr>rb_buf := rb_buf rb1 @ chunk\<rparr>))
           | _ \<Rightarrow> None))"

definition read_all_response :: "(nat \<Rightarrow> bool) \<Rightarrow> read_result list \<Rightarrow> read_buf option" where
  "read_all_response nomem reads = read_loop nomem reads \<lparr>rb_buf = [], rb_cap = 0\<rparr>"

section \<open>Headers of the response\<close>

text \<open>The end of a line: the offset of the next CRLF, or of the end.\<close>

definition line_end :: "bytes \<Rightarrow> nat" where
  "line_end h = (case find_sub [CR, LF] h of Some i \<Rightarrow> i | None \<Rightarrow> length h)"

function value_loop :: "string \<Rightarrow> nat \<Rightarrow> bytes \<Rightarrow> bytes" where
  "value_loop name out_size h =
     (if h = [] then []
      else
        (let line = take (line_end h) h; next_line = drop (line_end h + 2) h
         in case find_char (CHR '':'') line of
              None \<Rightarrow> value_loop name out_size next_line
            | Some colon \<Rightarrow>
                if colon = length name \<and> lower (take colon line) = lower name
                then take (out_size - 1) (dropWhile (\<lambda>c. c = CHR '' '') (drop (colon + 1) line))
                else value_loop name out_size next_line))"
  by pat_completeness auto
termination
  by (relation "measure (\<lambda>(name, out_size, h). length h)") auto

declare value_loop.simps [simp del]

text \<open>The bytes stored; none when there is no such header.\<close>

definition find_header_value :: "bytes \<Rightarrow> string \<Rightarrow> nat \<Rightarrow> bytes" where
  "find_header_value headers name out_size = value_loop name out_size (drop (line_end headers + 2) headers)"

section \<open>One request\<close>

definition CIX_CONTENT_TYPE_MAX :: nat where
  "CIX_CONTENT_TYPE_MAX = 64"

text \<open>\<open>rs_body\<close> has the length \<open>body_len\<close>.\<close>

record 'n cix_response =
  rs_status :: int
  rs_content_type :: bytes
  rs_body :: "bytes option"
  rs_json :: "'n json_value option"

definition auth_line :: "string option \<Rightarrow> string" where
  "auth_line token =
     (case token of
        None \<Rightarrow> []
      | Some t \<Rightarrow> if t = [] then [] else snprintf 128 (''Authorization: Bearer '' @ t @ [CR, LF]))"

definition request_header :: "cix_client \<Rightarrow> string \<Rightarrow> string \<Rightarrow> string option \<Rightarrow> string option \<Rightarrow> string" where
  "request_header c method path token body =
     method @ '' '' @ path @ '' HTTP/1.1'' @ [CR, LF] @ ''Host: '' @ cl_host c @ [CR, LF] @ auth_line token
     @ (case body of
          Some b \<Rightarrow> ''Content-Type: application/json'' @ [CR, LF] @ ''Content-Length: '' @ nat_dec (length b)
                    @ [CR, LF, CR, LF]
        | None \<Rightarrow> [CR, LF])"

text \<open>\<open>sscanf(buf, "HTTP/1.1 %d", &status)\<close>\<close>

definition scan_status :: "bytes \<Rightarrow> int option" where
  "scan_status buf =
     (if starts_with (c_str buf) ''HTTP/1.1''
      then map_option fst (scan_int (scan_space (drop 8 (c_str buf)))) else None)"

definition read_response :: "(nat \<Rightarrow> bool) \<Rightarrow> (string \<Rightarrow> 'n) \<Rightarrow> bytes \<Rightarrow> 'n cix_response option" where
  "read_response nomem strtod buf =
     (case scan_status buf of
        None \<Rightarrow> None
      | Some status \<Rightarrow>
          (case find_sub [CR, LF, CR, LF] (c_str buf) of
             None \<Rightarrow> Some \<lparr>rs_status = status, rs_content_type = [], rs_body = None, rs_json = None\<rparr>
           | Some headers_len \<Rightarrow>
               (let body = drop (headers_len + 4) buf
                in Some \<lparr>rs_status = status,
                         rs_content_type = find_header_value (take headers_len buf) ''Content-Type'' CIX_CONTENT_TYPE_MAX,
                         rs_body = (if body = [] \<or> nomem (length body + 1) then None else Some body),
                         rs_json = (if body = [] then None else json_parse strtod body)\<rparr>)))"

text \<open>What was sent, the response (\<open>None\<close> is -1) and the sockets left.\<close>

definition do_one_request ::
  "(nat \<Rightarrow> bool) \<Rightarrow> (string \<Rightarrow> 'n) \<Rightarrow> cix_client \<Rightarrow> string \<Rightarrow> string \<Rightarrow> string option \<Rightarrow> string option \<Rightarrow>
   socket list \<Rightarrow> bytes \<times> 'n cix_response option \<times> socket list" where
  "do_one_request nomem strtod c method path token body net =
     (case cix_client_connect_raw c net of
        (None, net') \<Rightarrow> ([], None, net')
      | (Some so, net') \<Rightarrow>
          (let header = request_header c method path token body
           in if \<not> snprintf_fits 512 header then ([], None, net')
              else case cix_write_all (so_writes so) header of
                (ok, sent, ws) \<Rightarrow>
                  (if \<not> ok then (sent, None, net')
                   else case (case body of None \<Rightarrow> (True, [], ws) | Some b \<Rightarrow> cix_write_all ws b) of
                     (ok', sent', _) \<Rightarrow>
                       (if \<not> ok' then (sent @ sent', None, net')
                        else case read_all_response nomem (so_reads so (sent @ sent')) of
                          None \<Rightarrow> (sent @ sent', None, net')
                        | Some rb \<Rightarrow>
                            (case read_buf_grow nomem rb 1 of
                               None \<Rightarrow> (sent @ sent', None, net')
                             | Some rb' \<Rightarrow> (sent @ sent', read_response nomem strtod (rb_buf rb'), net'))))))"

section \<open>Attempts\<close>

definition CIX_CLIENT_MAX_ATTEMPTS :: nat where
  "CIX_CLIENT_MAX_ATTEMPTS = 3"

text \<open>The loop over the attempts left, with what each of them sent.\<close>

fun request_attempts ::
  "nat \<Rightarrow> (socket list \<Rightarrow> bytes \<times> 'r option \<times> socket list) \<Rightarrow> socket list \<Rightarrow> bytes list \<times> 'r option \<times> socket list"
where
  "request_attempts 0 one net = ([], None, net)"
| "request_attempts (Suc n) one net =
     (case one net of
        (sent, Some r, net') \<Rightarrow> ([sent], Some r, net')
      | (sent, None, net') \<Rightarrow>
          (case request_attempts n one net' of (later, r, net'') \<Rightarrow> (sent # later, r, net'')))"

definition cix_client_request_with_auth ::
  "(nat \<Rightarrow> bool) \<Rightarrow> (string \<Rightarrow> 'n) \<Rightarrow> cix_client \<Rightarrow> string \<Rightarrow> string \<Rightarrow> string option \<Rightarrow> string option \<Rightarrow>
   socket list \<Rightarrow> bytes list \<times> 'n cix_response option \<times> socket list" where
  "cix_client_request_with_auth nomem strtod c method path token body net =
     request_attempts CIX_CLIENT_MAX_ATTEMPTS (do_one_request nomem strtod c method path token body) net"

definition cix_client_request ::
  "(nat \<Rightarrow> bool) \<Rightarrow> (string \<Rightarrow> 'n) \<Rightarrow> cix_client \<Rightarrow> string \<Rightarrow> string \<Rightarrow> string option \<Rightarrow>
   socket list \<Rightarrow> bytes list \<times> 'n cix_response option \<times> socket list" where
  "cix_client_request nomem strtod c method path body net =
     cix_client_request_with_auth nomem strtod c method path
       (if cl_token c \<noteq> [] then Some (cl_token c) else None) body net"

definition cix_response_free :: "'n cix_response \<Rightarrow> 'n cix_response" where
  "cix_response_free r = r\<lparr>rs_json := None, rs_body := None\<rparr>"

end
