(* ===== verification/Client_Props.thy ===== *)
theory Client_Props
  imports Client Server_State Http_Props Json_Props
begin

text \<open>
  The client and the server understand each other: the server parses what the client sends to the
  request that was meant, with the credential it carries, and the client reads from the server's
  response the status, the content type and the body the server wrote. The attempts of a request.
\<close>

section \<open>Requests\<close>

text \<open>The fields of the client's request; the content is JSON when there is any.\<close>

definition token_fields :: "string option \<Rightarrow> field list" where
  "token_fields token =
     (case token of None \<Rightarrow> [] | Some t \<Rightarrow> if t = [] then [] else [(''Authorization'', '' Bearer '' @ t)])"

definition client_fields :: "string \<Rightarrow> string option \<Rightarrow> string option \<Rightarrow> field list" where
  "client_fields host token body =
     (''Host'', '' '' @ host) # token_fields token
     @ (case body of None \<Rightarrow> []
        | Some b \<Rightarrow> [(''Content-Type'', '' application/json''), (''Content-Length'', '' '' @ nat_dec (length b))])"

text \<open>A token the client can carry: with the name of its scheme it fits the 128 bytes of \<open>auth_line\<close>.\<close>

definition TOKEN_FITS :: nat where
  "TOKEN_FITS = 103"

definition carried_token :: "string option \<Rightarrow> bool" where
  "carried_token token \<longleftrightarrow>
     (case token of None \<Rightarrow> True
      | Some t \<Rightarrow> length t \<le> TOKEN_FITS \<and> CR \<notin> set t \<and> NUL \<notin> set t \<and> (t \<noteq> [] \<longrightarrow> \<not> is_blank (last t)))"

lemma auth_line_fits: "carried_token token \<Longrightarrow> field_lines (token_fields token) @ [CR, LF] = [CR, LF] @ auth_line token"
  by (cases token) (auto simp: carried_token_def auth_line_def token_fields_def field_lines_def field_line_def
      snprintf_def TOKEN_FITS_def)

lemma field_lines_append: "field_lines (fs @ gs) = field_lines fs @ field_lines gs"
  by (simp add: field_lines_def)

lemma request_header_text:
  assumes "carried_token token"
  shows "request_header c m p token body @ (case body of None \<Rightarrow> [] | Some b \<Rightarrow> b)
    = request_text m p ''HTTP/1.1'' (client_fields (cl_host c) token body) (case body of None \<Rightarrow> [] | Some b \<Rightarrow> b)"
proof -
  have host: "field_lines [(''Host'', CHR '' '' # cl_host c)] = [CR, LF] @ ''Host: '' @ cl_host c"
    by (simp add: field_lines_def field_line_def)
  have auth: "field_lines (token_fields token) @ CR # LF # x = CR # LF # auth_line token @ x" for x
    using auth_line_fits [OF assms] by (metis append.assoc append_Cons append_Nil)
  show ?thesis
  proof (cases body)
    case None
    have "field_lines (client_fields (cl_host c) token None) =
        field_lines [(''Host'', '' '' @ cl_host c)] @ field_lines (token_fields token)"
      by (simp add: client_fields_def flip: field_lines_append)
    then show ?thesis using None auth by (simp add: request_header_def request_text_def host)
  next
    case (Some b)
    have "field_lines (client_fields (cl_host c) token (Some b)) =
        field_lines [(''Host'', '' '' @ cl_host c)] @ field_lines (token_fields token)
        @ [CR, LF] @ ''Content-Type: application/json'' @ [CR, LF] @ ''Content-Length: '' @ nat_dec (length b)"
      by (simp add: client_fields_def field_lines_Cons field_lines_append field_line_def) (simp add: field_lines_def)
    then show ?thesis using Some auth by (simp add: request_header_def request_text_def host)
  qed
qed

lemma client_fields_ok:
  assumes "carried_token token" and "CR \<notin> set host"
  shows "list_all field_ok (client_fields host token body)"
proof -
  have "CR \<notin> set (nat_dec n)" for n
    using nat_dec_all_digits(1) [of n] by (auto simp: list_all_iff c_isdigit_def byte_def)
  then show ?thesis
    using assms by (cases token; cases body)
      (auto simp: client_fields_def token_fields_def carried_token_def field_ok_def)
qed

lemma trim_nat_dec: "trim_blanks (CHR '' '' # nat_dec n) = nat_dec n"
proof -
  have digit: "\<not> is_blank c" if "c \<in> set (nat_dec n)" for c
    using that nat_dec_all_digits(1) [of n] by (auto simp: list_all_iff is_blank_def c_isdigit_def byte_def)
  then have "dropWhile is_blank (nat_dec n) = nat_dec n" "dropWhile is_blank (rev (nat_dec n)) = rev (nat_dec n)"
    using nat_dec_all_digits(2) [of n] by (simp_all add: dropWhile_eq_self_iff hd_rev)
  then show ?thesis by (simp add: trim_blanks_def is_blank_def)
qed

lemma lower_names: "lower ''Host'' \<noteq> lower ''Content-Length''" "lower ''Authorization'' \<noteq> lower ''Content-Length''"
  "lower ''Content-Type'' \<noteq> lower ''Content-Length''" "lower ''Host'' \<noteq> lower ''Authorization''"
  "lower ''Content-Type'' \<noteq> lower ''Authorization''" "lower ''Content-Length'' \<noteq> lower ''Authorization''"
  by code_simp+

lemma client_length:
  assumes "\<And>b. body = Some b \<Longrightarrow> int (length b) \<le> LONG_MAX"
  shows "states_length (client_fields host token body) (case body of None \<Rightarrow> 0 | Some b \<Rightarrow> length b)"
  using assms by (cases body; cases token)
    (auto simp: states_length_def field_value_def client_fields_def token_fields_def lower_names trim_nat_dec)

text \<open>What the server compares with its token.\<close>

lemma authorization_value:
  "carried_token token \<Longrightarrow> field_value ''Authorization'' (client_fields host token body) =
    (case token of None \<Rightarrow> None | Some t \<Rightarrow> if t = [] then None else Some (''Bearer '' @ t))"
proof -
  assume tok: "carried_token token"
  have "trim_blanks ('' Bearer '' @ t) = ''Bearer '' @ t" if "token = Some t" "t \<noteq> []" for t
    using tok that by (cases t rule: rev_cases) (auto simp: trim_blanks_def is_blank_def carried_token_def)
  then show ?thesis
    by (cases token; cases body) (auto simp: field_value_def client_fields_def token_fields_def lower_names)
qed

definition bearer :: "string option \<Rightarrow> string \<Rightarrow> bool" where
  "bearer token expect \<longleftrightarrow> expect = [] \<or> token = Some expect"

lemma bearer_carried:
  assumes "carried_token token"
    and find: "\<And>name n. http_find_header (rq_headers req) name n = fitting n (field_value name (client_fields host token body))"
  shows "bearer_ok req expect \<longleftrightarrow> bearer token expect"
proof (cases token)
  case None
  then show ?thesis
    using authorization_value [OF assms(1)] by (simp add: bearer_ok_def bearer_def find fitting_def)
next
  case (Some t)
  have t: "c_str (''Bearer '' @ t) = ''Bearer '' @ t" "length t \<le> 103"
    using assms(1) Some by (simp_all add: carried_token_def TOKEN_FITS_def c_str_def takeWhile_absent)
  show ?thesis
    using authorization_value [OF assms(1), of host body] t Some
    by (auto simp: bearer_ok_def bearer_def find fitting_def CONF_TOKEN_MAX_def c_strncmp_def Let_def)
qed


section \<open>Attempts\<close>

text \<open>The successive attempts: those before the last failed, and the last one's answer is the answer.\<close>

inductive tries :: "(socket list \<Rightarrow> bytes \<times> 'r option \<times> socket list) \<Rightarrow> nat \<Rightarrow> socket list \<Rightarrow> bytes list \<times> 'r option \<times> socket list \<Rightarrow> bool"
  for one where
  answered: "one net = (s, Some r, net') \<Longrightarrow> tries one (Suc n) net ([s], Some r, net')"
| refused: "one net = (s, None, net') \<Longrightarrow> tries one (Suc 0) net ([s], None, net')"
| again: "one net = (s, None, net1) \<Longrightarrow> tries one (Suc n) net1 (ss, r, net') \<Longrightarrow>
    tries one (Suc (Suc n)) net (s # ss, r, net')"

inductive_cases triesE: "tries one n net (sents, Some r, net')"

lemma attempts_tries: "0 < n \<Longrightarrow> tries one n net (request_attempts n one net)"
proof (induction n arbitrary: net)
  case (Suc n)
  obtain s r net1 where one: "one net = (s, r, net1)" by (metis prod_cases3)
  show ?case
  proof (cases r)
    case (Some x)
    then show ?thesis using one answered by simp
  next
    case None
    note no = this
    show ?thesis
    proof (cases n)
      case 0
      then show ?thesis using one no refused by simp
    next
      case (Suc k)
      obtain ss r' net' where rest: "request_attempts n one net1 = (ss, r', net')" by (metis prod_cases3)
      have "tries one (Suc k) net1 (ss, r', net')" using Suc.IH [of net1] rest Suc by simp
      then show ?thesis using again [of one net s net1 k ss r' net'] one no Suc rest by simp
    qed
  qed
qed simp

lemma tries_answered:
  "tries one n net res \<Longrightarrow> res = (sents, Some r, net') \<Longrightarrow>
   \<exists>pre s net1. sents = pre @ [s] \<and> one net1 = (s, Some r, net') \<and> length pre < n"
proof (induction arbitrary: sents rule: tries.induct)
  case (again net s net1 n ss r1 net'')
  then obtain pre s' net2 where "ss = pre @ [s'] \<and> one net2 = (s', Some r, net') \<and> length pre < Suc n" by blast
  then have "s # ss = (s # pre) @ [s'] \<and> one net2 = (s', Some r, net') \<and> length (s # pre) < Suc (Suc n)" by simp
  then show ?case using again.prems by blast
qed auto

text \<open>An attempt that succeeds has sent its request whole and read a response.\<close>

lemma one_request_answered:
  assumes "do_one_request nomem strtod c m p token body net = (sent, Some r, net')"
  obtains so rb where "sent = request_header c m p token body @ (case body of None \<Rightarrow> [] | Some b \<Rightarrow> b)"
    and "length (request_header c m p token body) < 512"
    and "cix_client_connect_raw c net = (Some so, net')"
    and "read_all_response nomem (so_reads so sent) = Some rb" and "read_response nomem strtod (rb_buf rb) = Some r"
proof -
  obtain s0 net1 where s0: "cix_client_connect_raw c net = (s0, net1)" by (metis prod.exhaust)
  then obtain so where so: "cix_client_connect_raw c net = (Some so, net1)"
    using assms by (cases s0) (simp_all add: do_one_request_def)
  let ?h = "request_header c m p token body"
  obtain ok s1 ws where w1: "cix_write_all (so_writes so) ?h = (ok, s1, ws)" by (metis prod_cases3)
  obtain ok2 s2 ws2 where w2: "(case body of None \<Rightarrow> (True, [], ws) | Some b \<Rightarrow> cix_write_all ws b) = (ok2, s2, ws2)"
    by (metis prod_cases3)
  note run = assms [unfolded do_one_request_def so Let_def prod.case option.case w1 w2]
  have fits: "snprintf_fits 512 ?h" and ok: "ok" "ok2"
    using run by (simp_all split: if_splits)
  have s1: "s1 = ?h" using write_all_whole [of "so_writes so" ?h s1 ws] w1 ok(1) by simp
  have s2: "s2 = (case body of None \<Rightarrow> [] | Some b \<Rightarrow> b)" using w2 ok(2) write_all_whole [of ws _ s2 ws2] by (cases body) simp_all
  obtain rb where rb: "read_all_response nomem (so_reads so (s1 @ s2)) = Some rb"
    using run fits ok by (cases "read_all_response nomem (so_reads so (s1 @ s2))") simp_all
  obtain rb' where rb': "read_buf_grow nomem rb 1 = Some rb'"
    using run fits ok rb by (cases "read_buf_grow nomem rb 1") simp_all
  have "rb_buf rb' = rb_buf rb" using rb' by (auto simp: read_buf_grow_def Let_def split: if_splits)
  moreover have "sent = s1 @ s2 \<and> Some r = read_response nomem strtod (rb_buf rb') \<and> net1 = net'"
    using run fits ok rb rb' by simp
  ultimately show thesis using that [of so rb] s1 s2 so rb fits by (simp add: snprintf_fits_def)
qed

lemma request_answered:
  assumes "cix_client_request_with_auth nomem strtod c m p token body net = (sents, Some r, net')"
  obtains net1 where "sents \<noteq> []" and "length sents \<le> CIX_CLIENT_MAX_ATTEMPTS"
    and "do_one_request nomem strtod c m p token body net1 = (last sents, Some r, net')"
proof -
  let ?one = "do_one_request nomem strtod c m p token body"
  have "tries ?one CIX_CLIENT_MAX_ATTEMPTS net (sents, Some r, net')"
    using attempts_tries [of CIX_CLIENT_MAX_ATTEMPTS ?one net] assms [unfolded cix_client_request_with_auth_def]
    by (metis CIX_CLIENT_MAX_ATTEMPTS_def zero_less_numeral)
  from tries_answered [OF this refl]
  obtain pre s net1 where "sents = pre @ [s]" "?one net1 = (s, Some r, net')" "length pre < CIX_CLIENT_MAX_ATTEMPTS"
    by (elim exE conjE)
  then show thesis using that [of net1] by simp
qed

lemma request_heard:
  assumes "cix_client_request_with_auth nomem strtod c m p token body net = (sents, Some r, net')"
    and "token_ok HTTP_MAX_METHOD m" and "token_ok HTTP_MAX_PATH p" and "CR \<notin> set (cl_host c)" and "carried_token token"
    and "length (case body of None \<Rightarrow> [] | Some b \<Rightarrow> b) < 2 ^ 30"
  shows "\<exists>h h' req. http_conn_feed (\<lambda>_. False) http_conn_init (last sents) = Inr h
    \<and> http_conn_try_parse h = (1, h', Some req)
    \<and> rq_method req = m \<and> rq_path req = p \<and> rq_body req = (case body of None \<Rightarrow> [] | Some b \<Rightarrow> b)
    \<and> rq_content_length req = int (length (rq_body req))
    \<and> (\<forall>expect. bearer_ok req expect \<longleftrightarrow> bearer token expect)"
proof -
  let ?b = "case body of None \<Rightarrow> [] | Some b \<Rightarrow> b" and ?fs = "client_fields (cl_host c) token body"
  obtain net1 where one: "do_one_request nomem strtod c m p token body net1 = (last sents, Some r, net')"
    by (rule request_answered [OF assms(1)])
  obtain so rb where sent: "last sents = request_header c m p token body @ ?b"
    and short: "length (request_header c m p token body) < 512"
    by (rule one_request_answered [OF one])
  have whole: "last sents = request_text m p ''HTTP/1.1'' ?fs ?b"
    using sent request_header_text [OF assms(5)] by simp
  have ver: "CR \<notin> set ''HTTP/1.1''" by simp
  have n: "states_length ?fs (length ?b)"
    using client_length [of body "cl_host c" token] assms(6) by (cases body) (auto simp: LONG_MAX_def)
  have "length (request_text m p ''HTTP/1.1'' ?fs ?b) < 512 + 2 ^ 30"
    using short assms(6) sent whole by (metis add_mono_thms_linordered_field(5) length_append)
  then have len: "length (request_text m p ''HTTP/1.1'' ?fs ?b) < 2 ^ 31" by simp
  have "length (request_text m p ''HTTP/1.1'' ?fs ?b) = length (request_header c m p token body) + length ?b"
    using sent whole by (metis length_append)
  then have hdr: "length (m @ p @ ''HTTP/1.1'' @ field_lines ?fs) + 6 \<le> HTTP_MAX_HEADERS"
    using short by (simp add: request_text_def HTTP_MAX_HEADERS_def)
  obtain h h' req where h: "http_conn_feed (\<lambda>_. False) http_conn_init (last sents) = Inr h"
    "http_conn_try_parse h = (1, h', Some req)" "rq_method req = m" "rq_path req = p"
    "rq_content_length req = int (length ?b)" "rq_body req = ?b"
    "\<And>name size. http_find_header (rq_headers req) name size = fitting size (field_value name ?fs)"
    using request_reads_back [OF assms(2,3) ver client_fields_ok [OF assms(5,4)] n hdr len, folded whole] by blast
  then show ?thesis using bearer_carried [OF assms(5) h(7)] by auto
qed



text \<open>A peer that takes everything and answers in two pieces, and one that refuses the connection.\<close>

definition sample_head :: string where
  "sample_head = ''HTTP/1.1 204 No Content'' @ [CR, LF] @ ''Content-Type: application/json'' @ [CR, LF]
     @ ''Content-Length: 0'' @ [CR, LF] @ ''Connection: close'' @ [CR, LF, CR, LF]"

definition answering_socket :: socket where
  "answering_socket =
     \<lparr>so_accepts = (\<lambda>host port. port = 8080), so_writes = [Wrote 7, Write_Intr],
      so_reads = (\<lambda>sent. [Read_Data (take 10 sample_head), Read_Intr, Read_Data (drop 10 sample_head)])\<rparr>"

definition refusing_socket :: socket where
  "refusing_socket = \<lparr>so_accepts = (\<lambda>_ _. False), so_writes = [], so_reads = (\<lambda>_. [])\<rparr>"

definition sample_client :: cix_client where
  "sample_client = cix_client_init ''127.0.0.1'' 8080"

definition sample_exchange :: "bytes list \<times> int cix_response option \<times> socket list" where
  "sample_exchange = cix_client_request_with_auth (\<lambda>_. False) whole_strtod sample_client ''DELETE'' ''/z-1.iso''
     (Some ''tok'') None [refusing_socket, answering_socket, refusing_socket]"

lemma sample_exchange_answered:
  obtains r net' where "sample_exchange =
    ([[], request_header sample_client ''DELETE'' ''/z-1.iso'' (Some ''tok'') None], Some r, net')"
proof -
  have "fst sample_exchange = [[], request_header sample_client ''DELETE'' ''/z-1.iso'' (Some ''tok'') None]"
    and "map_option rs_status (fst (snd sample_exchange)) = Some 204"
    by code_simp+
  moreover from this(2) obtain r where "fst (snd sample_exchange) = Some r" by auto
  ultimately show thesis using that [of r "snd (snd sample_exchange)"] by (metis prod.collapse)
qed


section \<open>Responses\<close>

text \<open>What a peer sends in pieces that fit the room a read always has, with interruptions.\<close>

fun piece :: "read_result \<Rightarrow> bytes" where
  "piece (Read_Data d) = d"
| "piece _ = []"

definition delivered :: "read_result list \<Rightarrow> bytes" where
  "delivered rs = concat (map piece rs)"

definition arrives :: "read_result list \<Rightarrow> bool" where
  "arrives rs \<longleftrightarrow> (\<forall>r \<in> set rs. r = Read_Intr \<or> (\<exists>d. r = Read_Data d \<and> d \<noteq> [] \<and> length d \<le> 4096))"

lemma read_buf_grow_plenty:
  assumes "length (rb_buf rb) \<le> rb_cap rb" and "read_buf_grow nomem rb k = Some rb'"
  shows "rb_buf rb' = rb_buf rb" and "length (rb_buf rb) + k \<le> rb_cap rb'"
proof -
  have ge: "need \<le> grow_cap need (if rb_cap rb \<noteq> 0 then rb_cap rb * 2 else 4096)" for need
    by (intro grow_cap_ge) auto
  show "rb_buf rb' = rb_buf rb" "length (rb_buf rb) + k \<le> rb_cap rb'"
    using assms(2) ge [of "length (rb_buf rb) + k"] by (auto simp: read_buf_grow_def Let_def split: if_splits)
qed

lemma read_loop_delivers:
  "arrives rs \<Longrightarrow> length (rb_buf rb) \<le> rb_cap rb \<Longrightarrow>
   \<exists>rb'. read_loop (\<lambda>_. False) rs rb = Some rb' \<and> rb_buf rb' = rb_buf rb @ delivered rs"
proof (induction rs arbitrary: rb)
  case Nil
  then show ?case by (auto simp: read_buf_grow_def Let_def delivered_def)
next
  case (Cons r rs)
  obtain rb1 where rb1: "read_buf_grow (\<lambda>_. False) rb 4096 = Some rb1"
    by (cases "length (rb_buf rb) + 4096 \<le> rb_cap rb") (simp_all add: read_buf_grow_def Let_def)
  note grown = read_buf_grow_plenty [OF Cons.prems(2) rb1]
  have rs: "arrives rs" using Cons.prems(1) by (simp add: arrives_def)
  consider "r = Read_Intr" | d where "r = Read_Data d" "d \<noteq> []" "length d \<le> 4096"
    using Cons.prems(1) by (auto simp: arrives_def)
  then show ?case
  proof cases
    case 1
    then show ?thesis using Cons.IH [OF rs, of rb1] grown rb1 by (auto simp: delivered_def)
  next
    case 2
    then have chunk: "take (rb_cap rb1 - length (rb_buf rb1)) d = d" using grown by simp
    have room: "length (rb_buf (rb1\<lparr>rb_buf := rb_buf rb1 @ d\<rparr>)) \<le> rb_cap (rb1\<lparr>rb_buf := rb_buf rb1 @ d\<rparr>)"
      using 2 grown by simp
    show ?thesis using Cons.IH [OF rs room] 2 grown rb1 chunk by (auto simp: delivered_def Let_def)
  qed
qed

lemma read_all_delivers:
  "arrives rs \<Longrightarrow> \<exists>rb. read_all_response (\<lambda>_. False) rs = Some rb \<and> rb_buf rb = delivered rs"
  using read_loop_delivers [of rs "\<lparr>rb_buf = [], rb_cap = 0\<rparr>"] by (simp add: read_all_response_def)

lemma line_end_field:
  assumes "CR \<notin> set line" and "rest = [] \<or> (\<exists>r. rest = CR # LF # r)"
  shows "line_end (line @ rest) = length line"
proof -
  have "find_sub [CR, LF] line = None" using assms(1) by (induction line) auto
  then show ?thesis
    using assms find_sub_append [OF assms(1), of "[LF]"] by (auto simp: line_end_def)
qed

lemma value_loop_first:
  assumes "field_ok f" and "lower (fst f) = lower name" and "rest = [] \<or> (\<exists>r. rest = CR # LF # r)"
  shows "value_loop name n (field_line f @ rest) = take (n - 1) (dropWhile (\<lambda>c. c = CHR '' '') (snd f))"
proof -
  have ne: "(field_line f @ rest = []) = False" by (simp add: field_line_def)
  have le: "line_end (field_line f @ rest) = length (field_line f)"
    by (rule line_end_field [OF field_line_no_CR [OF assms(1)] assms(3)])
  have val: "drop (length (fst f) + 1) (field_line f) = snd f" "take (length (fst f)) (field_line f) = fst f"
    by (simp_all add: field_line_def)
  have tk: "take (length (field_line f)) (field_line f @ rest) = field_line f" by simp
  show ?thesis
    unfolding value_loop.simps [of name n "field_line f @ rest", unfolded ne if_False le tk Let_def find_colon [OF assms(1)]
        option.case val]
    using assms(2) lower_eq_length [OF assms(2)] by simp
qed

text \<open>The block the server formats, as lines.\<close>

definition extra_lines :: "field list \<Rightarrow> string" where
  "extra_lines fs = concat (map (\<lambda>f. field_line f @ [CR, LF]) fs)"

lemma extra_lines_fields: "[CR, LF] @ extra_lines fs = field_lines fs @ [CR, LF]"
  by (induction fs) (simp_all add: extra_lines_def field_lines_def)

definition response_fields :: "string \<Rightarrow> int \<Rightarrow> field list \<Rightarrow> field list" where
  "response_fields ctype len fs =
     [(''Content-Type'', '' '' @ ctype), (''Content-Length'', '' '' @ int_dec len), (''Connection'', '' close'')] @ fs"

definition status_line :: "int \<Rightarrow> string \<Rightarrow> string" where
  "status_line status text = ''HTTP/1.1 '' @ int_dec status @ '' '' @ text"

lemma format_header_lines:
  "http_format_header n status text ctype len (extra_lines fs) = Some hdr \<Longrightarrow>
   hdr = status_line status text @ field_lines (response_fields ctype len fs) @ [CR, LF, CR, LF]"
  using extra_lines_fields [of fs]
  by (auto simp: http_format_header_def Let_def status_line_def response_fields_def field_lines_Cons field_line_def
      split: if_splits)

text \<open>A text that can stand in a header line; a content type the client has room for.\<close>

definition header_text :: "string \<Rightarrow> bool" where
  "header_text s \<longleftrightarrow> CR \<notin> set s \<and> NUL \<notin> set s"

definition content_type_fits :: "string \<Rightarrow> bool" where
  "content_type_fits t \<longleftrightarrow> header_text t \<and> t \<noteq> [] \<and> hd t \<noteq> CHR '' '' \<and> length t < CIX_CONTENT_TYPE_MAX"

definition plain_fields :: "field list \<Rightarrow> bool" where
  "plain_fields fs \<longleftrightarrow> list_all (\<lambda>f. field_ok f \<and> NUL \<notin> set (fst f) \<and> NUL \<notin> set (snd f)) fs"

lemma int_dec_chars: "c \<in> set (int_dec i) \<Longrightarrow> c_isdigit c \<or> c = CHR ''-''"
  using nat_dec_all_digits(1) by (auto simp: int_dec_def list_all_iff split: if_splits)

lemma int_dec_plain: "CR \<notin> set (int_dec i)" "NUL \<notin> set (int_dec i)"
  using int_dec_chars [of CR i] int_dec_chars [of NUL i] by (auto simp: c_isdigit_def byte_def)

lemma response_fields_plain:
  "header_text ctype \<Longrightarrow> plain_fields fs \<Longrightarrow> plain_fields (response_fields ctype len fs)"
  by (auto simp: plain_fields_def response_fields_def field_ok_def header_text_def int_dec_plain)

lemma plain_fields_text:
  "plain_fields fs \<Longrightarrow> NUL \<notin> set (field_lines fs)" "plain_fields fs \<Longrightarrow> list_all field_ok fs"
  by (induction fs) (auto simp: plain_fields_def field_lines_Cons field_line_def, simp add: field_lines_def)

lemma response_heard:
  assumes "http_format_header n status text ctype len (extra_lines fs) = Some hdr"
    and "0 \<le> status" and "status < 2 ^ 31" and "header_text text" and "content_type_fits ctype" and "plain_fields fs"
    and "arrives rs" and "delivered rs = hdr @ body"
  shows "\<exists>rb. read_all_response (\<lambda>_. False) rs = Some rb
    \<and> read_response (\<lambda>_. False) strtod (rb_buf rb) =
        Some \<lparr>rs_status = status, rs_content_type = ctype, rs_body = (if body = [] then None else Some body),
              rs_json = (if body = [] then None else json_parse strtod body)\<rparr>"
proof -
  let ?line = "status_line status text" and ?fs = "response_fields ctype len fs"
  let ?head = "?line @ field_lines ?fs"
  have ct: "header_text ctype" using assms(5) by (simp add: content_type_fits_def)
  note plain = response_fields_plain [OF ct assms(6), of len]
  have hdr: "hdr @ body = ?head @ [CR, LF, CR, LF] @ body" using format_header_lines [OF assms(1)] by simp
  have noCR: "CR \<notin> set ?line" and noNUL: "NUL \<notin> set ?line"
    using assms(4) by (auto simp: status_line_def header_text_def int_dec_plain)
  have prefix: "NUL \<notin> set u \<Longrightarrow> c_str (u @ v) = u @ c_str v" for u v
    by (induction u) (auto simp: c_str_def)
  have cs: "c_str (hdr @ body) = ?head @ [CR, LF, CR, LF] @ c_str body"
    unfolding hdr using prefix [of "?head @ [CR, LF, CR, LF]" body] noNUL plain_fields_text(1) [OF plain] by simp
  have dec: "int_dec status = nat_dec (nat status)" using assms(2) by (simp add: int_dec_def)
  obtain d ds where num: "nat_dec (nat status) = d # ds" "c_isdigit d"
    using digits_head [OF nat_dec_all_digits, of "nat status"] by blast
  have small: "nat status < 2 ^ 31" using assms(3) by (simp add: nat_less_iff)
  have scan: "scan_int (scan_space ('' '' @ nat_dec (nat status) @ '' '' @ r)) = Some (status, '' '' @ r)" for r
  proof -
    have "scan_space ('' '' @ nat_dec (nat status) @ '' '' @ r) = nat_dec (nat status) @ '' '' @ r"
      using num c_isdigit_not_sign [OF num(2)] by (simp add: scan_space_def) (simp add: c_isspace_def byte_def)
    then show ?thesis using scan_int_nat_dec [OF small, of "'' '' @ r"] assms(2) by (simp add: c_isdigit_def byte_def)
  qed
  have status: "scan_status (hdr @ body) = Some status"
    using scan by (simp add: scan_status_def cs status_line_def dec)
  have blank: "find_sub [CR, LF, CR, LF] (c_str (hdr @ body)) = Some (length ?head)"
    using find_sub_skip [OF noCR, of "[LF, CR, LF]"] find_blank_line [OF plain_fields_text(2) [OF plain], of "c_str body"]
    by (simp add: cs)
  have "field_lines ?fs = [] \<or> (\<exists>r. field_lines ?fs = CR # LF # r)" by (rule field_lines_cases)
  then have le: "line_end ?head = length ?line" by (rule line_end_field [OF noCR])
  obtain f gs where f: "?fs = f # gs" "f = (''Content-Type'', '' '' @ ctype)" by (simp add: response_fields_def)
  have fields: "drop 2 (field_lines ?fs) = field_line f @ field_lines gs" using f(1) by (simp add: field_lines_Cons)
  have "find_header_value ?head ''Content-Type'' CIX_CONTENT_TYPE_MAX = ctype"
  proof -
    have "field_ok f" using plain_fields_text(2) [OF plain] f(1) by simp
    then have "value_loop ''Content-Type'' CIX_CONTENT_TYPE_MAX (field_line f @ field_lines gs)
        = take (CIX_CONTENT_TYPE_MAX - 1) (dropWhile (\<lambda>c. c = CHR '' '') (snd f))"
      by (rule value_loop_first) (simp_all add: f(2) field_lines_cases)
    also have "\<dots> = ctype" using assms(5) by (cases ctype) (auto simp: f(2) content_type_fits_def)
    finally show ?thesis by (simp add: find_header_value_def le fields)
  qed
  then have ctype: "find_header_value (take (length ?head) (hdr @ body)) ''Content-Type'' CIX_CONTENT_TYPE_MAX = ctype"
    by (simp add: hdr)
  have rest: "drop (length ?head + 4) (hdr @ body) = body" by (simp add: hdr)
  obtain rb where rb: "read_all_response (\<lambda>_. False) rs = Some rb" "rb_buf rb = hdr @ body"
    using read_all_delivers [OF assms(7)] assms(8) by auto
  have "read_response (\<lambda>_. False) strtod (hdr @ body) =
      Some \<lparr>rs_status = status, rs_content_type = ctype, rs_body = (if body = [] then None else Some body),
            rs_json = (if body = [] then None else json_parse strtod body)\<rparr>"
    unfolding read_response_def status blank option.case rest ctype Let_def by simp
  then show ?thesis using rb by auto
qed

text \<open>
  C30. The client understands the server: of a response formatted by the server and arriving in pieces of any
  size, with interruptions, the client reads the status, the content type and the body the server wrote,
  and parses the body as the JSON it is.
\<close>

theorem response_read_back:
  assumes "http_format_header n status text ctype len (extra_lines fs) = Some hdr"
    and "0 \<le> status" and "status < 2 ^ 31" and "header_text text" and "content_type_fits ctype" and "plain_fields fs"
    and "arrives rs" and "delivered rs = hdr @ body"
  shows "\<exists>rb. read_all_response (\<lambda>_. False) rs = Some rb
    \<and> read_response (\<lambda>_. False) strtod (rb_buf rb) =
        Some \<lparr>rs_status = status, rs_content_type = ctype, rs_body = (if body = [] then None else Some body),
              rs_json = (if body = [] then None else json_parse strtod body)\<rparr>"
  by (rule response_heard [OF assms])


theorem response_read_back_witness:
  "\<exists>rb. read_all_response (\<lambda>_. False) (so_reads answering_socket []) = Some rb
    \<and> map_option rs_status (read_response (\<lambda>_. False) whole_strtod (rb_buf rb)) = Some 204"
proof -
  have fmt: "http_format_header 512 204 ''No Content'' ''application/json'' 0 (extra_lines []) = Some sample_head"
    by code_simp
  have ok: "0 \<le> (204 :: int)" "(204 :: int) < 2 ^ 31" "header_text ''No Content''" "content_type_fits ''application/json''"
    "plain_fields []" "arrives (so_reads answering_socket [])"
    "delivered (so_reads answering_socket []) = sample_head @ []"
    by (simp_all add: header_text_def content_type_fits_def CIX_CONTENT_TYPE_MAX_def plain_fields_def answering_socket_def
        arrives_def sample_head_def delivered_def)
  show ?thesis using response_read_back [OF fmt ok, of whole_strtod] by auto
qed

section \<open>What is tried\<close>

lemma connect_next: "snd (cix_client_connect_raw c net) = drop 1 net"
  by (cases net) (simp_all add: cix_client_connect_raw_def)

lemma one_request_shape:
  assumes "do_one_request nomem strtod c m p token body net = (sent, r, net')"
  shows "net' = drop 1 net"
    and "\<exists>rest. sent @ rest = request_header c m p token body @ (case body of None \<Rightarrow> [] | Some b \<Rightarrow> b)"
proof -
  let ?h = "request_header c m p token body"
  obtain s0 net1 where s0: "cix_client_connect_raw c net = (s0, net1)" by (metis prod.exhaust)
  have net1: "net1 = drop 1 net" using connect_next [of c net] s0 by simp
  have "net' = net1 \<and> (\<exists>rest. sent @ rest = ?h @ (case body of None \<Rightarrow> [] | Some b \<Rightarrow> b))"
  proof (cases s0)
    case None
    then show ?thesis using assms s0 by (simp add: do_one_request_def)
  next
    case (Some so)
    note so = this
    obtain ok s1 ws where w1: "cix_write_all (so_writes so) ?h = (ok, s1, ws)" by (metis prod_cases3)
    obtain ok2 s2 ws2 where w2: "(case body of None \<Rightarrow> (True, [], ws) | Some b \<Rightarrow> cix_write_all ws b) = (ok2, s2, ws2)"
      by (metis prod_cases3)
    note run = assms [unfolded do_one_request_def s0 so Let_def prod.case option.case w1 w2]
    obtain t1 where t1: "?h = s1 @ t1" "ok \<longrightarrow> t1 = []" using write_all_sent [OF w1] by blast
    have "\<exists>t2. (case body of None \<Rightarrow> [] | Some b \<Rightarrow> b) = s2 @ t2"
      using w2 write_all_sent [of ws _ ok2 s2 ws2] by (cases body) auto
    then obtain t2 where t2: "(case body of None \<Rightarrow> [] | Some b \<Rightarrow> b) = s2 @ t2" by blast
    show ?thesis
    proof (cases "snprintf_fits 512 ?h \<and> ok")
      case True
      then have "sent = s1 @ s2 \<and> net' = net1" using run by (simp split: if_splits option.splits)
      then show ?thesis using t1 t2 True by auto
    next
      case False
      then have "(sent = [] \<or> sent = s1) \<and> net' = net1" using run by (auto split: if_splits)
      then show ?thesis using t1(1) by auto
    qed
  qed
  then show "net' = drop 1 net" "\<exists>rest. sent @ rest = ?h @ (case body of None \<Rightarrow> [] | Some b \<Rightarrow> b)"
    using net1 by simp_all
qed

lemma tries_shape:
  assumes step: "\<And>net s r net'. one net = (s, r, net') \<Longrightarrow> net' = drop 1 net \<and> P s"
  shows "tries one n net res \<Longrightarrow> res = (sents, r, net') \<Longrightarrow>
    sents \<noteq> [] \<and> length sents \<le> n \<and> (r = None \<longrightarrow> length sents = n) \<and> net' = drop (length sents) net
    \<and> (\<forall>s \<in> set sents. P s)
    \<and> (\<forall>i < length sents. fst (snd (one (drop i net))) = (if Suc i = length sents then r else None))"
proof (induction arbitrary: sents r net' rule: tries.induct)
  case (again net s net1 n ss r1 net2)
  have n1: "net1 = drop 1 net" "P s" using step [OF again.hyps(1)] by simp_all
  have eq: "sents = s # ss" "r = r1" "net' = net2" using again.prems by simp_all
  have rest: "ss \<noteq> []" "length ss \<le> Suc n" "r1 = None \<longrightarrow> length ss = Suc n" "net2 = drop (length ss) net1"
    "\<forall>s \<in> set ss. P s" "\<forall>i < length ss. fst (snd (one (drop i net1))) = (if Suc i = length ss then r1 else None)"
    using again.IH [OF refl] by blast+
  have "fst (snd (one (drop i net))) = (if Suc i = length (s # ss) then r1 else None)" if "i < length (s # ss)" for i
  proof (cases i)
    case 0
    then show ?thesis using again.hyps(1) rest(1) by simp
  next
    case (Suc j)
    then have "drop i net = drop j net1" using n1(1) by simp
    then show ?thesis using rest(6) that Suc by auto
  qed
  then show ?case using rest n1 unfolding eq by (auto simp del: fst_conv snd_conv)
qed (use step in \<open>fastforce+\<close>)

lemma request_attempts_shape:
  assumes "cix_client_request_with_auth nomem strtod c m p token body net = (sents, r, net')"
  shows "1 \<le> length sents \<and> length sents \<le> 3 \<and> (r = None \<longrightarrow> length sents = 3) \<and> net' = drop (length sents) net
    \<and> (\<forall>s \<in> set sents. \<exists>rest. s @ rest = request_header c m p token body @ (case body of None \<Rightarrow> [] | Some b \<Rightarrow> b))
    \<and> (\<forall>i < length sents. fst (snd (do_one_request nomem strtod c m p token body (drop i net))) =
        (if i = length sents - 1 then r else None))"
proof -
  let ?one = "do_one_request nomem strtod c m p token body"
  let ?P = "\<lambda>s. \<exists>rest. s @ rest = request_header c m p token body @ (case body of None \<Rightarrow> [] | Some b \<Rightarrow> b)"
  have step: "\<And>net s r net'. ?one net = (s, r, net') \<Longrightarrow> net' = drop 1 net \<and> ?P s"
    using one_request_shape [of nomem strtod c m p token body] by metis
  have tried: "tries ?one 3 net (sents, r, net')"
    using attempts_tries [of 3 ?one net] assms [unfolded cix_client_request_with_auth_def CIX_CLIENT_MAX_ATTEMPTS_def]
    by (metis zero_less_numeral)
  have shape: "sents \<noteq> [] \<and> length sents \<le> 3 \<and> (r = None \<longrightarrow> length sents = 3) \<and> net' = drop (length sents) net
    \<and> (\<forall>s \<in> set sents. ?P s)
    \<and> (\<forall>i < length sents. fst (snd (?one (drop i net))) = (if Suc i = length sents then r else None))"
    by (rule tries_shape [where P = ?P, OF _ tried refl]) (rule step)
  have "1 \<le> length sents" using shape by (cases sents) auto
  moreover have "fst (snd (?one (drop i net))) = (if i = length sents - 1 then r else None)" if "i < length sents" for i
    using shape that by auto
  ultimately show ?thesis using shape by blast
qed

text \<open>
  C31. A request is tried as documented: at most three times, all attempts sending (a prefix of) one and the
  same text; the next attempt is made only when the one before has got no response, so that the result is
  the first response there is, and no result means three failures.
\<close>

theorem request_retries:
  assumes "cix_client_request_with_auth nomem strtod c m p token body net = (sents, r, net')"
  defines "outcome \<equiv> \<lambda>i. fst (snd (do_one_request nomem strtod c m p token body (drop i net)))"
  shows "1 \<le> length sents \<and> length sents \<le> 3 \<and> (r = None \<longrightarrow> length sents = 3) \<and> net' = drop (length sents) net
    \<and> (\<forall>s \<in> set sents. \<exists>rest. s @ rest = request_header c m p token body @ (case body of None \<Rightarrow> [] | Some b \<Rightarrow> b))
    \<and> (\<forall>i < length sents. outcome i = (if i = length sents - 1 then r else None))"
  using request_attempts_shape [OF assms(1)] unfolding outcome_def .

theorem request_retries_witness:
  "fst (snd (do_one_request (\<lambda>_. False) whole_strtod sample_client ''DELETE'' ''/z-1.iso'' (Some ''tok'') None
      [refusing_socket, answering_socket, refusing_socket])) = None"
proof -
  obtain r net' where run: "sample_exchange =
      ([[], request_header sample_client ''DELETE'' ''/z-1.iso'' (Some ''tok'') None], Some r, net')"
    by (rule sample_exchange_answered)
  have two: "0 < length [[], request_header sample_client ''DELETE'' ''/z-1.iso'' (Some ''tok'') None]"
    "0 \<noteq> length [[], request_header sample_client ''DELETE'' ''/z-1.iso'' (Some ''tok'') None] - 1"
    by simp_all
  show ?thesis using request_retries [OF run [unfolded sample_exchange_def]] two by (metis drop0)
qed

section \<open>Long tokens\<close>

lemma find_blank_none: "list_all field_ok fs \<Longrightarrow> find_sub [CR, LF, CR, LF] (field_lines fs @ [CR, LF]) = None"
proof (induction fs)
  case (Cons f fs)
  have noCR: "CR \<notin> set (field_line f)" using Cons.prems field_line_no_CR by simp
  have "\<exists>c cs. field_line f = c # cs \<and> c \<noteq> CR"
    using noCR by (cases "field_line f") (auto, simp add: field_line_def)
  then obtain c cs where line: "field_line f = c # cs" "c \<noteq> CR" by blast
  have "find_sub [CR, LF, CR, LF] (CR # LF # field_line f @ x) =
      map_option (Suc \<circ> Suc) (find_sub [CR, LF, CR, LF] (field_line f @ x))" for x
    using line by (simp add: option.map_comp comp_assoc)
  then show ?case
    using find_sub_skip [OF noCR, of "[LF, CR, LF]"] Cons by (simp add: field_lines_Cons)
qed (simp add: field_lines_def)



end
