(* ===== verification/Cli.thy ===== *)
theory Cli
  imports Client
begin

text \<open>
  The command-line tool (\<^verbatim>\<open>src/cli/src/main.c\<close>): its commands, what they send to the server, what they print and
  the exit code. A JSON number is a \<open>double\<close>, of type \<open>'n\<close>; its conversions are parameters, as is
  the time zone.
\<close>

section \<open>Surroundings\<close>

text \<open>
  \<open>ce_open\<close>: the text of the error with which a file fails to open, or its size, if it can be had, and
  what the reads of it return. \<open>ce_local_date\<close> and \<open>ce_local_time\<close>: a time in seconds in the local time zone, as
  \<^verbatim>\<open>%Y-%m-%d\<close> and \<^verbatim>\<open>%H:%M:%S\<close>. \<open>ce_double\<close>: the conversions of a \<open>double\<close>, from text and to \<open>long long\<close>.
\<close>

record 'n cli_env =
  ce_tty_out :: bool
  ce_tty_err :: bool
  ce_PAGER :: "string option"
  ce_popen :: "string \<Rightarrow> bool"
  ce_nomem :: "nat \<Rightarrow> bool"
  ce_open :: "string \<Rightarrow> string + int option \<times> read_result list"
  ce_strtod :: "string \<Rightarrow> 'n"
  ce_zero :: 'n
  ce_to_ll :: "'n \<Rightarrow> int"
  ce_as_int :: "'n \<Rightarrow> int option"
  ce_fmt2f :: "'n \<Rightarrow> string"
  ce_local_date :: "int \<Rightarrow> string"
  ce_local_time :: "int \<Rightarrow> string"

datatype sink = Stdout | Stderr | Pager string

type_synonym printed = "(sink \<times> string) list"

text \<open>
  What a command does: its exit code, what it prints where, what it sends on each connection, the sockets left,
  and whether it has written outside a buffer, after which nothing is claimed.
\<close>

record cli_result =
  cr_exit :: int
  cr_output :: printed
  cr_sent :: "bytes list"
  cr_net :: "socket list"
  cr_undefined :: bool

definition out_open :: "'n cli_env \<Rightarrow> bool \<Rightarrow> sink" where
  "out_open env paged =
     (if \<not> paged \<or> \<not> ce_tty_out env then Stdout
      else
        (let pager = (case ce_PAGER env of Some p \<Rightarrow> if p = [] then ''less -FRX'' else p | None \<Rightarrow> ''less -FRX'')
         in if ce_popen env pager then Pager pager else Stdout))"

section \<open>Numbers\<close>

text \<open>A non-negative number as a \<open>double\<close>: rounded to 53 bits, a tie to the even one.\<close>

definition round_even :: "int \<Rightarrow> int \<Rightarrow> int" where
  "round_even a b =
     (let q = a div b; r = a mod b in if 2 * r < b \<or> 2 * r = b \<and> even q then q else q + 1)"

function excess_bits :: "nat \<Rightarrow> nat" where
  "excess_bits n = (if n < 2 ^ 53 then 0 else Suc (excess_bits (n div 2)))"
  by pat_completeness auto
termination
  by (relation "measure id") auto

declare excess_bits.simps [simp del]

definition to_double :: "int \<Rightarrow> int" where
  "to_double n = (let b = 2 ^ excess_bits (nat n) in round_even n b * b)"

text \<open>The loop: \<open>v\<close> is \<open>d / 1024 ^ i\<close>, which a \<open>double\<close> holds exactly.\<close>

function unit_loop :: "int \<Rightarrow> nat \<Rightarrow> nat" where
  "unit_loop d i = (if d \<ge> 1024 * 1024 ^ i \<and> i < 4 then unit_loop d (i + 1) else i)"
  by pat_completeness auto
termination
  by (relation "measure (\<lambda>(d, i). 4 - i)") auto

declare unit_loop.simps [simp del]

definition byte_units :: "string list" where
  "byte_units = [''B'', ''K'', ''M'', ''G'', ''T'']"

definition human_bytes :: "int \<Rightarrow> nat \<Rightarrow> string" where
  "human_bytes n out_size =
     (let d = (if n < 0 then n else to_double n); i = unit_loop d 0
      in if i = 0 then snprintf out_size (int_dec n @ byte_units ! i)
         else
           (let tenths = round_even (10 * d) (1024 ^ i)
            in snprintf out_size (int_dec (tenths div 10) @ ''.'' @ int_dec (tenths mod 10) @ byte_units ! i)))"

section \<open>Fields of the response\<close>

definition str_field :: "'n json_value option \<Rightarrow> string \<Rightarrow> string" where
  "str_field v key = (case json_as_string (json_object_get v key) of Some s \<Rightarrow> s | None \<Rightarrow> [])"

definition int_field :: "'n cli_env \<Rightarrow> 'n json_value option \<Rightarrow> string \<Rightarrow> int" where
  "int_field env v key = ce_to_ll env (json_as_number (ce_zero env) (json_object_get v key))"

definition bool_field :: "'n json_value option \<Rightarrow> string \<Rightarrow> bool" where
  "bool_field v key = (case json_object_get v key of Some (JSON_BOOL b) \<Rightarrow> b | _ \<Rightarrow> False)"

text \<open>What is printed, and whether the writer left its arrays.\<close>

definition print_raw_json :: "'n cli_env \<Rightarrow> 'n json_value option \<Rightarrow> printed \<times> bool" where
  "print_raw_json env v =
     (case v of
        None \<Rightarrow> ([], False)
      | Some j \<Rightarrow>
          (let w = jw_value (ce_as_int env) (ce_fmt2f env) jw_init j
           in ([(Stdout, jw_buf w @ [LF])], jw_overrun w)))"

text \<open>A formatter: whether it has written outside a buffer, and what it prints.\<close>

type_synonym 'n formatter = "'n json_value option \<Rightarrow> bool \<times> string"

definition emit ::
  "'n cli_env \<Rightarrow> sink \<Rightarrow> 'n cix_response \<Rightarrow> bool \<Rightarrow> 'n formatter option \<Rightarrow> int \<times> printed \<times> bool" where
  "emit env g_out r json_mode fmt =
     (if rs_status r < 200 \<or> rs_status r \<ge> 300 then
        (let msg = (case json_as_string (json_object_get (rs_json r) ''error'') of
                      Some m \<Rightarrow> m | None \<Rightarrow> ''request failed'')
         in (1, [(Stderr, ''cixcachectl: '' @ msg @ '' (HTTP '' @ int_dec (rs_status r) @ '')'' @ [LF])], False))
      else case fmt of
        Some f \<Rightarrow>
          (if json_mode then (0, print_raw_json env (rs_json r))
           else (case f (rs_json r) of (bad, text) \<Rightarrow> (0, [(g_out, text)], bad)))
      | None \<Rightarrow> (0, print_raw_json env (rs_json r)))"

section \<open>Formatters\<close>

definition fmt_build :: "'n cli_env \<Rightarrow> 'n json_value option \<Rightarrow> string" where
  "fmt_build env b =
     (if b = None then []
      else ''build:     '' @ str_field b ''artifact'' @ '' '' @ str_field b ''version'' @ '' rel ''
           @ int_dec (int_field env b ''release'') @ '' '' @ str_field b ''arch''
           @ (if bool_field b ''dirty'' then ''  (dirty tree)'' else []) @ [LF]
           @ ''built:     '' @ str_field b ''time'' @ [LF])"

definition fmt_status :: "'n cli_env \<Rightarrow> 'n formatter" where
  "fmt_status env v =
     (let num = (\<lambda>key. int_dec (int_field env v key))
      in (False,
          fmt_build env (json_object_get v ''build'')
          @ ''root:      '' @ str_field v ''root'' @ [LF]
          @ ''uptime:    '' @ num ''uptime_seconds'' @ ''s'' @ [LF]
          @ ''requests:  '' @ num ''requests'' @ [LF]
          @ ''lookups:   '' @ num ''artifact_hits'' @ '' hit, '' @ num ''artifact_misses'' @ '' missed'' @ [LF]
          @ (if int_field env v ''artifact_aliases'' > 0
             then ''aliases:   '' @ num ''artifact_aliases'' @ '' served under a non-canonical name'' @ [LF] else [])
          @ ''served:    '' @ num ''served_bytes'' @ '' bytes'' @ [LF]
          @ ''packages:  '' @ num ''unique_packages'' @ '' unique, '' @ num ''packages'' @ '' artifacts (''
          @ num ''package_bytes'' @ '' bytes)'' @ [LF]
          @ (if int_field env v ''installers'' > 0
             then ''installers: '' @ num ''installers'' @ '' ('' @ num ''installer_bytes''
                  @ '' bytes, signatures included)'' @ [LF] else [])
          @ (if int_field env v ''unstamped'' > 0
             then ''unstamped: '' @ num ''unstamped'' @ '' with no architecture -- run --set-arch'' @ [LF] else [])
          @ ''pull:      '' @ (if bool_field v ''pull_open'' then ''open'' else ''token required'') @ [LF]
          @ ''push:      '' @ (if bool_field v ''push_configured'' then ''token required'' else ''OPEN'') @ [LF]))"

text \<open>The columns a listing has beyond the fixed ones.\<close>

record columns =
  g_show_arch :: bool
  g_show_signed :: bool
  g_show_format :: bool

definition formats_of :: "'n json_value option \<Rightarrow> 'n json_value list option" where
  "formats_of v = (case json_object_get v ''formats'' of Some (JSON_ARRAY fs) \<Rightarrow> Some fs | _ \<Rightarrow> None)"

text \<open>
  One \<open>n += snprintf(cols + n, sizeof(cols) - n, ...)\<close>: \<open>n\<close> counts what would have been written, and
  once it is beyond the buffer the size wraps, so that the next call writes outside it.
\<close>

record colbuf =
  cb_n :: nat
  cb_text :: string
  cb_bad :: bool

definition add_col :: "nat \<Rightarrow> string \<Rightarrow> colbuf \<Rightarrow> colbuf" where
  "add_col cap s b =
     \<lparr>cb_n = cb_n b + length s, cb_text = cb_text b @ take (cap - 1 - cb_n b) s,
      cb_bad = (cb_bad b \<or> cb_n b > cap)\<rparr>"

definition extra_columns :: "columns \<Rightarrow> string \<Rightarrow> string \<Rightarrow> string \<Rightarrow> colbuf" where
  "extra_columns g fmt arch sig =
     (let b0 = \<lparr>cb_n = 0, cb_text = [], cb_bad = False\<rparr>;
          b1 = (if g_show_format g then add_col 80 (pad_right 8 fmt @ '' '') b0 else b0);
          b2 = (if g_show_arch g then add_col 80 (pad_right 8 arch @ '' '') b1 else b1)
      in if g_show_signed g then add_col 80 (pad_right 6 sig @ '' '') b2 else b2)"

definition or_dash :: "string \<Rightarrow> string" where
  "or_dash s = (if s = [] then ''-'' else s)"

definition format_line :: "'n cli_env \<Rightarrow> columns \<Rightarrow> 'n json_value option \<Rightarrow> bool \<Rightarrow> 'n json_value \<Rightarrow> bool \<times> string" where
  "format_line env g v first fv =
     (let f = Some fv;
          modified = int_field env f ''modified'';
          shown = (if modified > 0 then snprintf 16 (ce_local_date env modified) else ''-'');
          bytes_text = human_bytes (int_field env f ''bytes'') 16;
          cols = extra_columns g (str_field f ''format'') (or_dash (str_field v ''arch''))
                   (if json_object_get f ''signed'' = None then []
                    else if bool_field f ''signed'' then ''yes'' else ''no'');
          lead = (if first then
                    pad_right 18 (str_field v ''artifact'') @ '' ''
                    @ pad_left 12 (take 12 (or_dash (str_field v ''version''))) @ '' ''
                    @ pad_left 4 (int_dec (int_field env v ''release''))
                  else pad_right 18 [] @ '' '' @ pad_left 12 [] @ '' '' @ pad_left 4 [])
      in (cb_bad cols,
          lead @ '' '' @ cb_text cols @ '' '' @ pad_left 9 bytes_text @ ''  '' @ take 12 (str_field f ''sha256'')
          @ ''  '' @ pad_left 10 shown @ [LF]))"

text \<open>Text printed piece by piece.\<close>

definition both :: "bool \<times> string \<Rightarrow> bool \<times> string \<Rightarrow> bool \<times> string" where
  "both p q = (fst p \<or> fst q, snd p @ snd q)"

fun format_lines ::
  "'n cli_env \<Rightarrow> columns \<Rightarrow> 'n json_value option \<Rightarrow> bool \<Rightarrow> 'n json_value list \<Rightarrow> bool \<times> string" where
  "format_lines env g v first [] = (False, [])"
| "format_lines env g v first (f # fs) = both (format_line env g v first f) (format_lines env g v False fs)"

definition fmt_artifact_line :: "'n cli_env \<Rightarrow> columns \<Rightarrow> 'n json_value \<Rightarrow> bool \<times> string" where
  "fmt_artifact_line env g v =
     (case formats_of (Some v) of None \<Rightarrow> (False, []) | Some fs \<Rightarrow> format_lines env g (Some v) True fs)"

definition listing_columns :: "'n json_value list \<Rightarrow> columns" where
  "listing_columns recs =
     \<lparr>g_show_arch =
        list_ex (\<lambda>r. str_field (Some r) ''arch'' \<noteq> str_field (Some (hd recs)) ''arch'') (tl recs),
      g_show_signed =
        list_ex (\<lambda>r. case formats_of (Some r) of None \<Rightarrow> False
                 | Some fs \<Rightarrow> list_ex (\<lambda>f. json_object_get (Some f) ''signed'' \<noteq> None) fs) recs,
      g_show_format =
        list_ex (\<lambda>r. case formats_of (Some r) of None \<Rightarrow> False | Some fs \<Rightarrow> length fs > 1) recs\<rparr>"

definition listing_head :: "columns \<Rightarrow> string" where
  "listing_head g =
     pad_right 18 ''ARTIFACT'' @ '' '' @ pad_left 12 ''VERSION'' @ '' '' @ pad_left 4 ''REL'' @ '' ''
     @ cb_text (extra_columns g ''FORMAT'' ''ARCH'' ''SIGNED'') @ '' '' @ pad_left 9 ''SIZE'' @ ''  ''
     @ pad_right 12 ''SHA256'' @ ''  '' @ pad_left 10 ''PUBLISHED'' @ [LF]"

fun artifact_lines :: "'n cli_env \<Rightarrow> columns \<Rightarrow> 'n json_value list \<Rightarrow> bool \<times> string" where
  "artifact_lines env g [] = (False, [])"
| "artifact_lines env g (r # rs) = both (fmt_artifact_line env g r) (artifact_lines env g rs)"

definition is_installer_record :: "'n json_value \<Rightarrow> bool" where
  "is_installer_record r =
     (case formats_of (Some r) of None \<Rightarrow> False
      | Some fs \<Rightarrow> list_ex (\<lambda>f. str_field (Some f) ''format'' = ''.iso'') fs)"

definition listing_total :: "'n cli_env \<Rightarrow> 'n json_value option \<Rightarrow> 'n json_value list \<Rightarrow> string" where
  "listing_total env v recs =
     (let count = int_field env v ''count''; files = int_field env v ''files'';
          total = human_bytes (int_field env v ''bytes'') 16;
          installers = int (length (filter is_installer_record recs))
      in if installers > 0 then
           [LF] @ int_dec count @ '' artifacts ('' @ int_dec (count - installers) @ '' packages, ''
           @ int_dec installers @ '' installers), '' @ total @ [LF]
         else if files > count then
           [LF] @ int_dec count @ '' artifacts in '' @ int_dec files @ '' files, '' @ total @ [LF]
         else [LF] @ int_dec count @ '' artifacts, '' @ total @ [LF])"

definition fmt_artifacts :: "'n cli_env \<Rightarrow> 'n formatter" where
  "fmt_artifacts env v =
     (case json_object_get v ''artifacts'' of
        Some (JSON_ARRAY recs) \<Rightarrow>
          (let g = listing_columns recs
           in both (False, listing_head g)
                (both (artifact_lines env g recs) (False, listing_total env v recs)))
      | _ \<Rightarrow> (False, []))"

text \<open>Division of \<open>long long\<close> rounds towards 0.\<close>

definition c_div :: "int \<Rightarrow> int \<Rightarrow> int" where
  "c_div a b = (if a < 0 then - ((- a) div b) else a div b)"

definition log_line :: "'n cli_env \<Rightarrow> 'n json_value \<Rightarrow> string" where
  "log_line env e =
     snprintf 32 (ce_local_time env (c_div (int_field env (Some e) ''time_ms'') 1000)) @ ''  ''
     @ pad_right 5 (str_field (Some e) ''level'') @ '' '' @ str_field (Some e) ''text'' @ [LF]"

definition fmt_log :: "'n cli_env \<Rightarrow> 'n formatter" where
  "fmt_log env v =
     (case json_object_get v ''entries'' of
        Some (JSON_ARRAY es) \<Rightarrow> (False, concat (map (log_line env) es))
      | _ \<Rightarrow> (False, []))"

definition fmt_gc :: "'n cli_env \<Rightarrow> 'n formatter" where
  "fmt_gc env v =
     (False, (if bool_field v ''dry_run'' then ''would remove'' else ''removed'') @ '': ''
        @ int_dec (int_field env v ''removed'') @ '' blobs, '' @ int_dec (int_field env v ''bytes_freed'')
        @ '' bytes'' @ [LF])"

definition fmt_import_status :: "'n cli_env \<Rightarrow> 'n formatter" where
  "fmt_import_status env v =
     (False, ''running:   '' @ (if bool_field v ''running'' then ''yes'' else ''no'') @ [LF]
        @ ''elapsed:   '' @ int_dec (int_field env v ''elapsed_seconds'') @ ''s'' @ [LF]
        @ ''last exit: '' @ int_dec (int_field env v ''last_exit_status'') @ [LF])"

definition fmt_accepted :: "'n formatter" where
  "fmt_accepted v = (False, ''accepted'' @ [LF])"

definition fmt_removed :: "'n formatter" where
  "fmt_removed v = (False, ''removed'' @ [LF])"

end
