(* ===== verification/Cli_Main.thy ===== *)
theory Cli_Main
  imports Cli
begin

text \<open>
  The commands (\<^verbatim>\<open>src/cli/src/main.c\<close>): the one-call commands, uploading, following the log, the dispatch on the
  command's name, and the options before it.
\<close>

section \<open>Uploading\<close>

definition UPLOAD_BUF :: nat where
  "UPLOAD_BUF = 65536"

definition complain :: "string \<Rightarrow> printed" where
  "complain msg = [(Stderr, ''cixcachectl: '' @ msg @ [LF])]"

definition failed :: "int \<Rightarrow> printed \<Rightarrow> bytes list \<Rightarrow> socket list \<Rightarrow> cli_result" where
  "failed rc out sent net =
     \<lparr>cr_exit = rc, cr_output = out, cr_sent = sent, cr_net = net, cr_undefined = False\<rparr>"

record put_opts =
  po_path :: "string option"
  po_name :: "string option"
  po_token :: "string option"
  po_digest :: "string option"

text \<open>The loop over the arguments; \<open>Inl\<close> is the complaint it returns with.\<close>

fun put_options :: "string list \<Rightarrow> put_opts \<Rightarrow> string + put_opts" where
  "put_options [] p = Inr p"
| "put_options (a # as) p =
     (if starts_with a ''--name='' then put_options as (p\<lparr>po_name := Some (drop 7 a)\<rparr>)
      else if starts_with a ''--sha256='' then put_options as (p\<lparr>po_digest := Some (drop 9 a)\<rparr>)
      else if starts_with a ''--token='' then put_options as (p\<lparr>po_token := Some (drop 8 a)\<rparr>)
      else if starts_with a ''--'' then Inl (''unknown put option '' @ [CHR 0x27] @ a @ [CHR 0x27])
      else if po_path p = None then put_options as (p\<lparr>po_path := Some a\<rparr>)
      else Inl (''unexpected argument '' @ [CHR 0x27] @ a @ [CHR 0x27]))"

definition put_usage :: string where
  "put_usage =
     ''usage: cix cache publish FILE --name=NAME.SUFFIX --sha256=HEX [--token=TOK]'' @ [LF]"

text \<open>The request; nothing looks at whether it was cut.\<close>

definition put_request :: "cix_client \<Rightarrow> string \<Rightarrow> int \<Rightarrow> string \<Rightarrow> string option \<Rightarrow> string" where
  "put_request c name st_size digest token =
     snprintf 1024
       (''PUT '' @ snprintf 600 (''/'' @ name) @ '' HTTP/1.1'' @ [CR, LF] @ ''Host: '' @ cl_host c @ [CR, LF]
        @ ''Content-Length: '' @ int_dec st_size @ [CR, LF] @ ''X-Cix-Sha256: '' @ digest @ [CR, LF]
        @ (case token of Some t \<Rightarrow> ''Authorization: Bearer '' @ t @ [CR, LF] | None \<Rightarrow> [])
        @ ''Connection: close'' @ [CR, LF, CR, LF])"

text \<open>A single write, which must take everything.\<close>

definition write_once :: "write_result list \<Rightarrow> bytes \<Rightarrow> bool \<times> bytes \<times> write_result list" where
  "write_once ws data =
     (case ws of
        [] \<Rightarrow> (True, data, [])
      | Wrote k # rest \<Rightarrow> (k \<ge> length data, take k data, rest)
      | _ # rest \<Rightarrow> (False, [], rest))"

text \<open>The loop over the file: whether every write succeeded, and what was written. A read that fails ends it.\<close>

fun put_stream :: "read_result list \<Rightarrow> write_result list \<Rightarrow> bool \<times> bytes" where
  "put_stream [] ws = (True, [])"
| "put_stream (r # rs) ws =
     (case r of
        Read_Intr \<Rightarrow> put_stream rs ws
      | Read_Data d \<Rightarrow>
          (let chunk = take UPLOAD_BUF d
           in if chunk = [] then (True, [])
              else case cix_write_all ws chunk of
                (ok, sent, ws') \<Rightarrow>
                  (if \<not> ok then (False, sent)
                   else case put_stream rs ws' of (ok', later) \<Rightarrow> (ok', sent @ later)))
      | _ \<Rightarrow> (True, []))"

text \<open>One read of the response, and \<open>sscanf(resp, "HTTP/1.%*d %d", &status)\<close>; 0 when there is no status.\<close>

definition put_status :: "read_result list \<Rightarrow> int" where
  "put_status reads =
     (case reads of
        Read_Data d # _ \<Rightarrow>
          (let resp = c_str (take 4095 d)
           in if starts_with resp ''HTTP/1.''
              then (case scan_int (drop 7 resp) of
                      None \<Rightarrow> 0
                    | Some (_, r) \<Rightarrow> (case scan_int (scan_space r) of None \<Rightarrow> 0 | Some (status, _) \<Rightarrow> status))
              else 0)
      | _ \<Rightarrow> 0)"

text \<open>The exchange, once the file and the socket are open.\<close>

definition put_exchange ::
  "cix_client \<Rightarrow> string \<Rightarrow> string \<Rightarrow> string option \<Rightarrow> int \<Rightarrow> read_result list \<Rightarrow> socket \<Rightarrow> socket list \<Rightarrow> cli_result" where
  "put_exchange c name digest token st_size file so net =
     (case write_once (so_writes so) (put_request c name st_size digest token) of
        (ok, sent, ws) \<Rightarrow>
          (if \<not> ok then failed 1 (complain ''short write sending request'') [sent] net
           else case put_stream file ws of
             (ok', body) \<Rightarrow>
               (if \<not> ok' then
                  failed 1 (complain (''connection closed after '' @ nat_dec (length body) @ '' bytes'')) [sent @ body] net
                else
                  (let status = put_status (so_reads so (sent @ body))
                   in if 200 \<le> status \<and> status < 300 then
                        failed 0 [(Stdout, ''published '' @ name @ '' ('' @ nat_dec (length body) @ '' bytes)'' @ [LF])]
                          [sent @ body] net
                      else failed 1 (complain (''push rejected (HTTP '' @ int_dec status @ '')'')) [sent @ body] net))))"

definition cmd_put :: "'n cli_env \<Rightarrow> cix_client \<Rightarrow> string list \<Rightarrow> socket list \<Rightarrow> cli_result" where
  "cmd_put env c args net =
     (case put_options args \<lparr>po_path = None, po_name = None, po_token = None, po_digest = None\<rparr> of
        Inl msg \<Rightarrow> failed 2 (complain msg) [] net
      | Inr p \<Rightarrow>
          (case (po_path p, po_name p, po_digest p) of
             (Some path, Some name, Some digest) \<Rightarrow>
               (case ce_open env path of
                  Inl err \<Rightarrow> failed 1 (complain (path @ '': '' @ err)) [] net
                | Inr (None, _) \<Rightarrow> failed 1 (complain (''cannot stat '' @ path)) [] net
                | Inr (Some st_size, file) \<Rightarrow>
                    (case cix_client_connect_raw c net of
                       (None, net') \<Rightarrow> failed 1 (complain ''could not reach server'') [] net'
                     | (Some so, net') \<Rightarrow> put_exchange c name digest (po_token p) st_size file so net'))
           | _ \<Rightarrow> failed 2 [(Stderr, put_usage)] [] net))"

section \<open>One call\<close>

definition one_call ::
  "'n cli_env \<Rightarrow> cix_client \<Rightarrow> bool \<Rightarrow> string \<Rightarrow> string \<Rightarrow> string option \<Rightarrow> 'n formatter option \<Rightarrow> bool \<Rightarrow>
   socket list \<Rightarrow> cli_result" where
  "one_call env c json_mode method path token fmt paged net =
     (case cix_client_request_with_auth (ce_nomem env) (ce_strtod env) c method path token None net of
        (sent, None, net') \<Rightarrow> failed 1 (complain ''could not reach server'') sent net'
      | (sent, Some r, net') \<Rightarrow>
          (case emit env (out_open env (paged \<and> \<not> json_mode)) r json_mode fmt of
             (rc, out, bad) \<Rightarrow>
               \<lparr>cr_exit = rc, cr_output = out, cr_sent = sent, cr_net = net', cr_undefined = bad\<rparr>))"

section \<open>Following the log\<close>

definition log_path :: "int \<Rightarrow> string" where
  "log_path after = snprintf 64 (''/api/v1/log?after='' @ int_dec after)"

lemma one_request_consumes:
  "do_one_request nomem strtod c method path token body net = (sent, r, net') \<Longrightarrow>
   length net' \<le> length net \<and> (r \<noteq> None \<longrightarrow> length net' < length net)"
  by (cases net) (auto simp: do_one_request_def cix_client_connect_raw_def Let_def
      split: if_splits prod.splits option.splits)

lemma attempts_consume:
  assumes one: "\<And>net sent r net'. f net = (sent, r, net') \<Longrightarrow> length net' \<le> length net \<and> (r \<noteq> None \<longrightarrow> length net' < length net)"
  shows "request_attempts n f net = (sent, r, net') \<Longrightarrow> length net' \<le> length net \<and> (r \<noteq> None \<longrightarrow> length net' < length net)"
proof (induction n arbitrary: net sent r net')
  case (Suc n)
  obtain s r1 net1 where f: "f net = (s, r1, net1)" by (metis prod_cases3)
  note first = one [OF f]
  show ?case
  proof (cases r1)
    case None
    obtain ss r2 net2 where rest: "request_attempts n f net1 = (ss, r2, net2)" by (metis prod_cases3)
    then have "r2 = r" "net2 = net'" using Suc.prems f None by simp_all
    then show ?thesis using first Suc.IH [OF rest] by auto
  next
    case (Some x)
    then show ?thesis using first Suc.prems f by simp
  qed
qed simp

lemma request_consumes:
  assumes "cix_client_request_with_auth nomem strtod c method path token body net = (sent, Some r, net')"
  shows "length net' < length net"
  using attempts_consume [of "do_one_request nomem strtod c method path token body", OF one_request_consumes] assms
  by (auto simp: cix_client_request_with_auth_def)

text \<open>
  The loop. It ends when a request fails, which one does in the end: the list of sockets is finite.
\<close>

function log_follow ::
  "'n cli_env \<Rightarrow> cix_client \<Rightarrow> string option \<Rightarrow> int \<Rightarrow> socket list \<Rightarrow> cli_result" where
  "log_follow env c token after net =
     (case cix_client_request_with_auth (ce_nomem env) (ce_strtod env) c ''GET'' (log_path after) token None net of
        (sent, None, net') \<Rightarrow> failed 1 (complain ''could not reach server'') sent net'
      | (sent, Some r, net') \<Rightarrow>
          (if rs_status r < 200 \<or> rs_status r \<ge> 300 then
             failed 1 (complain (''log request failed (HTTP '' @ int_dec (rs_status r) @ '')'')) sent net'
           else
             (let res = log_follow env c token (int_field env (rs_json r) ''seq'') net'
              in res\<lparr>cr_output := (Stdout, snd (fmt_log env (rs_json r))) # cr_output res,
                     cr_sent := sent @ cr_sent res\<rparr>)))"
  by pat_completeness auto
termination
  by (relation "measure (\<lambda>(env, c, token, after, net). length net)")
    (auto dest: request_consumes [OF sym])

declare log_follow.simps [simp del]

definition cmd_log_follow :: "'n cli_env \<Rightarrow> cix_client \<Rightarrow> string option \<Rightarrow> socket list \<Rightarrow> cli_result" where
  "cmd_log_follow env c token net = log_follow env c token 0 net"

section \<open>Dispatch\<close>

definition is_cmd :: "string \<Rightarrow> string \<Rightarrow> string option \<Rightarrow> bool" where
  "is_cmd cmd name alias \<longleftrightarrow> cmd = name \<or> alias = Some cmd"

definition usage :: string where
  "usage =
     ''usage: cix cache [--host=H] [--port=N] [--json] <command>'' @ [LF]
     @ ''   or: cix-cache [...] <command>        (what cix dispatches to)'' @ [LF]
     @ [LF]
     @ ''  status                     server and store summary'' @ [LF]
     @ ''  list                       every published artifact'' @ [LF]
     @ ''  manifest                   MANIFEST.json, generated live'' @ [LF]
     @ ''  log [-f]                   what the server has been doing'' @ [LF]
     @ ''  gc [--dry-run] [--token=]  remove blobs no name points at'' @ [LF]
     @ ''  import [--token=]          migrate a static export into the store'' @ [LF]
     @ ''  import-status              progress of a running import'' @ [LF]
     @ ''  publish FILE --name=N --sha256=H [--token=]'' @ [LF]
     @ ''  delete NAME [--token=]'' @ [LF]
     @ [LF]
     @ ''  ls, put and rm still work, as aliases for list, publish and delete.'' @ [LF]
     @ ''  cixcachectl still works too, as the tool'' @ [CHR 0x27] @ ''s former name.'' @ [LF]"

record cmd_opts =
  co_token :: "string option"
  co_dry_run :: bool
  co_follow :: bool

fun command_options :: "string list \<Rightarrow> cmd_opts \<Rightarrow> cmd_opts" where
  "command_options [] o1 = o1"
| "command_options (a # as) o1 =
     command_options as
       (if starts_with a ''--token='' then o1\<lparr>co_token := Some (drop 8 a)\<rparr>
        else if a = ''--dry-run'' then o1\<lparr>co_dry_run := True\<rparr>
        else if a = ''--follow'' \<or> a = ''-f'' then o1\<lparr>co_follow := True\<rparr>
        else o1)"

definition dispatch_command ::
  "'n cli_env \<Rightarrow> cix_client \<Rightarrow> bool \<Rightarrow> string \<Rightarrow> string list \<Rightarrow> socket list \<Rightarrow> cli_result" where
  "dispatch_command env c json_mode cmd args net =
     (let o1 = command_options args \<lparr>co_token = None, co_dry_run = False, co_follow = False\<rparr>;
          token = co_token o1
      in if is_cmd cmd ''status'' None then
           one_call env c json_mode ''GET'' ''/api/v1/status'' token (Some (fmt_status env)) False net
         else if is_cmd cmd ''list'' (Some ''ls'') then
           one_call env c json_mode ''GET'' ''/api/v1/artifacts'' token (Some (fmt_artifacts env)) True net
         else if is_cmd cmd ''manifest'' None then
           one_call env c json_mode ''GET'' ''/MANIFEST.json'' token None True net
         else if is_cmd cmd ''log'' None then
           (if co_follow o1 then cmd_log_follow env c token net
            else one_call env c json_mode ''GET'' ''/api/v1/log?after=0'' token (Some (fmt_log env)) True net)
         else if is_cmd cmd ''gc'' None then
           one_call env c json_mode (if co_dry_run o1 then ''GET'' else ''POST'') ''/api/v1/gc'' token
             (Some (fmt_gc env)) False net
         else if is_cmd cmd ''import'' None then
           one_call env c json_mode ''POST'' ''/api/v1/import'' token (Some fmt_accepted) False net
         else if is_cmd cmd ''import-status'' None then
           one_call env c json_mode ''GET'' ''/api/v1/import-status'' token (Some (fmt_import_status env)) False net
         else if is_cmd cmd ''publish'' (Some ''put'') then cmd_put env c args net
         else if is_cmd cmd ''delete'' (Some ''rm'') then
           (if args = [] \<or> c_at (hd args) 0 = CHR ''-'' then
              failed 2 [(Stderr, ''usage: cix cache delete NAME [--token=TOK]'' @ [LF])] [] net
            else one_call env c json_mode ''DELETE'' (snprintf 600 (''/'' @ hd args)) token (Some fmt_removed) False net)
         else failed 2 [(Stderr, ''cix cache: unknown command '' @ [CHR 0x27] @ cmd @ [CHR 0x27] @ [LF]), (Stderr, usage)] [] net)"

section \<open>The program\<close>

definition note_old_name :: "'n cli_env \<Rightarrow> string \<Rightarrow> printed" where
  "note_old_name env argv0 =
     (let base = (case find_last (CHR ''/'') argv0 of Some i \<Rightarrow> drop (i + 1) argv0 | None \<Rightarrow> argv0)
      in if base \<noteq> ''cixcachectl'' \<or> \<not> ce_tty_err env then []
         else [(Stderr, ''note: cixcachectl is now `cix cache` (or cix-cache); this name still works.'' @ [LF])])"

record main_opts =
  mo_host :: string
  mo_port :: int
  mo_json :: bool

text \<open>The loop over the options; \<open>None\<close> is \<open>--help\<close>, otherwise what they set and the arguments behind them.\<close>

fun main_options :: "string list \<Rightarrow> main_opts \<Rightarrow> (main_opts \<times> string list) option" where
  "main_options [] m = Some (m, [])"
| "main_options (a # as) m =
     (if \<not> starts_with a ''--'' then Some (m, a # as)
      else if starts_with a ''--host='' then main_options as (m\<lparr>mo_host := drop 7 a\<rparr>)
      else if starts_with a ''--port='' then main_options as (m\<lparr>mo_port := c_atoi (drop 7 a)\<rparr>)
      else if a = ''--json'' then main_options as (m\<lparr>mo_json := True\<rparr>)
      else if a = ''--help'' then None
      else Some (m, a # as))"

definition DEFAULT_HOST :: string where
  "DEFAULT_HOST = ''127.0.0.1''"

definition DEFAULT_PORT :: int where
  "DEFAULT_PORT = 8080"

definition cli_command :: "'n cli_env \<Rightarrow> string list \<Rightarrow> socket list \<Rightarrow> cli_result" where
  "cli_command env args net =
     (case main_options args \<lparr>mo_host = DEFAULT_HOST, mo_port = DEFAULT_PORT, mo_json = False\<rparr> of
        None \<Rightarrow> failed 0 [(Stdout, usage)] [] net
      | Some (m, rest) \<Rightarrow>
          (let client = cix_client_init (mo_host m) (mo_port m)
           in case rest of
                [] \<Rightarrow> failed 2 [(Stderr, usage)] [] net
              | cmd # more_args \<Rightarrow> dispatch_command env client (mo_json m) cmd more_args net))"

definition cli_main :: "'n cli_env \<Rightarrow> string \<Rightarrow> string list \<Rightarrow> socket list \<Rightarrow> cli_result" where
  "cli_main env argv0 args net =
     (let res = cli_command env args net
      in res\<lparr>cr_output := note_old_name env argv0 @ cr_output res\<rparr>)"

end
