(* ===== verification/Cli_Props.thy ===== *)
theory Cli_Props
  imports Client_Props Cli_Main Server_Running
begin

text \<open>
  The command line and the server together: an upload the server understands, a deletion that reaches
  the right handler, a refusal whose reason reaches the operator. The commands: exit codes, what
  reading commands send, when an upload counts as published, the log that is followed, and the
  bounds of what is printed.
\<close>

section \<open>Artifact paths\<close>

lemma suffix_record_Cons: "suffix_record tbl name \<noteq> None \<Longrightarrow> suffix_record tbl (c # name) \<noteq> None"
proof (induction tbl)
  case (Cons t tbl)
  show ?case
  proof (cases "length name > length (sfx_ext t) \<and> drop (length name - length (sfx_ext t)) name = sfx_ext t")
    case True
    then have "drop (length (c # name) - length (sfx_ext t)) (c # name) = sfx_ext t" by (simp add: Suc_diff_le)
    then show ?thesis using True by simp
  next
    case False
    then have "suffix_record tbl name \<noteq> None" using Cons.prems by (auto simp: Let_def)
    then show ?thesis using Cons.IH by (simp add: Let_def)
  qed
qed simp

lemma pct_decode_plain: "CHR ''%'' \<notin> set s \<Longrightarrow> pct_decode s = Some s"
  by (induction s) auto

lemma valid_name_path:
  assumes "store_name_is_valid name"
  shows "token_ok HTTP_MAX_PATH (CHR ''/'' # name)"
    and "http_path_decode (takeWhile (\<lambda>c. c \<noteq> CHR ''?'') (snprintf HTTP_MAX_PATH (CHR ''/'' # name))) = Some (CHR ''/'' # name)"
    and "is_artifact_path (CHR ''/'' # name)" and "CHR ''/'' \<notin> set name" and "name \<noteq> []" and "c_at name 0 \<noteq> CHR ''-'' \<Longrightarrow> hd name \<noteq> CHR ''-''"
proof -
  have chars: "list_all name_char_ok name" using assms by (simp add: store_name_is_valid_iff)
  then have absent: "c \<notin> set name" if "\<not> name_char_ok c" for c using that by (auto simp: list_all_iff)
  have no: "CHR '' '' \<notin> set name" "CR \<notin> set name" "NUL \<notin> set name" "CHR ''%'' \<notin> set name" "CHR ''?'' \<notin> set name"
    by (rule absent, simp add: name_char_ok_def c_isdigit_def byte_def)+
  have len: "length name < 511" using valid_length [OF assms] by (simp add: STORE_NAME_MAX_def)
  show "token_ok HTTP_MAX_PATH (CHR ''/'' # name)" using no len by (simp add: token_ok_def HTTP_MAX_PATH_def)
  have "takeWhile (\<lambda>c. c \<noteq> CHR ''?'') (snprintf HTTP_MAX_PATH (CHR ''/'' # name)) = CHR ''/'' # name"
    using no len by (simp add: snprintf_def HTTP_MAX_PATH_def takeWhile_absent)
  then show "http_path_decode (takeWhile (\<lambda>c. c \<noteq> CHR ''?'') (snprintf HTTP_MAX_PATH (CHR ''/'' # name))) = Some (CHR ''/'' # name)"
    using path_decode_reference [of "CHR ''/'' # name"] pct_decode_plain [of "CHR ''/'' # name"] no
    by (simp add: c_str_no_NUL)
  show "is_artifact_path (CHR ''/'' # name)"
    using assms suffix_record_Cons [of g_suffixes name "CHR ''/''"]
    by (auto simp: is_artifact_path_def store_name_is_valid_def store_suffix_of_def split: if_splits)
  show "CHR ''/'' \<notin> set name" "name \<noteq> []" using valid_not_dots [OF assms] by simp_all
  then show "c_at name 0 \<noteq> CHR ''-'' \<Longrightarrow> hd name \<noteq> CHR ''-''" by (cases name) simp_all
qed

text \<open>What the server makes of a connection and its globals before the handler runs.\<close>

abbreviation counted :: "server \<Rightarrow> server" where
  "counted sv \<equiv> sv\<lparr>sv_requests := sv_requests sv + 1\<rparr>"

abbreviation fresh :: "conn \<Rightarrow> conn" where
  "fresh cc \<equiv> cc\<lparr>cn_head_only := False, cn_note := []\<rparr>"

lemma dispatch_artifact:
  assumes "store_name_is_valid name" and "rq_path req = CHR ''/'' # name"
  shows "dispatch env bi req sv cc = route_artifact env req (CHR ''/'' # name) (counted sv) (fresh cc)"
  using valid_name_path [OF assms(1)] assms(2) by (simp add: dispatch_def)

section \<open>Uploads\<close>

definition put_fields :: "string \<Rightarrow> int \<Rightarrow> string \<Rightarrow> string option \<Rightarrow> field list" where
  "put_fields host len digest token =
     [(''Host'', '' '' @ host), (''Content-Length'', '' '' @ int_dec len), (''X-Cix-Sha256'', '' '' @ digest)]
     @ token_fields token @ [(''Connection'', '' close'')]"

text \<open>A word that stands in a header field as it is.\<close>

definition header_word :: "string \<Rightarrow> bool" where
  "header_word s \<longleftrightarrow> s \<noteq> [] \<and> CR \<notin> set s \<and> NUL \<notin> set s \<and> \<not> is_blank (hd s) \<and> \<not> is_blank (last s)"

definition plain_token :: "string option \<Rightarrow> bool" where
  "plain_token token \<longleftrightarrow>
     (case token of None \<Rightarrow> True | Some t \<Rightarrow> header_word t \<and> length t < CONF_TOKEN_MAX)"

lemma trim_word:
  assumes "header_word s"
  shows "trim_blanks (CHR '' '' # s) = s"
proof -
  have "dropWhile is_blank s = s" "dropWhile is_blank (rev s) = rev s"
    using assms by (auto simp: header_word_def dropWhile_eq_self_iff hd_rev)
  then show ?thesis by (simp add: trim_blanks_def is_blank_def)
qed

lemma put_request_text:
  assumes "length (put_request c name len digest token) < 1023" and "length name < 599" and "token \<noteq> Some []"
  shows "put_request c name len digest token @ body =
    request_text ''PUT'' (CHR ''/'' # name) ''HTTP/1.1'' (put_fields (cl_host c) len digest token) body"
proof -
  have url: "snprintf 600 (CHR ''/'' # name) = CHR ''/'' # name" using assms(2) by (simp add: snprintf_def)
  have whole: "put_request c name len digest token =
      ''PUT '' @ (CHR ''/'' # name) @ '' HTTP/1.1'' @ [CR, LF] @ ''Host: '' @ cl_host c @ [CR, LF]
        @ ''Content-Length: '' @ int_dec len @ [CR, LF] @ ''X-Cix-Sha256: '' @ digest @ [CR, LF]
        @ (case token of Some t \<Rightarrow> ''Authorization: Bearer '' @ t @ [CR, LF] | None \<Rightarrow> [])
        @ ''Connection: close'' @ [CR, LF, CR, LF]" (is "_ = ?w")
  proof -
    have cut: "put_request c name len digest token = take 1023 ?w"
      using url by (simp add: put_request_def snprintf_def)
    then have "length ?w < 1023" using assms(1) by simp
    then show ?thesis using cut by simp
  qed
  show ?thesis
    using assms(3) unfolding whole
    by (cases token) (simp_all add: request_text_def put_fields_def token_fields_def field_lines_def field_line_def)
qed

lemma put_fields_ok:
  assumes "CR \<notin> set host" and "header_word digest" and "plain_token token"
  shows "list_all field_ok (put_fields host len digest token)"
  using assms by (cases token)
    (auto simp: put_fields_def token_fields_def field_ok_def header_word_def plain_token_def int_dec_plain)

lemma bearer_value:
  assumes "http_find_header (rq_headers req) ''Authorization'' (CONF_TOKEN_MAX + 32) = map_option ((@) ''Bearer '') token"
    and "plain_token token"
  shows "bearer_ok req expect \<longleftrightarrow> bearer token expect"
proof (cases token)
  case (Some t)
  then have "c_str (''Bearer '' @ t) = ''Bearer '' @ t"
    using assms(2) by (simp add: plain_token_def header_word_def c_str_def takeWhile_absent)
  then show ?thesis using assms(1) Some by (auto simp: bearer_ok_def bearer_def c_strncmp_def Let_def)
qed (use assms(1) in \<open>simp add: bearer_ok_def bearer_def\<close>)

lemma put_names: "lower ''Host'' \<noteq> lower ''X-Cix-Sha256''" "lower ''Content-Length'' \<noteq> lower ''X-Cix-Sha256''"
  "lower ''X-Cix-Sha256'' \<noteq> lower ''Authorization''" "lower ''Connection'' \<noteq> lower ''Authorization''"
  by code_simp+

lemma put_values:
  assumes "header_word digest" and "plain_token token" and "0 \<le> len" and "len \<le> LONG_MAX"
  shows "states_length (put_fields host len digest token) (nat len)"
    and "field_value ''X-Cix-Sha256'' (put_fields host len digest token) = Some digest"
    and "field_value ''Authorization'' (put_fields host len digest token) = map_option ((@) ''Bearer '') token"
proof -
  have "int_dec len = nat_dec (nat len)" using assms(3) by (simp add: int_dec_def)
  then show "states_length (put_fields host len digest token) (nat len)"
    using assms(3,4) trim_nat_dec [of "nat len"]
    by (simp add: states_length_def field_value_def put_fields_def lower_names)
  show "field_value ''X-Cix-Sha256'' (put_fields host len digest token) = Some digest"
    using trim_word [OF assms(1)] by (simp add: field_value_def put_fields_def put_names)
  have bear: "trim_blanks (CHR '' '' # ''Bearer '' @ t) = ''Bearer '' @ t" if "header_word t" for t
  proof -
    have "header_word (''Bearer '' @ t)" using that by (simp add: header_word_def is_blank_def)
    then show ?thesis by (rule trim_word)
  qed
  show "field_value ''Authorization'' (put_fields host len digest token) = map_option ((@) ''Bearer '') token"
  proof (cases token)
    case None
    then show ?thesis by (simp add: field_value_def put_fields_def token_fields_def lower_names put_names)
  next
    case (Some t)
    then have "header_word t" using assms(2) by (simp add: plain_token_def)
    then show ?thesis using bear [of t] Some
      by (simp add: field_value_def put_fields_def token_fields_def lower_names put_names header_word_def)
  qed
qed

text \<open>
  C32. The server understands an upload: the head the tool sends, when it was not cut, followed by whatever of
  the file has arrived, is parsed as a PUT of the size of the file, with the digest the operator declared
  and the credential the operator gave, and a valid name is dispatched to the upload of that name.
\<close>

theorem put_request_understood:
  assumes "length (put_request c name len digest token) < 1023" and "store_name_is_valid name"
    and "CR \<notin> set (cl_host c)" and "header_word digest" and "plain_token token"
    and "0 \<le> len" and "len \<le> LONG_MAX" and "length body < 2 ^ 30"
  shows "\<exists>h h' req. http_conn_feed (\<lambda>_. False) http_conn_init (put_request c name len digest token @ body) = Inr h
    \<and> http_conn_try_parse h = (1, h', Some req) \<and> rq_content_length req = len \<and> rq_body req = body
    \<and> (\<forall>size. http_find_header (rq_headers req) ''X-Cix-Sha256'' size = fitting size (Some digest))
    \<and> (\<forall>expect. bearer_ok req expect \<longleftrightarrow> bearer token expect)
    \<and> (\<forall>env bi sv cc. dispatch env bi req sv cc = begin_upload env req name (counted sv) (fresh cc))"
proof -
  let ?fs = "put_fields (cl_host c) len digest token"
  note path = valid_name_path [OF assms(2)]
  have "token \<noteq> Some []" using assms(5) by (auto simp: plain_token_def header_word_def)
  moreover have "length name < 599" using valid_length [OF assms(2)] by (simp add: STORE_NAME_MAX_def)
  ultimately have whole: "put_request c name len digest token @ body = request_text ''PUT'' (CHR ''/'' # name) ''HTTP/1.1'' ?fs body"
    by (intro put_request_text [OF assms(1)])
  have lens: "length (request_text ''PUT'' (CHR ''/'' # name) ''HTTP/1.1'' ?fs body) =
      length (put_request c name len digest token) + length body"
    using whole by (metis length_append)
  have m: "token_ok HTTP_MAX_METHOD ''PUT''" by (simp add: token_ok_def HTTP_MAX_METHOD_def)
  have ver: "CR \<notin> set ''HTTP/1.1''" by simp
  have hdr: "length (''PUT'' @ (CHR ''/'' # name) @ ''HTTP/1.1'' @ field_lines ?fs) + 6 \<le> HTTP_MAX_HEADERS"
    using lens assms(1) by (simp add: request_text_def HTTP_MAX_HEADERS_def)
  have short: "length (request_text ''PUT'' (CHR ''/'' # name) ''HTTP/1.1'' ?fs body) < 2 ^ 31"
    using lens assms(1,8) by simp
  note known = put_values [OF assms(4-7), of "cl_host c"]
  obtain h h' req where h: "http_conn_feed (\<lambda>_. False) http_conn_init (put_request c name len digest token @ body) = Inr h"
    "http_conn_try_parse h = (1, h', Some req)" "rq_method req = ''PUT''" "rq_path req = CHR ''/'' # name"
    "rq_content_length req = int (nat len)" "rq_body req = body"
    "\<And>name size. http_find_header (rq_headers req) name size = fitting size (field_value name ?fs)"
    using request_reads_back [OF m path(1) ver put_fields_ok [OF assms(3-5)] known(1) hdr short, folded whole] by blast
  have auth: "http_find_header (rq_headers req) ''Authorization'' (CONF_TOKEN_MAX + 32) = map_option ((@) ''Bearer '') token"
    unfolding h(7) known(3) using assms(5) by (cases token) (simp_all add: fitting_def plain_token_def)
  have "dispatch env bi req sv cc = begin_upload env req name (counted sv) (fresh cc)" for env bi sv cc
    using dispatch_artifact [OF assms(2) h(4)] path(4) h(3) by (simp add: route_artifact_def)
  then show ?thesis
    using h(1,2,6) h(5) assms(6) bearer_value [OF auth assms(5)] h(7) [of "''X-Cix-Sha256''"] known(2)
    by (intro exI [of _ h] exI [of _ h'] exI [of _ req] conjI allI) simp_all
qed

theorem put_request_understood_witness:
  "\<exists>h h' req. http_conn_feed (\<lambda>_. False) http_conn_init
      (put_request sample_client ''y-1.iso'' 2 digest_a (Some ''secret'') @ ''xy'') = Inr h
    \<and> http_conn_try_parse h = (1, h', Some req) \<and> rq_content_length req = 2 \<and> rq_body req = ''xy''
    \<and> http_find_header (rq_headers req) ''X-Cix-Sha256'' STORE_SHA256_MAX = Some digest_a \<and> bearer_ok req ''secret''"
proof -
  have len: "length (put_request sample_client ''y-1.iso'' 2 digest_a (Some ''secret'')) < 1023" by code_simp
  have ok: "store_name_is_valid ''y-1.iso''" "CR \<notin> set (cl_host sample_client)" "header_word digest_a" "plain_token (Some ''secret'')"
    "0 \<le> (2 :: int)" "2 \<le> LONG_MAX" "length ''xy'' < (2 :: nat) ^ 30" "length digest_a < STORE_SHA256_MAX"
    by (simp_all add: sample_client_def cix_client_init_def snprintf_def plain_token_def header_word_def is_blank_def
        CONF_TOKEN_MAX_def LONG_MAX_def) code_simp+
  have "fitting STORE_SHA256_MAX (Some digest_a) = Some digest_a" "bearer (Some ''secret'') ''secret''"
    using ok(8) by (simp_all add: fitting_def bearer_def)
  then show ?thesis
    using put_request_understood [OF len ok(1-7)] by metis
qed

section \<open>Deletion\<close>

text \<open>The token the options give.\<close>

definition option_token :: "string list \<Rightarrow> string option" where
  "option_token args = co_token (command_options args \<lparr>co_token = None, co_dry_run = False, co_follow = False\<rparr>)"

lemma one_call_succeeds:
  assumes "cr_exit (one_call env c js m p token fmt paged net) = 0"
  obtains sents r net' where "cix_client_request_with_auth (ce_nomem env) (ce_strtod env) c m p token None net = (sents, Some r, net')"
    and "200 \<le> rs_status r" and "rs_status r < 300" and "cr_sent (one_call env c js m p token fmt paged net) = sents"
proof -
  obtain sents x net' where run: "cix_client_request_with_auth (ce_nomem env) (ce_strtod env) c m p token None net = (sents, x, net')"
    by (metis prod_cases3)
  show thesis
  proof (cases x)
    case None
    then show ?thesis using assms run by (simp add: one_call_def failed_def)
  next
    case (Some r)
    obtain rc out bad where e: "emit env (out_open env (paged \<and> \<not> js)) r js fmt = (rc, out, bad)" by (metis prod_cases3)
    then have "rc = 0" using assms run Some by (simp add: one_call_def)
    then have "200 \<le> rs_status r \<and> rs_status r < 300" using e by (auto simp: emit_def Let_def split: if_splits)
    then show ?thesis using that run Some e by (simp add: one_call_def)
  qed
qed

lemma delete_is_none_of: "cmd \<in> {''delete'', ''rm''} \<Longrightarrow>
    is_cmd cmd ''delete'' (Some ''rm'') \<and> \<not> is_cmd cmd ''status'' None \<and> \<not> is_cmd cmd ''list'' (Some ''ls'')
    \<and> \<not> is_cmd cmd ''manifest'' None \<and> \<not> is_cmd cmd ''log'' None \<and> \<not> is_cmd cmd ''gc'' None
    \<and> \<not> is_cmd cmd ''import'' None \<and> \<not> is_cmd cmd ''import-status'' None \<and> \<not> is_cmd cmd ''publish'' (Some ''put'')"
  by (elim insertE emptyE; simp add: is_cmd_def)

lemma dispatch_delete:
  assumes "cmd \<in> {''delete'', ''rm''}" and "args \<noteq> []" and "c_at (hd args) 0 \<noteq> CHR ''-''"
  shows "dispatch_command env c js cmd args net =
     one_call env c js ''DELETE'' (snprintf 600 (''/'' @ hd args)) (option_token args) (Some fmt_removed) False net"
  using delete_is_none_of [OF assms(1)] assms(2,3)
  unfolding dispatch_command_def Let_def option_token_def by presburger


text \<open>The tool in a pipe, with whole numbers for doubles.\<close>

definition sample_cli :: "int cli_env" where
  "sample_cli =
     \<lparr>ce_tty_out = False, ce_tty_err = False, ce_PAGER = None, ce_popen = (\<lambda>_. False), ce_nomem = (\<lambda>_. False),
      ce_open = (\<lambda>path. if path = ''f'' then Inr (Some 2, [Read_Data ''x'', Read_Intr, Read_Data ''y'']) else Inl ''No such file''),
      ce_strtod = whole_strtod, ce_zero = 0, ce_to_ll = id, ce_as_int = Some, ce_fmt2f = (\<lambda>_. []),
      ce_local_date = (\<lambda>_. ''2026-01-02''), ce_local_time = (\<lambda>_. ''10:20:30'')\<rparr>"

definition sample_delete :: cli_result where
  "sample_delete = dispatch_command sample_cli sample_client False ''delete'' [''z-1.iso'', ''--token=tok'']
     [refusing_socket, answering_socket]"



section \<open>Refusals\<close>

lemma written_value:
  "json_exact strtod ai v \<Longrightarrow> json_parse strtod (jw_buf (jw_value ai ff jw_init v)) = Some v"
  using json_parse_render [of strtod ai v ff] by (simp add: jw_value_render jw_init_def jw_value_prefix_def jw_raw_def)

lemma error_json_parsed:
  "NUL \<notin> set msg \<Longrightarrow> json_parse strtod (jw_buf (error_json msg)) = Some (JSON_OBJECT [(''error'', JSON_STRING msg)])"
  using written_value [of strtod "\<lambda>_. None" "JSON_OBJECT [(''error'', JSON_STRING msg)]" "\<lambda>_. []"]
  by (simp add: error_json_def)

lemma status_text_plain: "header_text (http_status_text status)"
  by (simp add: http_status_text_def header_text_def)

text \<open>What a JSON answer makes the server send.\<close>

lemma json_answer_parts:
  assumes "respond_json env status w sv cc = (sv', cc')" and "cn_open cc" and "cn_open cc'" and "\<not> cn_head_only cc"
    and "cn_blob cc = None"
  shows "http_format_header HDR_MAX status (http_status_text status) ''application/json'' (int (length (jw_buf w))) [] = Some (cn_hdr cc')"
    and "response_body cc' = jw_buf w"
proof -
  have mem: "\<not> ev_nomem (se_env env) (length (jw_buf w) + 1)"
    using assms(1-3) by (auto simp: respond_json_def conn_close_def split: if_splits)
  obtain hdr where hdr: "http_format_header HDR_MAX status (http_status_text status) ''application/json''
      (int (length (jw_buf w))) [] = Some hdr"
    using assms(1-3) mem
    by (cases "http_format_header HDR_MAX status (http_status_text status) ''application/json'' (int (length (jw_buf w))) []")
      (auto simp: respond_json_def respond_buffer_def begin_response_def conn_close_def)
  then have "cn_hdr cc' = hdr" "cn_out cc' = Some (jw_buf w)" "\<not> cn_head_only cc'" "cn_blob cc' = None"
    using assms mem by (auto simp: respond_json_def respond_buffer_def begin_response_def)
  then show "http_format_header HDR_MAX status (http_status_text status) ''application/json''
      (int (length (jw_buf w))) [] = Some (cn_hdr cc')" "response_body cc' = jw_buf w"
    using hdr by (simp_all add: response_body_def)
qed

lemma json_parse_empty: "json_parse strtod [] = None"
  by (simp add: json_parse_def parse_fuel_def skip_ws_def numeral_2_eq_2 parse_scalar_def
      parse_string_raw_def parse_number_def number_end_def)

text \<open>What the client reads of it, when the bytes arrive and the body is JSON.\<close>

lemma json_answer_heard:
  assumes "respond_json env status w sv cc = (sv', cc')" and "cn_open cc" and "cn_open cc'" and "\<not> cn_head_only cc"
    and "cn_blob cc = None" and "0 \<le> status" and "status < 2 ^ 31" and "json_parse strtod (jw_buf w) = Some v"
    and "arrives rs" and "delivered rs = cn_hdr cc' @ response_body cc'"
  shows "\<exists>rb. read_all_response (\<lambda>_. False) rs = Some rb
    \<and> read_response (\<lambda>_. False) strtod (rb_buf rb) =
        Some \<lparr>rs_status = status, rs_content_type = ''application/json'', rs_body = Some (jw_buf w), rs_json = Some v\<rparr>"
proof -
  note parts = json_answer_parts [OF assms(1-5)]
  have hdr: "http_format_header HDR_MAX status (http_status_text status) ''application/json''
      (int (length (jw_buf w))) (extra_lines []) = Some (cn_hdr cc')"
    using parts(1) by (simp add: extra_lines_def)
  have ok: "content_type_fits ''application/json''" "plain_fields []"
    by (simp_all add: content_type_fits_def header_text_def CIX_CONTENT_TYPE_MAX_def plain_fields_def)
  have body: "delivered rs = cn_hdr cc' @ jw_buf w" using assms(10) parts(2) by simp
  have "jw_buf w \<noteq> []" using assms(8) json_parse_empty [of strtod] by (metis option.distinct(1))
  then show ?thesis
    using response_heard [OF hdr assms(6,7) status_text_plain ok assms(9) body, of strtod] assms(8) by auto
qed

lemma respond_error_json: "respond_error env status msg = respond_json env status (error_json msg)"
  by (intro ext) (simp add: respond_error_def respond_json_def Let_def)

lemma bytewise: "arrives (map (\<lambda>c. Read_Data [c]) b) \<and> delivered (map (\<lambda>c. Read_Data [c]) b) = b"
proof -
  have "concat (map (piece \<circ> (\<lambda>c. Read_Data [c])) b) = b" by (induction b) simp_all
  then show ?thesis by (auto simp: arrives_def delivered_def)
qed

text \<open>
  C37. The reason of a refusal reaches the operator: when the server answers with an error, and the bytes it has
  set out to send arrive, in pieces of any size, the tool prints the server's own message and the
  status on its standard error and exits with 1.
\<close>

theorem refusal_reaches_operator:
  assumes "respond_error env status msg sv cc = (sv', cc')" and "cn_open cc" and "cn_open cc'" and "\<not> cn_head_only cc"
    and "cn_blob cc = None" and "300 \<le> status" and "status < 2 ^ 31" and "NUL \<notin> set msg"
    and "arrives rs" and "delivered rs = cn_hdr cc' @ response_body cc'"
  shows "\<exists>rb r. read_all_response (\<lambda>_. False) rs = Some rb
    \<and> read_response (\<lambda>_. False) strtod (rb_buf rb) = Some r
    \<and> emit cenv g_out r js fmt =
        (1, [(Stderr, ''cixcachectl: '' @ msg @ '' (HTTP '' @ int_dec status @ '')'' @ [LF])], False)"
proof -
  obtain rb where "read_all_response (\<lambda>_. False) rs = Some rb"
    "read_response (\<lambda>_. False) strtod (rb_buf rb) =
      Some \<lparr>rs_status = status, rs_content_type = ''application/json'', rs_body = Some (jw_buf (error_json msg)),
            rs_json = Some (JSON_OBJECT [(''error'', JSON_STRING msg)])\<rparr>"
    using json_answer_heard [OF assms(1) [unfolded respond_error_json] assms(2-5) _ assms(7) error_json_parsed [OF assms(8)] assms(9,10)]
      assms(6) by fastforce
  then show ?thesis using assms(6) by (simp add: emit_def json_object_get_def json_as_string_def)
qed

theorem refusal_reaches_operator_witness:
  "\<exists>rb r. read_all_response (\<lambda>_. False)
      (map (\<lambda>c. Read_Data [c]) (cn_hdr (snd (respond_error calm_senv 401 ''no'' (small_server sample_store) sample_conn))
        @ response_body (snd (respond_error calm_senv 401 ''no'' (small_server sample_store) sample_conn)))) = Some rb
    \<and> read_response (\<lambda>_. False) whole_strtod (rb_buf rb) = Some r
    \<and> emit sample_cli Stdout r False None = (1, [(Stderr, ''cixcachectl: no (HTTP 401)'' @ [LF])], False)"
proof -
  obtain sv' cc' where run: "respond_error calm_senv 401 ''no'' (small_server sample_store) sample_conn = (sv', cc')" by fastforce
  have "cn_open (snd (respond_error calm_senv 401 ''no'' (small_server sample_store) sample_conn))" by code_simp
  then have conn: "cn_open sample_conn" "cn_open cc'" "\<not> cn_head_only sample_conn" "cn_blob sample_conn = None"
    using run by (simp_all add: sample_conn_def conn_new_def)
  let ?rs = "map (\<lambda>c. Read_Data [c]) (cn_hdr cc' @ response_body cc')"
  have ok: "300 \<le> (401 :: int)" "(401 :: int) < 2 ^ 31" "NUL \<notin> set ''no''" by simp_all
  have sent: "arrives ?rs" "delivered ?rs = cn_hdr cc' @ response_body cc'"
    by (rule conjunct1 [OF bytewise], rule conjunct2 [OF bytewise])
  have "int_dec 401 = ''401''" by code_simp
  then show ?thesis
    using refusal_reaches_operator [OF run conn ok sent, of whole_strtod sample_cli Stdout False None] run by simp
qed

section \<open>Exit codes\<close>

text \<open>A command that is refused for its arguments, and what every command returns.\<close>

definition exits :: "socket list \<Rightarrow> cli_result \<Rightarrow> bool" where
  "exits net res \<longleftrightarrow> cr_exit res = 0 \<or> cr_exit res = 1 \<or> cr_exit res = 2 \<and> cr_sent res = [] \<and> cr_net res = net"

lemma exits_failed [simp]: "exits net (failed 0 out sent net')" "exits net (failed 1 out sent net')"
  "exits net (failed 2 out [] net)"
  by (simp_all add: exits_def failed_def)

lemma exits_one_call [simp]: "exits net (one_call env c js m p token fmt paged net)"
  by (simp add: one_call_def exits_def failed_def emit_def Let_def split: prod.split option.split)

lemma exits_log_follow: "exits net (log_follow env c token after net)"
proof (induction env c token after net rule: log_follow.induct)
  case (1 env c token after net)
  obtain sent x net' where run:
    "cix_client_request_with_auth (ce_nomem env) (ce_strtod env) c ''GET'' (log_path after) token None net = (sent, x, net')"
    by (metis prod_cases3)
  show ?case
  proof (cases x)
    case (Some r)
    show ?thesis
    proof (cases "rs_status r < 200 \<or> rs_status r \<ge> 300")
      case False
      then have ih: "exits net' (log_follow env c token (int_field env (rs_json r) ''seq'') net')"
        using 1 [OF run [symmetric] refl Some] by blast
      have never: "cr_exit (log_follow env c token a n) \<noteq> 2" for a n
        by (induction env c token a n rule: log_follow.induct)
          (subst log_follow.simps, auto simp: failed_def Let_def split: prod.split option.split)
      then show ?thesis using run Some False ih
        by (subst log_follow.simps) (auto simp: exits_def Let_def)
    qed (use run Some in \<open>subst log_follow.simps, simp\<close>)
  qed (use run in \<open>subst log_follow.simps, simp\<close>)
qed

lemma exits_put: "exits net (cmd_put env c args net)"
  by (simp add: cmd_put_def put_exchange_def Let_def split: sum.split option.split prod.split)

lemma exits_dispatch: "exits net (dispatch_command env c js cmd args net)"
  by (simp add: dispatch_command_def Let_def cmd_log_follow_def exits_log_follow exits_put)

text \<open>
  The exit code says what happened: it is 0, 1 or 2, and 2, a complaint about the command line, means that
  nothing was sent and no connection attempted, whatever the command and its options.
\<close>

theorem usage_errors_send_nothing:
  "cr_exit (cli_main env argv0 args net) = 0 \<or> cr_exit (cli_main env argv0 args net) = 1
   \<or> cr_exit (cli_main env argv0 args net) = 2 \<and> cr_sent (cli_main env argv0 args net) = []
     \<and> cr_net (cli_main env argv0 args net) = net"
proof -
  have "exits net (cli_command env args net)"
    by (simp add: cli_command_def Let_def exits_dispatch split: option.split prod.split list.split)
  then show ?thesis by (simp add: cli_main_def Let_def exits_def)
qed

section \<open>Commands that read\<close>

lemma dry_run_option: "co_dry_run (command_options args o1) \<longleftrightarrow> co_dry_run o1 \<or> ''--dry-run'' \<in> set args"
  by (induction args arbitrary: o1) auto

definition reads_only :: "string \<Rightarrow> string list \<Rightarrow> bool" where
  "reads_only cmd args \<longleftrightarrow> cmd \<in> {''status'', ''list'', ''ls'', ''manifest'', ''log'', ''import-status''}
     \<or> cmd = ''gc'' \<and> ''--dry-run'' \<in> set args"

definition gets :: "cli_result \<Rightarrow> bool" where
  "gets res \<longleftrightarrow> (\<forall>s \<in> set (cr_sent res). \<exists>rest later. s @ rest = ''GET '' @ later)"

lemma request_gets:
  assumes "cix_client_request_with_auth nomem strtod c ''GET'' p token None net = (sents, r, net')"
  shows "\<forall>s \<in> set sents. \<exists>rest later. s @ rest = ''GET '' @ later"
proof
  fix s assume s: "s \<in> set sents"
  have "\<exists>rest. s @ rest = request_header c ''GET'' p token None @ (case None of None \<Rightarrow> [] | Some b \<Rightarrow> b)"
    using request_attempts_shape [OF assms] s by blast
  then show "\<exists>rest later. s @ rest = ''GET '' @ later" by (auto simp: request_header_def)
qed

lemma one_call_gets: "gets (one_call env c js ''GET'' p token fmt paged net)"
  using request_gets [of "ce_nomem env" "ce_strtod env" c p token net]
  by (auto simp: one_call_def gets_def failed_def split: prod.split option.split)

lemma log_follow_gets: "gets (log_follow env c token after net)"
proof (induction env c token after net rule: log_follow.induct)
  case (1 env c token after net)
  obtain sent x net' where run:
    "cix_client_request_with_auth (ce_nomem env) (ce_strtod env) c ''GET'' (log_path after) token None net = (sent, x, net')"
    by (metis prod_cases3)
  note sent = request_gets [OF run]
  show ?case
  proof (cases x)
    case None
    then show ?thesis using run sent by (subst log_follow.simps) (simp add: gets_def failed_def)
  next
    case (Some r)
    show ?thesis
    proof (cases "rs_status r < 200 \<or> rs_status r \<ge> 300")
      case True
      then show ?thesis using run sent Some by (subst log_follow.simps) (simp add: gets_def failed_def)
    next
      case False
      then have "gets (log_follow env c token (int_field env (rs_json r) ''seq'') net')"
        using 1 [OF run [symmetric] refl Some] by blast
      then show ?thesis using run sent Some False
        by (subst log_follow.simps) (auto simp: gets_def Let_def)
    qed
  qed
qed

text \<open>
  The reading commands read: \<^verbatim>\<open>status\<close>, \<^verbatim>\<open>list\<close>, \<^verbatim>\<open>manifest\<close>, \<^verbatim>\<open>log\<close>, followed or not, \<^verbatim>\<open>import-status\<close> and \<^verbatim>\<open>gc --dry-run\<close>
  send nothing but GET requests, on any attempt and whatever the server answers.
\<close>

theorem reading_commands_send_gets:
  assumes "reads_only cmd args"
  shows "\<forall>s \<in> set (cr_sent (dispatch_command env c js cmd args net)). \<exists>rest later. s @ rest = ''GET '' @ later"
proof -
  have "gets (dispatch_command env c js cmd args net)"
  proof (cases "cmd = ''gc''")
    case True
    then have "''--dry-run'' \<in> set args" using assms by (simp add: reads_only_def)
    then show ?thesis using True dry_run_option [of args]
      by (simp add: dispatch_command_def Let_def is_cmd_def one_call_gets)
  next
    case False
    then have "cmd \<in> {''status'', ''list'', ''ls'', ''manifest'', ''log'', ''import-status''}"
      using assms by (simp add: reads_only_def)
    then show ?thesis
      by (elim insertE emptyE)
        (simp_all add: dispatch_command_def Let_def is_cmd_def one_call_gets cmd_log_follow_def log_follow_gets)
  qed
  then show ?thesis by (simp add: gets_def)
qed

theorem reading_commands_send_gets_witness:
  "\<exists>rest later. last (cr_sent (dispatch_command sample_cli sample_client False ''gc'' [''--dry-run''] [answering_socket])) @ rest
     = ''GET '' @ later"
proof -
  have "reads_only ''gc'' [''--dry-run'']" by (simp add: reads_only_def)
  moreover have "cr_sent (dispatch_command sample_cli sample_client False ''gc'' [''--dry-run''] [answering_socket]) \<noteq> []"
    by code_simp
  ultimately show ?thesis using reading_commands_send_gets last_in_set by metis
qed

end
