(* ===== verification/Cli_Output.thy ===== *)
theory Cli_Output
  imports Cli_Props
begin

text \<open>
  What the tool reports: when an upload counts as published and what the status line of the answer must bring,
  the sizes it prints, the buffers of the listing, and the log that is followed.
\<close>

section \<open>Published\<close>

text \<open>The bytes of a file up to its end, or to the first read that fails.\<close>

fun file_text :: "read_result list \<Rightarrow> bytes" where
  "file_text [] = []"
| "file_text (r # rs) =
     (case r of
        Read_Intr \<Rightarrow> file_text rs
      | Read_Data d \<Rightarrow> if d = [] then [] else take UPLOAD_BUF d @ file_text rs
      | _ \<Rightarrow> [])"

lemma put_stream_whole: "put_stream rs ws = (True, body) \<Longrightarrow> body = file_text rs"
proof (induction rs arbitrary: ws body)
  case (Cons r rs)
  show ?case
  proof (cases r)
    case (Read_Data d)
    show ?thesis
    proof (cases "d = []")
      case False
      have ne: "take UPLOAD_BUF d \<noteq> []" using False by (simp add: UPLOAD_BUF_def)
      obtain ok sent ws' where w: "cix_write_all ws (take UPLOAD_BUF d) = (ok, sent, ws')" by (metis prod_cases3)
      obtain ok' later where p: "put_stream rs ws' = (ok', later)" by fastforce
      have oks: "ok" "ok'" "body = sent @ later" using Cons.prems Read_Data ne w p by (auto simp: Let_def split: if_splits)
      then have "sent = take UPLOAD_BUF d" "later = file_text rs"
        using write_all_whole [of ws _ sent ws'] w Cons.IH [of ws' later] p by auto
      then show ?thesis using oks Read_Data False by simp
    qed (use Cons.prems Read_Data in simp)
  qed (use Cons in auto)
qed simp

text \<open>
  C33. \<open>published\<close> is said only of what was published: when the upload command exits with 0, it sent one request, its
  head followed by the text of the file as far as it could be read, the first bytes of the answer said
  2xx, and it printed the number of bytes sent.
\<close>

theorem published_only_if_accepted:
  assumes "cr_exit (cmd_put env c args net) = 0"
  shows "\<exists>p path name digest len fl so.
    put_options args \<lparr>po_path = None, po_name = None, po_token = None, po_digest = None\<rparr> = Inr p
    \<and> po_path p = Some path \<and> po_name p = Some name \<and> po_digest p = Some digest
    \<and> ce_open env path = Inr (Some len, fl) \<and> cix_client_connect_raw c net = (Some so, cr_net (cmd_put env c args net))
    \<and> cr_sent (cmd_put env c args net) = [put_request c name len digest (po_token p) @ file_text fl]
    \<and> put_status (so_reads so (put_request c name len digest (po_token p) @ file_text fl)) \<in> {200..<300}
    \<and> cr_output (cmd_put env c args net) =
        [(Stdout, ''published '' @ name @ '' ('' @ nat_dec (length (file_text fl)) @ '' bytes)'' @ [LF])]"
proof -
  obtain p where p: "put_options args \<lparr>po_path = None, po_name = None, po_token = None, po_digest = None\<rparr> = Inr p"
    using assms by (auto simp: cmd_put_def failed_def split: sum.splits)
  obtain path name digest where o: "po_path p = Some path" "po_name p = Some name" "po_digest p = Some digest"
    using assms p by (auto simp: cmd_put_def failed_def split: option.splits)
  note run1 = assms [unfolded cmd_put_def p o prod.case sum.case option.case]
  obtain len fl where f: "ce_open env path = Inr (Some len, fl)"
    using run1 by (auto simp: failed_def split: sum.splits option.splits)
  obtain s0 net' where s0: "cix_client_connect_raw c net = (s0, net')" by fastforce
  then obtain so where so: "cix_client_connect_raw c net = (Some so, net')"
    using run1 f by (cases s0) (simp_all add: failed_def)
  have eq: "cmd_put env c args net = put_exchange c name digest (po_token p) len fl so net'"
    unfolding cmd_put_def p o prod.case sum.case option.case f so ..
  let ?req = "put_request c name len digest (po_token p)"
  obtain ok sent ws where w: "write_once (so_writes so) ?req = (ok, sent, ws)" by (metis prod_cases3)
  obtain ok' body where b: "put_stream fl ws = (ok', body)" by fastforce
  note run2 = assms [unfolded eq put_exchange_def w b prod.case Let_def]
  have oks: "ok" "ok'" using run2 by (auto simp: failed_def split: if_splits)
  have sent: "sent = ?req"
    using w oks(1) by (auto simp: write_once_def split: list.splits write_result.splits)
  have body: "body = file_text fl" using put_stream_whole b oks(2) by simp
  let ?st = "put_status (so_reads so (?req @ file_text fl))"
  have st: "200 \<le> ?st \<and> ?st < 300" using run2 oks by (auto simp: failed_def sent body split: if_splits)
  have "cmd_put env c args net =
      failed 0 [(Stdout, ''published '' @ name @ '' ('' @ nat_dec (length (file_text fl)) @ '' bytes)'' @ [LF])]
        [?req @ file_text fl] net'"
    using st oks by (simp add: eq put_exchange_def w b sent body Let_def)
  then show ?thesis using p o f so st by (simp add: failed_def)
qed

definition sample_put :: "string list" where
  "sample_put = [''f'', ''--name=z-1.iso'', ''--sha256=aa'', ''--token=tok'']"

definition uploading_socket :: socket where
  "uploading_socket = answering_socket\<lparr>so_writes := [], so_reads := \<lambda>_. [Read_Data sample_head]\<rparr>"

theorem published_only_if_accepted_witness:
  "cr_sent (cmd_put sample_cli sample_client sample_put [uploading_socket])
     = [put_request sample_client ''z-1.iso'' 2 ''aa'' (Some ''tok'') @ ''xy'']"
proof -
  have run: "cr_exit (cmd_put sample_cli sample_client sample_put [uploading_socket]) = 0" by code_simp
  obtain p path name digest len fl where got:
    "put_options sample_put \<lparr>po_path = None, po_name = None, po_token = None, po_digest = None\<rparr> = Inr p"
    "po_path p = Some path" "po_name p = Some name" "po_digest p = Some digest" "ce_open sample_cli path = Inr (Some len, fl)"
    "cr_sent (cmd_put sample_cli sample_client sample_put [uploading_socket])
       = [put_request sample_client name len digest (po_token p) @ file_text fl]"
    using published_only_if_accepted [OF run] by blast
  have "put_options sample_put \<lparr>po_path = None, po_name = None, po_token = None, po_digest = None\<rparr>
      = Inr \<lparr>po_path = Some ''f'', po_name = Some ''z-1.iso'', po_token = Some ''tok'', po_digest = Some ''aa''\<rparr>"
    by code_simp
  then show ?thesis using got by (auto simp: sample_cli_def UPLOAD_BUF_def)
qed

section \<open>The status of the answer\<close>

lemma nat_dec_three:
  assumes "100 \<le> n" and "n < 1000"
  shows "nat_dec n = [char_of (48 + n div 100), char_of (48 + n div 10 mod 10), char_of (48 + n mod 10)]"
proof -
  have "\<not> n < 10" "\<not> n div 10 < 10" "n div 10 div 10 < 10" "n div 10 div 10 = n div 100" using assms by auto
  then show ?thesis by (simp add: nat_dec.simps [of n] nat_dec.simps [of "n div 10"] nat_dec.simps [of "n div 100"])
qed

lemma scan_int_one: "d < 10 \<Longrightarrow> r = [] \<or> \<not> c_isdigit (hd r) \<Longrightarrow> scan_int (char_of (48 + d) # r) = Some (int d, r)"
  using scan_int_nat_dec [of d r] by (simp add: nat_dec.simps [of d])

lemma scan_int_two:
  assumes "0 < a" "a < 10" "b < 10"
  shows "scan_int [char_of (48 + a), char_of (48 + b)] = Some (int (10 * a + b), [])"
proof -
  have "nat_dec (10 * a + b) = [char_of (48 + a), char_of (48 + b)]"
    using assms by (simp add: nat_dec.simps [of "10 * a + b"] nat_dec.simps [of a])
  then show ?thesis using scan_int_nat_dec [of "10 * a + b" "[]"] assms by simp
qed

text \<open>
  The tool knows the status of an upload only when the first read brings it: with at least the 12 bytes of
  \<^verbatim>\<open>HTTP/1.1 201\<close> of an answer the server formatted it reads exactly the server's status, with fewer it never
  reads a success, whatever the server said.
\<close>

theorem put_status_first_read:
  assumes "http_format_header n status text ctype len extra = Some hdr" and "100 \<le> status" and "status < 1000"
    and "0 < k" and "k \<le> 4095" and "k \<le> length (hdr @ body)"
  shows "if k < 12 then put_status (Read_Data (take k (hdr @ body)) # later) < 100
    else put_status (Read_Data (take k (hdr @ body)) # later) = status"
proof -
  let ?n = "nat status"
  let ?a = "?n div 100" and ?b = "?n div 10 mod 10" and ?c = "?n mod 10"
  have n: "100 \<le> ?n" "?n < 1000" "status = int ?n" using assms(2,3) by simp_all
  have dec: "int_dec status = [char_of (48 + ?a), char_of (48 + ?b), char_of (48 + ?c)]"
    using nat_dec_three [OF n(1,2)] assms(2) by (simp add: int_dec_def)
  obtain rest where hdr: "hdr = ''HTTP/1.1 '' @ int_dec status @ '' '' @ rest"
    using assms(1) by (auto simp: http_format_header_def Let_def split: if_splits)
  have d: "?a < 10" "?b < 10" "?c < 10" "0 < ?a" using n by auto
  have nul: "char_of (48 + x) \<noteq> NUL" if "x < 10" for x :: nat
  proof -
    have "byte NUL = 0" by (simp add: byte_def)
    then show ?thesis using byte_digit [OF that] by (metis add_is_0 zero_neq_numeral)
  qed
  have sp: "\<not> c_isspace (char_of (48 + x))" if "x < 10" for x :: nat
    using byte_digit [OF that] that by (simp add: c_isspace_def)
  have space: "scan_space (CHR '' '' # char_of (48 + ?a) # r) = char_of (48 + ?a) # r" for r
    using sp [OF d(1)] by (simp add: scan_space_def) (simp add: c_isspace_def byte_def)
  have one: "scan_int (CHR ''1'' # r) = Some (1, r)" if "r = [] \<or> hd r = CHR '' ''" for r
  proof -
    have "r = [] \<or> \<not> c_isdigit (hd r)" using that by (auto simp: c_isdigit_def byte_def)
    moreover have "CHR ''1'' = char_of (48 + 1 :: nat)" by code_simp
    ultimately show ?thesis using scan_int_one [of 1 r] by (simp only:) simp
  qed
  have first: "take k (hdr @ body) = take k (''HTTP/1.1 '' @ [char_of (48 + ?a), char_of (48 + ?b), char_of (48 + ?c)] @ '' '' @ rest @ body)"
    by (simp add: hdr dec)
  show ?thesis
  proof (cases "k < 12")
    case True
    then have "k = 1 \<or> k = 2 \<or> k = 3 \<or> k = 4 \<or> k = 5 \<or> k = 6 \<or> k = 7 \<or> k = 8 \<or> k = 9 \<or> k = 10 \<or> k = 11"
      using assms(4) by arith
    moreover have "scan_int [char_of (48 + ?a)] = Some (int ?a, [])" using scan_int_one [OF d(1), of "[]"] by simp
    moreover have "scan_int [char_of (48 + ?a), char_of (48 + ?b)] = Some (int (10 * ?a + ?b), [])"
      by (rule scan_int_two [OF d(4,1,2)])
    moreover have "scan_int [] = None" by code_simp
    moreover have "scan_space [] = []" "scan_space '' '' = []" by code_simp+
    ultimately have "put_status (Read_Data (take k (hdr @ body)) # later) < 100"
      using one space nul [OF d(1)] nul [OF d(2)] d unfolding first
      by (elim disjE) (simp_all add: put_status_def c_str_def Let_def)
    then show ?thesis using True by simp
  next
    case False
    have "take k (u @ v) = u @ take (k - 12) v" if "length u = 12" for u v :: string using False that by simp
    from this [of "''HTTP/1.1 '' @ int_dec status" "'' '' @ rest @ body"]
    have "take k (hdr @ body) = ''HTTP/1.1 '' @ int_dec status @ take (k - 12) ('' '' @ rest @ body)"
      by (simp add: dec hdr)
    note got = this
    have cut: "take 4095 (take k x) = take k x" for x :: string using assms(5) by (simp add: min_def)
    have cs: "c_str (take 4095 (take k (hdr @ body))) = ''HTTP/1.1 '' @ int_dec status @ c_str (take (k - 12) ('' '' @ rest @ body))"
      unfolding cut unfolding got dec using nul [OF d(1)] nul [OF d(2)] nul [OF d(3)] by (simp add: c_str_def del: take_append)
    have tail: "c_str (take (k - 12) ('' '' @ x)) = [] \<or> \<not> c_isdigit (hd (c_str (take (k - 12) ('' '' @ x))))" for x
      by (cases "k - 12") (auto simp: c_str_def c_isdigit_def byte_def)
    have "?n < 2 ^ 31" using n(2) by simp
    from scan_int_nat_dec [OF this tail]
    have "scan_int (int_dec status @ c_str (take (k - 12) ('' '' @ rest @ body))) = Some (status, c_str (take (k - 12) ('' '' @ rest @ body)))"
      using assms(2) by (simp add: int_dec_def)
    then show ?thesis
      using False one space unfolding put_status_def list.case read_result.case cs Let_def by (simp add: dec)
  qed
qed

theorem put_status_first_read_witness:
  "put_status [Read_Data (take 11 sample_head), Read_Data (drop 11 sample_head)] < 100"
proof -
  have fmt: "http_format_header 512 204 ''No Content'' ''application/json'' 0 [] = Some sample_head" by code_simp
  have ok: "100 \<le> (204 :: int)" "(204 :: int) < 1000" "0 < (11 :: nat)" "11 \<le> (4095 :: nat)" "11 \<le> length (sample_head @ [])"
    by (simp_all add: sample_head_def)
  show ?thesis using put_status_first_read [OF fmt ok] by simp
qed


section \<open>Sizes\<close>

lemma round_even_close: "0 < b \<Longrightarrow> 2 * \<bar>round_even a b * b - a\<bar> \<le> b"
proof -
  assume b: "0 < b"
  have a: "a = a div b * b + a mod b" by simp
  have r: "0 \<le> a mod b" "a mod b < b" using b by simp_all
  have eq: "round_even a b * b - a = (if 2 * (a mod b) < b \<or> 2 * (a mod b) = b \<and> even (a div b) then - (a mod b) else b - a mod b)"
  proof -
    have "(a div b + 1) * b - a = b - a mod b" "a div b * b - a = - (a mod b)"
      using a by (simp_all only: distrib_right)
    then show ?thesis by (simp add: round_even_def Let_def)
  qed
  show ?thesis unfolding eq using r by auto
qed

lemma to_double_exact: "n < 2 ^ 53 \<Longrightarrow> to_double n = n"
proof -
  assume "n < 2 ^ 53"
  then have "nat n < 2 ^ 53" by (cases "0 \<le> n") (simp_all add: nat_less_iff)
  then show ?thesis by (simp add: to_double_def excess_bits.simps [of "nat n"] round_even_def)
qed

lemma unit_loop_finds:
  "i \<le> 4 \<Longrightarrow> i = 0 \<or> 1024 ^ i \<le> d \<Longrightarrow>
   unit_loop d i \<le> 4 \<and> (unit_loop d i = 0 \<or> 1024 ^ unit_loop d i \<le> d)
   \<and> (unit_loop d i = 4 \<or> d < 1024 ^ (unit_loop d i + 1))"
proof (induction d i rule: unit_loop.induct)
  case (1 d i)
  show ?case
  proof (cases "d \<ge> 1024 * 1024 ^ i \<and> i < 4")
    case True
    then have "unit_loop d i = unit_loop d (i + 1)" by (simp add: unit_loop.simps [of d i])
    then show ?thesis using 1 True by simp
  next
    case False
    then have "unit_loop d i = i" by (subst unit_loop.simps) auto
    then show ?thesis using 1(2,3) False by auto
  qed
qed

lemma half_more:
  fixes b y :: int
  shows "b < y \<Longrightarrow> 2 * y \<le> b \<Longrightarrow> 0 < b \<Longrightarrow> False"
  by linarith

lemma int_dec_short: "0 \<le> i \<Longrightarrow> i < 10 ^ k \<Longrightarrow> 0 < k \<Longrightarrow> length (int_dec i) \<le> k"
  using length_nat_dec [of "nat i" k] by (simp add: int_dec_def nat_less_iff)

text \<open>
  The sizes printed are right: the unit is the largest power of 1024, up to T, that is not more than the
  number, the number printed is within half of its last digit, and up to 8 PiB the text has at most 7
  characters, so that it is never cut and never wider than its column.
\<close>

theorem human_bytes_accurate:
  assumes "0 \<le> n" and "n < 2 ^ 53"
  shows "\<exists>i t. i \<le> 4 \<and> (i = 0 \<or> 1024 ^ i \<le> n) \<and> (i = 4 \<or> n < 1024 ^ (i + 1))
    \<and> 2 * \<bar>t * 1024 ^ i - 10 * n\<bar> \<le> 1024 ^ i
    \<and> human_bytes n 16 = (if i = 0 then int_dec n @ ''B''
        else int_dec (t div 10) @ ''.'' @ int_dec (t mod 10) @ byte_units ! i)
    \<and> length (human_bytes n 16) \<le> 7"
proof -
  define i where "i = unit_loop n 0"
  have i: "i \<le> 4" "i = 0 \<or> 1024 ^ i \<le> n" "i = 4 \<or> n < 1024 ^ (i + 1)"
    using unit_loop_finds [of 0 n] by (auto simp: i_def)
  define t where "t = round_even (10 * n) (1024 ^ i)"
  have close: "2 * \<bar>t * 1024 ^ i - 10 * n\<bar> \<le> 1024 ^ i" unfolding t_def by (rule round_even_close) simp
  have d: "\<not> n < 0" "to_double n = n" using assms to_double_exact by simp_all
  have human: "human_bytes n 16 = snprintf 16 (if i = 0 then int_dec n @ ''B''
      else int_dec (t div 10) @ ''.'' @ int_dec (t mod 10) @ byte_units ! i)" (is "_ = snprintf 16 ?w")
    using d by (simp add: human_bytes_def Let_def i_def [symmetric] t_def byte_units_def)
  have "length ?w \<le> 7"
  proof (cases "i = 0")
    case True
    then show ?thesis using i(3) assms(1) int_dec_short [of n 4] by auto
  next
    case False
    have "n < 8192 * 1024 ^ i"
      using i assms(2) by (cases "i = 4") (auto simp: power_add)
    then have "10 * n < 81920 * 1024 ^ i" by simp
    have hi: "t \<le> 81920"
    proof (rule ccontr)
      assume "\<not> t \<le> 81920"
      then have "81921 * 1024 ^ i \<le> t * 1024 ^ i" by (intro mult_right_mono) simp_all
      moreover define b :: int where "b = 1024 ^ i"
      ultimately have "81921 * b \<le> t * b" "10 * n < 81920 * b" "2 * \<bar>t * b - 10 * n\<bar> \<le> b" "0 < b"
        using \<open>10 * n < 81920 * 1024 ^ i\<close> close by simp_all
      then have "81920 * b + b \<le> t * b" by (simp add: distrib_right [of 81920 1 b, simplified])
      then have "b < t * b - 10 * n" using \<open>10 * n < 81920 * b\<close> by linarith
      moreover have "2 * (t * b - 10 * n) \<le> b"
        by (rule order_trans [OF _ \<open>2 * \<bar>t * b - 10 * n\<bar> \<le> b\<close>]) (intro mult_left_mono abs_ge_self, simp)
      ultimately show False using \<open>0 < b\<close> by (rule half_more)
    qed
    have "0 \<le> t" unfolding t_def round_even_def Let_def using assms(1) by (simp add: div_int_pos_iff)
    then have "length (int_dec (t div 10)) \<le> 4" "length (int_dec (t mod 10)) \<le> 1"
      using hi by (auto intro!: int_dec_short)
    moreover have "length (byte_units ! i) = 1"
    proof -
      have "i = 1 \<or> i = 2 \<or> i = 3 \<or> i = 4" using i(1) False by arith
      then show ?thesis by (elim disjE) (simp_all add: byte_units_def)
    qed
    ultimately show ?thesis using False by simp
  qed
  then have "human_bytes n 16 = ?w" "length (human_bytes n 16) \<le> 7" using human by (simp_all add: snprintf_def)
  then show ?thesis using i close by blast
qed

theorem human_bytes_accurate_witness: "length (human_bytes 1048575 16) \<le> 7"
proof -
  have "0 \<le> (1048575 :: int)" "(1048575 :: int) < 2 ^ 53" by simp_all
  from human_bytes_accurate [OF this] show ?thesis by (elim exE conjE)
qed

section \<open>The listing's buffer\<close>

definition col_width :: "string \<Rightarrow> nat" where
  "col_width s = max 8 (length s) + 1"

text \<open>
  The 80 bytes for the optional columns hold exactly so much: the tool writes outside them when another column
  follows one that has already filled more than 80, which a long enough format or architecture in
  the server's answer brings about, and not otherwise.
\<close>

theorem columns_overrun_exact:
  "cb_bad (extra_columns g fmt arch sig) \<longleftrightarrow>
     g_show_format g \<and> col_width fmt > 80 \<and> (g_show_arch g \<or> g_show_signed g)
     \<or> g_show_signed g \<and> (if g_show_format g then col_width fmt else 0) + (if g_show_arch g then col_width arch else 0) > 80"
  by (auto simp: extra_columns_def add_col_def col_width_def Let_def)

lemma columns_within:
  "length fmt \<le> 39 \<Longrightarrow> length arch \<le> 39 \<Longrightarrow> \<not> cb_bad (extra_columns g fmt arch sig)"
  by (auto simp: extra_columns_def add_col_def Let_def max_def)

text \<open>A listing whose formats and architectures are short.\<close>

definition short_record :: "'n json_value \<Rightarrow> bool" where
  "short_record r \<longleftrightarrow> length (str_field (Some r) ''arch'') \<le> 39
     \<and> (case formats_of (Some r) of None \<Rightarrow> True
        | Some fs \<Rightarrow> list_all (\<lambda>f. length (str_field (Some f) ''format'') \<le> 39) fs)"

lemma format_line_within:
  "length (str_field v ''arch'') \<le> 39 \<Longrightarrow> length (str_field (Some f) ''format'') \<le> 39 \<Longrightarrow> \<not> fst (format_line env g v first f)"
  using columns_within [of "str_field (Some f) ''format''" "or_dash (str_field v ''arch'')" g]
  by (simp add: format_line_def Let_def or_dash_def)

lemma format_lines_within:
  "length (str_field v ''arch'') \<le> 39 \<Longrightarrow> list_all (\<lambda>f. length (str_field (Some f) ''format'') \<le> 39) fs \<Longrightarrow>
   \<not> fst (format_lines env g v first fs)"
  by (induction fs arbitrary: first) (simp_all add: both_def format_line_within)

lemma artifact_lines_within: "list_all short_record rs \<Longrightarrow> \<not> fst (artifact_lines env g rs)"
  by (induction rs)
    (auto simp: both_def short_record_def fmt_artifact_line_def format_lines_within split: option.splits)

text \<open>
  A listing is printed within its buffers whenever no format and no architecture in it is longer than 39
  bytes, whatever else the answer holds and whatever columns it calls for.
\<close>

theorem listing_within_buffers:
  assumes "\<And>rs. json_object_get v ''artifacts'' = Some (JSON_ARRAY rs) \<Longrightarrow> list_all short_record rs"
  shows "\<not> fst (fmt_artifacts env v)"
  using assms artifact_lines_within
  by (auto simp: fmt_artifacts_def both_def Let_def split: option.split json_value.split)

theorem listing_within_buffers_witness:
  "\<not> fst (fmt_artifacts sample_cli (Some (JSON_OBJECT [(''artifacts'', JSON_ARRAY
     [JSON_OBJECT [(''arch'', JSON_STRING ''x86_64''), (''formats'', JSON_ARRAY [JSON_OBJECT [(''format'', JSON_STRING ''.iso'')]])]])])))"
  by (rule listing_within_buffers)
    (auto simp: json_object_get_def short_record_def str_field_def json_as_string_def formats_of_def)

section \<open>Following the log\<close>

text \<open>
  A server whose log is the list of entries \<open>hist\<close>, as far as it has come when each request arrives, and
  which answers with the entries behind the one asked for, until a request fails: \<open>follows after n net\<close>, when
  \<open>after\<close> entries are known to the client at first and \<open>n\<close> in the end.
\<close>

inductive follows ::
  "'n cli_env \<Rightarrow> cix_client \<Rightarrow> string option \<Rightarrow> 'n json_value list \<Rightarrow> nat \<Rightarrow> nat \<Rightarrow> socket list \<Rightarrow> bool"
  for env c token hist where
  lost: "cix_client_request_with_auth (ce_nomem env) (ce_strtod env) c ''GET'' (log_path (int n)) token None net = (sents, None, net') \<Longrightarrow>
    follows env c token hist n n net"
| told: "cix_client_request_with_auth (ce_nomem env) (ce_strtod env) c ''GET'' (log_path (int after)) token None net = (sents, Some r, net') \<Longrightarrow>
    200 \<le> rs_status r \<Longrightarrow> rs_status r < 300 \<Longrightarrow>
    json_object_get (rs_json r) ''entries'' = Some (JSON_ARRAY (drop after (take seq hist))) \<Longrightarrow>
    int_field env (rs_json r) ''seq'' = int seq \<Longrightarrow> after \<le> seq \<Longrightarrow> follows env c token hist seq n net' \<Longrightarrow>
    follows env c token hist after n net"

definition standard_output :: "cli_result \<Rightarrow> string" where
  "standard_output res = concat (map snd (filter (\<lambda>o1. fst o1 = Stdout) (cr_output res)))"

lemma follow_shows:
  "follows env c token hist after n net \<Longrightarrow> after \<le> n
   \<and> standard_output (log_follow env c token (int after) net) = concat (map (log_line env) (drop after (take n hist)))
   \<and> cr_exit (log_follow env c token (int after) net) = 1"
proof (induction rule: follows.induct)
  case (lost n net sents net')
  then show ?case
    by (subst (1 2) log_follow.simps) (simp add: failed_def standard_output_def complain_def)
next
  case (told after net sents r net' seq n)
  have text_is: "snd (fmt_log env (rs_json r)) = concat (map (log_line env) (drop after (take seq hist)))"
    using told.hyps(4) by (simp add: fmt_log_def)
  have parts: "drop after (take n hist) = drop after (take seq hist) @ drop seq (take n hist)"
  proof -
    have "take n hist = take seq hist @ drop seq (take n hist)"
      using told.IH by (metis append_take_drop_id min.absorb1 take_take)
    moreover have "drop after (take seq hist @ x) = drop after (take seq hist) @ x" if "after \<le> length (take seq hist)" for x
      using that by simp
    moreover have "drop seq (take n hist) = []" if "\<not> after \<le> length (take seq hist)"
      using that told.hyps(6) by simp
    ultimately show ?thesis by (metis append.right_neutral)
  qed
  have step: "log_follow env c token (int after) net =
      (let res = log_follow env c token (int seq) net'
       in res\<lparr>cr_output := (Stdout, snd (fmt_log env (rs_json r))) # cr_output res, cr_sent := sents @ cr_sent res\<rparr>)"
    using told.hyps by (subst log_follow.simps) (simp add: Let_def)
  show ?case using told.IH told.hyps(6) by (simp add: step Let_def standard_output_def text_is parts)
qed


text \<open>A server with one entry, which then goes away.\<close>

definition log_entry_json :: "int json_value" where
  "log_entry_json = JSON_OBJECT [(''time_ms'', JSON_NUMBER 5000), (''level'', JSON_STRING ''info''), (''text'', JSON_STRING ''a'')]"

definition log_socket :: socket where
  "log_socket =
     \<lparr>so_accepts = (\<lambda>_ _. True), so_writes = [],
      so_reads = (\<lambda>_. [Read_Data (''HTTP/1.1 200 OK'' @ [CR, LF, CR, LF]
        @ jw_buf (jw_value Some (\<lambda>_. []) jw_init (JSON_OBJECT [(''entries'', JSON_ARRAY [log_entry_json]), (''seq'', JSON_NUMBER 1)])))])\<rparr>"

lemma log_socket_follows: "follows sample_cli sample_client None [log_entry_json] 0 1 [log_socket]"
proof -
  let ?request = "cix_client_request_with_auth (ce_nomem sample_cli) (ce_strtod sample_cli) sample_client ''GET''"
  have net: "snd (snd (?request (log_path (int 0)) None None [log_socket])) = []"
    and status: "map_option rs_status (fst (snd (?request (log_path (int 0)) None None [log_socket]))) = Some 200"
    and json: "map_option rs_json (fst (snd (?request (log_path (int 0)) None None [log_socket])))
      = Some (Some (JSON_OBJECT [(''entries'', JSON_ARRAY [log_entry_json]), (''seq'', JSON_NUMBER 1)]))"
    and gone: "fst (snd (?request (log_path (int 1)) None None [])) = None"
    by code_simp+
  obtain r where r: "fst (snd (?request (log_path (int 0)) None None [log_socket])) = Some r" using status by auto
  have one: "?request (log_path (int 0)) None None [log_socket] = (fst (?request (log_path (int 0)) None None [log_socket]), Some r, [])"
    using r net by (metis prod.collapse)
  have two: "?request (log_path (int 1)) None None [] =
      (fst (?request (log_path (int 1)) None None []), None, snd (snd (?request (log_path (int 1)) None None [])))"
    using gone by (metis prod.collapse)
  have end1: "follows sample_cli sample_client None [log_entry_json] 1 1 []" by (rule lost [OF two])
  have "rs_status r = 200" and
    j: "rs_json r = Some (JSON_OBJECT [(''entries'', JSON_ARRAY [log_entry_json]), (''seq'', JSON_NUMBER 1)])"
    using status json r by simp_all
  moreover have "int_field sample_cli (rs_json r) ''seq'' = int 1" unfolding j by code_simp
  ultimately show ?thesis
    by (intro told [OF one, where seq = 1] end1) (simp_all add: json_object_get_def)
qed


end
