(* ===== verification/Server_Json.thy ===== *)
theory Server_Json
  imports Server_Reports
begin

text \<open>
  The JSON answers of the server as trees: the calls of the writer that make an answer write the tree, so
  that the text parses to it, and no answer leaves the arrays of the writer.
\<close>

section \<open>Depth\<close>

lemma foldr_max_le: "foldr max xs (0 :: nat) \<le> n \<longleftrightarrow> list_all (\<lambda>x. x \<le> n) xs"
  by (induction xs) auto

lemma depth_le:
  "json_depth (JSON_ARRAY vs) \<le> Suc n \<longleftrightarrow> list_all (\<lambda>v. json_depth v \<le> n) vs"
  "json_depth (JSON_OBJECT ms) \<le> Suc n \<longleftrightarrow> list_all (\<lambda>(k, v). json_depth v \<le> n) ms"
  by (auto simp: foldr_max_le list_all_iff)

text \<open>Whether a writer has closed every container it opened and has stayed within its arrays.\<close>

definition complete :: "json_writer \<Rightarrow> bool" where
  "complete w \<longleftrightarrow> jw_stack w = [] \<and> \<not> jw_overrun w"

lemma put_value_complete: "json_depth v \<le> JW_MAX_DEPTH \<Longrightarrow> complete (put_value jw_init v)"
  using jw_overrun_iff [of Some "\<lambda>_. ''''" v]
  by (simp add: complete_def) (simp add: jw_value_render jw_init_def jw_value_prefix_def)

lemma foldl_items:
  assumes "\<And>w e. f w e = put_value w (g e)"
  shows "foldl f w es = jw_items Some (\<lambda>_. '''') w (map g es)"
  by (induction es arbitrary: w) (simp_all add: assms)

section \<open>The listing\<close>

definition has_signature :: "env \<Rightarrow> store \<Rightarrow> string \<Rightarrow> bool" where
  "has_signature env s name \<longleftrightarrow>
     (case store_signature_name name STORE_NAME_MAX of None \<Rightarrow> False
      | Some sg \<Rightarrow> (case store_resolve env s sg STORE_SHA256_MAX of Inl _ \<Rightarrow> False | Inr _ \<Rightarrow> True))"

definition suffix_text :: "string \<Rightarrow> string" where
  "suffix_text name = (case store_suffix_of name of Some x \<Rightarrow> x | None \<Rightarrow> '''')"

definition shows_signed :: "env \<Rightarrow> suffix_table \<Rightarrow> store \<Rightarrow> store_entry \<Rightarrow> bool" where
  "shows_signed env tbl s e \<longleftrightarrow> store_needs_signature tbl (e_name e) \<or> has_signature env s (e_name e)"

definition format_record :: "env \<Rightarrow> suffix_table \<Rightarrow> store \<Rightarrow> store_entry \<Rightarrow> int json_value" where
  "format_record env tbl s e =
     JSON_OBJECT
       ([(''format'', JSON_STRING (suffix_text (e_name e))), (''name'', JSON_STRING (e_name e))]
        @ (if shows_signed env tbl s e then [(''signed'', JSON_BOOL (has_signature env s (e_name e)))] else [])
        @ [(''sha256'', JSON_STRING (e_digest e)), (''bytes'', JSON_NUMBER (e_size e)),
           (''modified'', JSON_NUMBER (e_mtime e))])"

definition listed_formats :: "store_entry list \<Rightarrow> identity \<Rightarrow> store_entry list" where
  "listed_formats live g = take (id_n g) (drop (id_first g) live)"

definition shown_as :: "string \<Rightarrow> display" where
  "shown_as stem = store_split_display stem STORE_NAME_MAX STORE_NAME_MAX STORE_NAME_MAX"

definition identity_record ::
  "env \<Rightarrow> suffix_table \<Rightarrow> store \<Rightarrow> store_entry list \<Rightarrow> identity \<Rightarrow> int json_value" where
  "identity_record env tbl s live g =
     (let d = shown_as (id_stem g)
      in JSON_OBJECT
           [(''stem'', JSON_STRING (id_stem g)), (''artifact'', JSON_STRING (d_name d)),
            (''version'', JSON_STRING (d_version d)), (''release'', JSON_NUMBER (d_release d)),
            (''arch'', JSON_STRING (d_arch d)), (''version_rank'', JSON_NUMBER (id_version_rank g)),
            (''formats'', JSON_ARRAY (map (format_record env tbl s) (listed_formats live g))),
            (''bytes'', JSON_NUMBER (id_bytes g)), (''modified'', JSON_NUMBER (id_modified g))])"

definition artifacts_value :: "env \<Rightarrow> suffix_table \<Rightarrow> store \<Rightarrow> int json_value" where
  "artifacts_value env tbl s =
     (let live = listed_entries env s; ids = listed_identities env live
      in JSON_OBJECT
           [(''artifacts'', JSON_ARRAY (map (identity_record env tbl s live) ids)),
            (''count'', JSON_NUMBER (int (length ids))), (''files'', JSON_NUMBER (int (length live))),
            (''bytes'', JSON_NUMBER (sum_list (map id_bytes ids)))])"

lemma write_format_value: "write_format env tbl s w e = put_value w (format_record env tbl s e)"
  by (simp add: write_format_def format_record_def has_signature_def shows_signed_def suffix_text_def Let_def jw_members_append)

lemma write_identity_value: "write_identity env tbl s live w g = put_value w (identity_record env tbl s live g)"
  by (simp add: write_identity_def identity_record_def write_formats_def listed_formats_def shown_as_def Let_def
      foldl_items [OF write_format_value])

lemma foldl_bytes: "foldl (\<lambda>t g. t + id_bytes g) z ids = z + sum_list (map id_bytes ids)"
  by (induction ids arbitrary: z) simp_all

lemma artifacts_json_value: "artifacts_json env tbl s = put_value jw_init (artifacts_value env tbl s)"
  by (simp add: artifacts_json_def artifacts_value_def Let_def foldl_items [OF write_identity_value] foldl_bytes)

lemma artifacts_depth: "json_depth (artifacts_value env tbl s) \<le> 5"
  by (simp add: artifacts_value_def identity_record_def format_record_def Let_def eval_nat_numeral foldr_max_le list_all_iff)

section \<open>The other answers\<close>

definition status_value :: "senv \<Rightarrow> build_info \<Rightarrow> server \<Rightarrow> http_request \<Rightarrow> int json_value" where
  "status_value env bi sv req =
     (let c = status_counts (se_env env) (sv_store sv); d = shown_as (CIXCACHE_BUILD_VERSION bi)
      in JSON_OBJECT
           ([(''build'', JSON_OBJECT
                [(''identity'', JSON_STRING (CIXCACHE_BUILD_VERSION bi)), (''artifact'', JSON_STRING (d_name d)),
                 (''version'', JSON_STRING (d_version d)), (''release'', JSON_NUMBER (d_release d)),
                 (''arch'', JSON_STRING (d_arch d)), (''time'', JSON_STRING (CIXCACHE_BUILD_TIME bi)),
                 (''dirty'', JSON_BOOL (CIXCACHE_BUILD_DIRTY bi))])]
            @ (if operator_ok sv req then [(''root'', JSON_STRING (store_root (sv_store sv)))] else [])
            @ [(''uptime_seconds'', JSON_NUMBER (c_seconds (se_now_ms env - sv_started_ms sv))),
               (''requests'', JSON_NUMBER (sv_requests sv)), (''artifact_hits'', JSON_NUMBER (sv_artifact_hits sv)),
               (''artifact_misses'', JSON_NUMBER (sv_artifact_misses sv)),
               (''artifact_aliases'', JSON_NUMBER (sv_artifact_aliases sv)),
               (''served_bytes'', JSON_NUMBER (sv_served_bytes sv)), (''unstamped'', JSON_NUMBER (lc_unstamped c)),
               (''installers'', JSON_NUMBER (lc_installers c)),
               (''installer_bytes'', JSON_NUMBER (lc_installer_bytes c)), (''packages'', JSON_NUMBER (lc_count c)),
               (''unique_packages'', JSON_NUMBER (distinct_names c)), (''package_bytes'', JSON_NUMBER (lc_bytes c)),
               (''pull_open'', JSON_BOOL (cf_pull_token (sv_conf sv) = [])),
               (''push_configured'', JSON_BOOL (cf_push_token (sv_conf sv) \<noteq> []))]))"

definition log_record_value :: "log_entry \<Rightarrow> int json_value" where
  "log_record_value e =
     JSON_OBJECT [(''seq'', JSON_NUMBER (le_seq e)), (''time_ms'', JSON_NUMBER (le_wall_ms e)),
                  (''level'', JSON_STRING (le_level e)), (''text'', JSON_STRING (le_text e))]"

definition log_value :: "server \<Rightarrow> int \<Rightarrow> int json_value" where
  "log_value sv after =
     JSON_OBJECT [(''entries'', JSON_ARRAY (map log_record_value (log_entries sv after))),
                  (''seq'', JSON_NUMBER (sv_log_seq sv))]"

definition gc_value :: "bool \<Rightarrow> int \<Rightarrow> int \<Rightarrow> int json_value" where
  "gc_value dry_run removed freed =
     JSON_OBJECT [(''dry_run'', JSON_BOOL dry_run), (''removed'', JSON_NUMBER removed), (''bytes_freed'', JSON_NUMBER freed)]"

lemma status_json_value: "status_json env bi sv req = put_value jw_init (status_value env bi sv req)"
  by (simp add: status_json_def status_value_def status_build_def put_int_def shown_as_def Let_def jw_members_append)

lemma log_record_put: "log_record w e = put_value w (log_record_value e)"
  by (simp add: log_record_def log_record_value_def Let_def)

lemma log_json_value: "log_json sv after = put_value jw_init (log_value sv after)"
  by (simp add: log_json_def log_value_def Let_def foldl_items [OF log_record_put])

lemma gc_json_value: "gc_json dry_run removed freed = put_value jw_init (gc_value dry_run removed freed)"
  by (simp add: gc_json_def gc_value_def Let_def)

lemma error_json_value: "error_json msg = put_value jw_init (JSON_OBJECT [(''error'', JSON_STRING msg)])"
  by (simp add: error_json_def)

lemma status_depth: "json_depth (status_value env bi sv req) \<le> 2"
  by (simp add: status_value_def Let_def)

lemma log_depth: "json_depth (log_value sv after) \<le> 3"
  by (simp add: log_value_def log_record_value_def eval_nat_numeral foldr_max_le list_all_iff)

lemma gc_depth: "json_depth (gc_value dry_run removed freed) \<le> 1"
  by (simp add: gc_value_def)

lemma manifest_depth: "json_depth (manifest_value env s) \<le> 6"
proof -
  have sg: "list_all (\<lambda>(k, v). json_depth v \<le> 1) (signature_members env s n)" for n
    by (simp add: signature_members_def body_members_def split: option.split sum.split)
  have f: "json_depth (format_value env s e) \<le> 2" for e
    using sg [of "e_name e"] by (auto simp: format_value_def body_members_def eval_nat_numeral foldr_max_le list_all_iff)
  have i: "json_depth (identity_value env s rows stem) \<le> 4" for rows stem
    using f by (simp add: identity_value_def eval_nat_numeral foldr_max_le list_all_iff)
  have "json_depth (section_value env s rows) \<le> 5" for rows
    using i by (simp add: section_value_def eval_nat_numeral foldr_max_le list_all_iff)
  then show ?thesis by (simp add: manifest_value_def Let_def eval_nat_numeral)
qed


section \<open>A listing the parser reads\<close>

text \<open>Numbers a \<^verbatim>\<open>double\<close> holds exactly.\<close>

abbreviation exact_int :: "int \<Rightarrow> bool" where
  "exact_int i \<equiv> \<bar>i\<bar> \<le> 2 ^ 53"

definition listing_fits :: "store_entry list \<Rightarrow> bool" where
  "listing_fits live \<longleftrightarrow> list_all (\<lambda>e. exact_int (e_size e) \<and> exact_int (e_mtime e)) live
     \<and> exact_int (sum_list (map (\<lambda>e. max 0 (e_size e)) live)) \<and> exact_int (int (length live))"

lemma exact_int_plain: "exact_int i \<Longrightarrow> LONG_MIN \<le> i \<and> i \<le> LONG_MAX"
  by (auto simp: LONG_MIN_def LONG_MAX_def abs_le_iff)

lemma listed_entry:
  assumes "e \<in> set (listed_entries env s)"
  shows "store_name_is_valid (e_name e)" and "store_digest_is_valid (e_digest e)" and "\<not> store_is_signature (e_name e)"
proof -
  obtain ents where ents: "store_list env s = Some ents"
    using assms by (cases "store_list env s") (simp_all add: listed_entries_def)
  then have l: "store_list env s = Some ents" "e \<in> set ents" and sg: "\<not> store_is_signature (e_name e)"
    using assms by (simp_all add: listed_entries_def listed.set_qsort split: if_splits)
  note sound = listing_sound [OF l]
  show "store_name_is_valid (e_name e)" using sound by (simp add: visible_def)
  show "store_digest_is_valid (e_digest e)" using sound raw_digest_valid by blast
  show "\<not> store_is_signature (e_name e)" by (rule sg)
qed

lemma version_rank_bound:
  assumes "e \<in> set (store_rank_versions nomem v)"
  shows "0 \<le> e_version_rank e \<and> e_version_rank e \<le> int (length v)"
proof (cases nomem)
  case True
  then show ?thesis using assms by (cases "v = []") (auto simp: store_rank_versions_def)
next
  case False
  then obtain k where k: "k < length v" "e = store_rank_versions False v ! k"
    using assms by (auto simp: in_set_conv_nth)
  obtain t where "t < length v" "store_rank_versions False v ! k = (v ! k)\<lparr>e_version_rank := int t\<rparr>"
    by (rule rank_versions_entry [OF k(1)])
  then show ?thesis using k by simp
qed

lemma identity_rank_bound:
  assumes "g \<in> set (listed_identities env live)"
  shows "0 \<le> id_version_rank g \<and> id_version_rank g \<le> int (length (listed_identities env live))"
proof -
  let ?ids = "build_identities live"
  have g: "g \<in> set (rank_identities env ?ids)" using assms by (simp add: listed_identities_def latest.set_qsort)
  have len: "length (listed_identities env live) = length ?ids"
    using arg_cong [OF ranked_keeps [of env ?ids], of length] by (simp add: listed_identities_def latest.length_qsort)
  show ?thesis
  proof (cases "?ids \<noteq> [] \<and> ev_nomem env (length ?ids * STORE_ENTRY_SIZE)")
    case True
    then show ?thesis using g by (auto simp: rank_identities_def)
  next
    case False
    then have eq: "rank_identities env ?ids = map2 (\<lambda>g r. g\<lparr>id_version_rank := e_version_rank r\<rparr>) ?ids
        (store_rank_versions (ev_nomem env (8 * length ?ids)) (map stem_entry ?ids))"
      by (simp only: rank_identities_def if_False)
    obtain h r where "(h, r) \<in> set (zip ?ids (store_rank_versions (ev_nomem env (8 * length ?ids)) (map stem_entry ?ids)))"
      "g = h\<lparr>id_version_rank := e_version_rank r\<rparr>"
      using g unfolding eq by auto
    then have "r \<in> set (store_rank_versions (ev_nomem env (8 * length ?ids)) (map stem_entry ?ids))"
      "g = h\<lparr>id_version_rank := e_version_rank r\<rparr>"
      by (auto dest: set_zip_rightD)
    then show ?thesis using version_rank_bound [of r "ev_nomem env (8 * length ?ids)" "map stem_entry ?ids"] len by simp
  qed
qed

lemma release_digits:
  assumes "release_offset name stem \<noteq> 0"
  shows "list_all c_isdigit (take (stem - release_offset name stem) (drop (release_offset name stem) name))"
proof -
  let ?rel = "release_offset name stem"
  have digits: "\<forall>i \<in> {?rel..<stem}. c_isdigit (c_at name i)"
    using assms by (simp add: release_offset_def Let_def list_all_iff split: if_splits)
  have "c_isdigit (name ! (?rel + k))" if "?rel + k < stem" "?rel + k < length name" for k
    using bspec [OF digits, of "?rel + k"] that by (simp add: c_at_def)
  then show ?thesis by (auto simp: list_all_length less_diff_conv add.commute)
qed

lemma shown_release_cases:
  obtains "d_release (shown_as name) = 1" | ds where "d_release (shown_as name) = release_value 0 ds" "list_all c_isdigit ds"
proof -
  define stem where "stem = (if arch_offset name (stem_len name) \<noteq> 0 then arch_offset name (stem_len name) - 1 else stem_len name)"
  define rel where "rel = release_offset name stem"
  have "d_release (shown_as name) = (if rel \<noteq> 0 then release_value 0 (take (stem - rel) (drop rel name)) else 1)"
    unfolding shown_as_def store_split_display_def Let_def stem_def [symmetric] rel_def [symmetric]
    by (simp only: display.select_convs split: option.split) simp
  then show thesis using that release_digits [of name stem] unfolding rel_def by (metis (full_types))
qed

lemma shown_release: "0 \<le> d_release (shown_as stem) \<and> d_release (shown_as stem) \<le> INT_MAX"
proof (cases rule: shown_release_cases [of stem])
  case (2 ds)
  then show ?thesis using release_value_eq [of ds 0] dec_value_mono [of ds 0] by (simp add: min_def INT_MAX_def)
qed (simp add: INT_MAX_def)

lemma stem_len_le: "stem_len name \<le> length name"
  by (simp add: stem_len_def split: option.split)

lemma shown_arch_text:
  "d_arch (shown_as name) = (if arch_offset name (stem_len name) \<noteq> 0
     then snprintf STORE_NAME_MAX (take (stem_len name - arch_offset name (stem_len name)) (drop (arch_offset name (stem_len name)) name))
     else [])"
  unfolding shown_as_def store_split_display_def Let_def
  by (simp only: display.select_convs split: option.split) simp

lemma shown_arch: "length (d_arch (shown_as name)) \<le> 7"
proof -
  consider "arch_offset name (stem_len name) = 0"
    | a b where "a \<in> set g_arches" "take (stem_len name) name = b @ CHR ''-'' # a" "arch_offset name (stem_len name) = length b + 1"
    using arch_offset_cases [OF stem_len_le [of name]] by metis
  then show ?thesis
  proof cases
    case 1
    then show ?thesis by (simp add: shown_arch_text)
  next
    case (2 a b)
    have "take (stem_len name - (length b + 1)) (drop (length b + 1) name) = a"
      using arg_cong [OF 2(2), of "drop (length b + 1)"] by (simp add: drop_take)
    then show ?thesis using g_arches_length [OF 2(1)] 2(3) by (simp add: shown_arch_text snprintf_def)
  qed
qed

lemma shown_chars:
  assumes "NUL \<notin> set name"
  shows "NUL \<notin> set (d_name (shown_as name))" "NUL \<notin> set (d_version (shown_as name))" "NUL \<notin> set (d_arch (shown_as name))"
proof -
  have sub: "set (take k (drop i name)) \<subseteq> set name" for k i by (meson order.trans set_drop_subset set_take_subset)
  have cut: "set (snprintf n s) \<subseteq> set s" for n s by (simp add: snprintf_def set_take_subset)
  have part: "NUL \<notin> set (snprintf n (take k (drop i name)))" for n k i using sub cut assms by (meson subsetD)
  have head: "NUL \<notin> set (snprintf n (take k name))" for n k using part [of n k 0] by simp
  show "NUL \<notin> set (d_arch (shown_as name))" using part by (simp add: shown_arch_text)
  show "NUL \<notin> set (d_name (shown_as name))" "NUL \<notin> set (d_version (shown_as name))"
    unfolding shown_as_def store_split_display_def Let_def
    by (simp_all only: display.select_convs head part if_cancel simp_thms list.set empty_iff split: option.split)
qed

lemma suffix_text_short: "length (suffix_text name) \<le> 15"
  using known_exts_length by (auto simp: suffix_text_def store_suffix_of_Some_iff split: option.split)

lemma format_record_plain:
  assumes "e \<in> set (listed_entries env s)" and "exact_int (e_size e)" and "exact_int (e_mtime e)"
  shows "json_plain (format_record env tbl s e)"
  using valid_name_no_NUL [OF listed_entry(1) [OF assms(1)]] digest_no_NUL [OF listed_entry(2) [OF assms(1)]]
    exact_int_plain [OF assms(2)] exact_int_plain [OF assms(3)] ext_no_NUL [of "e_name e"]
  by (auto simp: format_record_def suffix_text_def split: option.split)

lemma sum_filter_le: "(\<And>x. 0 \<le> f x) \<Longrightarrow> sum_list (map f (filter P xs)) \<le> sum_list (map f xs)" for f :: "'a \<Rightarrow> int"
  by (induction xs) (simp_all add: add_increasing)

lemma foldl_max_le: "z \<le> n \<Longrightarrow> list_all (\<lambda>x. x \<le> n) xs \<Longrightarrow> z \<le> foldl max z xs \<and> foldl max z xs \<le> n" for z :: int
proof (induction xs arbitrary: z)
  case (Cons x xs)
  then show ?case using Cons.IH [of "max z x"] by simp
qed simp

text \<open>The numbers of a listing that fits, identity by identity.\<close>

lemma listed_numbers:
  assumes "listing_fits (listed_entries env s)" and "g \<in> set (listed_identities env (listed_entries env s))"
  shows "set (listed_formats (listed_entries env s) g) \<subseteq> set (listed_entries env s)" "listed_formats (listed_entries env s) g \<noteq> []"
    "exact_int (id_bytes g)" "exact_int (id_modified g)" "NUL \<notin> set (id_stem g)"
proof -
  let ?live = "listed_entries env s"
  have g: "members ?live (id_stem g) \<noteq> []" "listed_formats ?live g = members ?live (id_stem g)"
    "id_bytes g = sum_list (map (\<lambda>e. max 0 (e_size e)) (members ?live (id_stem g)))"
    "id_modified g = foldl max 0 (map e_mtime (members ?live (id_stem g)))"
    using listed_groups [of env s] assms(2) by (simp_all add: listed_formats_def)
  have stem: "id_stem g \<in> stem_of ` set ?live"
    using conjunct1 [OF conjunct2 [OF listed_groups [of env s]]] imageI [OF assms(2), of id_stem] by (simp only: set_map)
  have fits: "\<forall>e \<in> set ?live. e_mtime e \<le> 2 ^ 53" "exact_int (sum_list (map (\<lambda>e. max 0 (e_size e)) ?live))"
    using assms(1) by (auto simp: listing_fits_def list_all_iff abs_le_iff)
  show "set (listed_formats ?live g) \<subseteq> set ?live" "listed_formats ?live g \<noteq> []"
    using g(1,2) by (auto simp: members_def)
  have "0 \<le> id_bytes g" unfolding g(3) by (rule sum_list_nonneg) auto
  moreover have "id_bytes g \<le> sum_list (map (\<lambda>e. max 0 (e_size e)) ?live)"
    unfolding g(3) members_def by (rule sum_filter_le) simp
  ultimately show "exact_int (id_bytes g)" using fits(2) by linarith
  have "list_all (\<lambda>x. x \<le> 2 ^ 53) (map e_mtime (members ?live (id_stem g)))"
    using fits(1) by (simp add: list_all_iff members_def)
  then have "0 \<le> id_modified g \<and> id_modified g \<le> 2 ^ 53"
    unfolding g(4) by (intro foldl_max_le) simp_all
  then show "exact_int (id_modified g)" by simp
  show "NUL \<notin> set (id_stem g)"
    using stem by (rule imageE) (metis stem_no_NUL valid_name_no_NUL listed_entry(1))
qed

lemma listed_identities_length: "length (listed_identities env (listed_entries env s)) \<le> length (listed_entries env s)"
proof -
  let ?ids = "listed_identities env (listed_entries env s)"
  have "distinct (map id_stem ?ids)" "set (map id_stem ?ids) = stem_of ` set (listed_entries env s)"
    using listed_groups [of env s] by auto
  then have "length ?ids = card (stem_of ` set (listed_entries env s))" by (metis distinct_card length_map)
  also have "\<dots> \<le> length (listed_entries env s)"
    by (rule order_trans [OF card_image_le card_length]) simp
  finally show ?thesis .
qed

lemma listed_totals:
  assumes "listing_fits (listed_entries env s)"
  shows "exact_int (sum_list (map id_bytes (listed_identities env (listed_entries env s))))"
    "exact_int (int (length (listed_identities env (listed_entries env s))))" "exact_int (int (length (listed_entries env s)))"
proof -
  have "sum_list (map id_bytes (listed_identities env (listed_entries env s)))
      = sum_list (map (\<lambda>e. max 0 (e_size e)) (listed_entries env s))"
    using listed_groups [of env s] by simp
  then show "exact_int (sum_list (map id_bytes (listed_identities env (listed_entries env s))))"
    using assms by (simp add: listing_fits_def)
  show "exact_int (int (length (listed_entries env s)))" using assms by (simp add: listing_fits_def)
  then show "exact_int (int (length (listed_identities env (listed_entries env s))))"
    using listed_identities_length [of env s] by linarith
qed

lemma artifacts_plain:
  assumes "listing_fits (listed_entries env s)"
  shows "json_plain (artifacts_value env tbl s)"
proof -
  let ?live = "listed_entries env s"
  let ?ids = "listed_identities env ?live"
  have "json_plain (identity_record env tbl s ?live g)" if g: "g \<in> set ?ids" for g
  proof -
    note num = listed_numbers [OF assms g]
    have "list_all json_plain (map (format_record env tbl s) (listed_formats ?live g))"
      using num(1) assms format_record_plain by (auto simp: list_all_iff listing_fits_def)
    moreover have "LONG_MIN \<le> id_version_rank g \<and> id_version_rank g \<le> LONG_MAX"
      using identity_rank_bound [OF g] listed_totals(2) [OF assms] by (auto simp: LONG_MIN_def LONG_MAX_def)
    moreover have "LONG_MIN \<le> d_release (shown_as (id_stem g)) \<and> d_release (shown_as (id_stem g)) \<le> LONG_MAX"
      using shown_release [of "id_stem g"] by (auto simp: INT_MAX_def LONG_MIN_def LONG_MAX_def)
    ultimately show ?thesis
      using shown_chars [OF num(5)] num(5) exact_int_plain [OF num(3)] exact_int_plain [OF num(4)]
      by (simp add: identity_record_def Let_def)
  qed
  then show ?thesis
    using listed_totals [OF assms] exact_int_plain
    by (simp add: artifacts_value_def Let_def list_all_iff)
qed

text \<open>
  The listing parses: when its numbers are ones a \<^verbatim>\<open>double\<close> holds exactly, the text the server answers
  with is read by the parser as the tree of the listed identities, whatever the C library makes
  of its numbers.
\<close>

lemma listing_read:
  assumes "listing_fits (listed_entries env s)"
  shows "json_parse strtod (jw_buf (artifacts_json env tbl s)) =
    Some (map_json_value (strtod \<circ> int_dec) (artifacts_value env tbl s))"
  using json_parse_plain [OF artifacts_plain [OF assms], of strtod "\<lambda>_. ''''"]
  by (simp add: artifacts_json_value jw_value_text)

end
