(* ===== verification/Cli_Listing.thy ===== *)
theory Cli_Listing
  imports Cli_Output Server_Json
begin

text \<open>
  The listing from one end to the other: what the server writes of its store, the tool prints. The text is
  given over the entries and identities of the store, without the JSON in between.
\<close>

section \<open>The text of a listing\<close>

definition listing_line ::
  "(int \<Rightarrow> string) \<Rightarrow> columns \<Rightarrow> env \<Rightarrow> suffix_table \<Rightarrow> store \<Rightarrow> display \<Rightarrow> bool \<Rightarrow> store_entry \<Rightarrow> string" where
  "listing_line date g env tbl s d first e =
     (if first then
        pad_right 18 (d_name d) @ '' '' @ pad_left 12 (take 12 (or_dash (d_version d))) @ '' ''
        @ pad_left 4 (int_dec (d_release d))
      else pad_right 18 [] @ '' '' @ pad_left 12 [] @ '' '' @ pad_left 4 [])
     @ '' '' @ (if g_show_format g then pad_right 8 (suffix_text (e_name e)) @ '' '' else [])
     @ (if g_show_arch g then pad_right 8 (or_dash (d_arch d)) @ '' '' else [])
     @ (if g_show_signed g then
          pad_right 6 (if \<not> shows_signed env tbl s e then [] else if has_signature env s (e_name e) then ''yes'' else ''no'') @ '' ''
        else [])
     @ '' '' @ pad_left 9 (human_bytes (e_size e) 16) @ ''  '' @ take 12 (e_digest e) @ ''  ''
     @ pad_left 10 (if e_mtime e > 0 then snprintf 16 (date (e_mtime e)) else ''-'') @ [LF]"

definition identity_lines ::
  "(int \<Rightarrow> string) \<Rightarrow> columns \<Rightarrow> env \<Rightarrow> suffix_table \<Rightarrow> store \<Rightarrow> store_entry list \<Rightarrow> identity \<Rightarrow> string" where
  "identity_lines date g env tbl s live i =
     (case listed_formats live i of
        [] \<Rightarrow> []
      | e # es \<Rightarrow>
          listing_line date g env tbl s (shown_as (id_stem i)) True e
          @ concat (map (listing_line date g env tbl s (shown_as (id_stem i)) False) es))"

text \<open>A column is shown when it tells two lines apart.\<close>

definition shown_columns :: "env \<Rightarrow> suffix_table \<Rightarrow> store \<Rightarrow> store_entry list \<Rightarrow> identity list \<Rightarrow> columns" where
  "shown_columns env tbl s live ids =
     \<lparr>g_show_arch = list_ex (\<lambda>i. d_arch (shown_as (id_stem i)) \<noteq> d_arch (shown_as (id_stem (hd ids)))) (tl ids),
      g_show_signed = list_ex (\<lambda>i. list_ex (shows_signed env tbl s) (listed_formats live i)) ids,
      g_show_format = list_ex (\<lambda>i. length (listed_formats live i) > 1) ids\<rparr>"

definition is_installer :: "store_entry list \<Rightarrow> identity \<Rightarrow> bool" where
  "is_installer live i \<longleftrightarrow> list_ex (\<lambda>e. suffix_text (e_name e) = ''.iso'') (listed_formats live i)"

definition listing_summary :: "store_entry list \<Rightarrow> identity list \<Rightarrow> string" where
  "listing_summary live ids =
     (let n = int (length ids); installers = int (length (filter (is_installer live) ids));
          total = human_bytes (sum_list (map id_bytes ids)) 16
      in if installers > 0 then
           [LF] @ int_dec n @ '' artifacts ('' @ int_dec (n - installers) @ '' packages, '' @ int_dec installers
           @ '' installers), '' @ total @ [LF]
         else if int (length live) > n then
           [LF] @ int_dec n @ '' artifacts in '' @ int_dec (int (length live)) @ '' files, '' @ total @ [LF]
         else [LF] @ int_dec n @ '' artifacts, '' @ total @ [LF])"

definition listing_text :: "(int \<Rightarrow> string) \<Rightarrow> env \<Rightarrow> suffix_table \<Rightarrow> store \<Rightarrow> string" where
  "listing_text date env tbl s =
     (let live = listed_entries env s; ids = listed_identities env live; g = shown_columns env tbl s live ids
      in listing_head g @ concat (map (identity_lines date g env tbl s live) ids) @ listing_summary live ids)"

section \<open>The fields the tool reads\<close>

text \<open>A \<open>double\<close> holds every whole number up to \<open>2 ^ 53\<close>, and gives it back.\<close>

definition exact_doubles :: "'n cli_env \<Rightarrow> bool" where
  "exact_doubles cenv \<longleftrightarrow> (\<forall>i. exact_int i \<longrightarrow> ce_to_ll cenv (ce_strtod cenv (int_dec i)) = i)"

definition double_tree :: "'n cli_env \<Rightarrow> int json_value \<Rightarrow> 'n json_value" where
  "double_tree cenv v = map_json_value (ce_strtod cenv \<circ> int_dec) v"

definition entry_fits :: "store_entry \<Rightarrow> bool" where
  "entry_fits e \<longleftrightarrow> exact_int (e_size e) \<and> exact_int (e_mtime e)"

lemmas field_defs = str_field_def int_field_def bool_field_def json_object_get_def json_as_string_def json_as_number_def double_tree_def

lemma format_fields:
  fixes cenv :: "'n cli_env" and env :: env and tbl :: suffix_table and s :: store and e :: store_entry
  defines "v \<equiv> Some (double_tree cenv (format_record env tbl s e))"
  shows "str_field v ''format'' = suffix_text (e_name e)" "str_field v ''sha256'' = e_digest e"
    "json_object_get v ''signed'' = (if shows_signed env tbl s e then Some (JSON_BOOL (has_signature env s (e_name e))) else None)"
    "exact_doubles cenv \<Longrightarrow> exact_int (e_size e) \<Longrightarrow> int_field cenv v ''bytes'' = e_size e"
    "exact_doubles cenv \<Longrightarrow> exact_int (e_mtime e) \<Longrightarrow> int_field cenv v ''modified'' = e_mtime e"
  by (simp_all add: v_def format_record_def field_defs exact_doubles_def)

lemma identity_fields:
  fixes cenv :: "'n cli_env" and env :: env and tbl :: suffix_table and s :: store and i :: identity
    and live :: "store_entry list"
  defines "v \<equiv> Some (double_tree cenv (identity_record env tbl s live i))"
  shows "str_field v ''artifact'' = d_name (shown_as (id_stem i))" "str_field v ''version'' = d_version (shown_as (id_stem i))"
    "str_field v ''arch'' = d_arch (shown_as (id_stem i))"
    "formats_of v = Some (map (double_tree cenv \<circ> format_record env tbl s) (listed_formats live i))"
    "exact_doubles cenv \<Longrightarrow> int_field cenv v ''release'' = d_release (shown_as (id_stem i))"
  using shown_release [of "id_stem i"]
  by (simp_all add: v_def identity_record_def field_defs formats_of_def exact_doubles_def Let_def INT_MAX_def)

lemma artifacts_fields:
  fixes cenv :: "'n cli_env" and env :: env and tbl :: suffix_table and s :: store
  defines "live \<equiv> listed_entries env s"
  defines "ids \<equiv> listed_identities env live"
  defines "v \<equiv> Some (double_tree cenv (artifacts_value env tbl s))"
  assumes "exact_doubles cenv" and "listing_fits live"
  shows "json_object_get v ''artifacts'' = Some (JSON_ARRAY (map (double_tree cenv \<circ> identity_record env tbl s live) ids))"
    "int_field cenv v ''count'' = int (length ids)" "int_field cenv v ''files'' = int (length live)"
    "int_field cenv v ''bytes'' = sum_list (map id_bytes ids)"
  using listed_totals [OF assms(5) [unfolded live_def]] assms(4)
  by (simp_all add: v_def ids_def live_def artifacts_value_def field_defs exact_doubles_def Let_def)

section \<open>Line by line\<close>

lemma length_pad_right: "length (pad_right n t) = max n (length t)"
  by (simp add: pad_right_def)

lemma columns_text:
  assumes "length fmt \<le> 15" and "length arch \<le> 8" and "length sig \<le> 6"
  shows "\<not> cb_bad (extra_columns g fmt arch sig)
    \<and> cb_text (extra_columns g fmt arch sig) =
        (if g_show_format g then pad_right 8 fmt @ '' '' else []) @ (if g_show_arch g then pad_right 8 arch @ '' '' else [])
        @ (if g_show_signed g then pad_right 6 sig @ '' '' else [])"
  using assms
  by (cases "g_show_format g"; cases "g_show_arch g"; cases "g_show_signed g")
    (auto simp: extra_columns_def add_col_def Let_def length_pad_right max_def)

lemma format_line_text:
  assumes "exact_doubles cenv" and "entry_fits e"
  shows "format_line cenv g (Some (double_tree cenv (identity_record env tbl s live i))) first (double_tree cenv (format_record env tbl s e))
    = (False, listing_line (ce_local_date cenv) g env tbl s (shown_as (id_stem i)) first e)"
proof -
  have fits: "exact_int (e_size e)" "exact_int (e_mtime e)" using assms(2) by (simp_all add: entry_fits_def)
  let ?sig = "if \<not> shows_signed env tbl s e then [] else if has_signature env s (e_name e) then ''yes'' else ''no''"
  have arch: "length (or_dash (d_arch (shown_as (id_stem i)))) \<le> 8"
    using shown_arch [of "id_stem i"] by (simp add: or_dash_def)
  have sig: "(if json_object_get (Some (double_tree cenv (format_record env tbl s e))) ''signed'' = None then []
      else if bool_field (Some (double_tree cenv (format_record env tbl s e))) ''signed'' then ''yes'' else ''no'') = ?sig"
    unfolding bool_field_def format_fields(3) by simp
  have cols: "cb_bad (extra_columns g (suffix_text (e_name e)) (or_dash (d_arch (shown_as (id_stem i)))) ?sig) = False"
    "cb_text (extra_columns g (suffix_text (e_name e)) (or_dash (d_arch (shown_as (id_stem i)))) ?sig) =
        (if g_show_format g then pad_right 8 (suffix_text (e_name e)) @ '' '' else [])
        @ (if g_show_arch g then pad_right 8 (or_dash (d_arch (shown_as (id_stem i)))) @ '' '' else [])
        @ (if g_show_signed g then pad_right 6 ?sig @ '' '' else [])"
    using columns_text [OF suffix_text_short arch, of ?sig g "e_name e"] by simp_all
  show ?thesis
    unfolding format_line_def Let_def listing_line_def sig format_fields(1,2)
      format_fields(4) [OF assms(1) fits(1)] format_fields(5) [OF assms(1) fits(2)] identity_fields(1-3) identity_fields(5) [OF assms(1)] cols
    by (simp only: append_assoc)
qed

lemma format_lines_text:
  assumes "exact_doubles cenv" and "list_all entry_fits es"
  shows "format_lines cenv g (Some (double_tree cenv (identity_record env tbl s live i))) False (map (double_tree cenv \<circ> format_record env tbl s) es)
    = (False, concat (map (listing_line (ce_local_date cenv) g env tbl s (shown_as (id_stem i)) False) es))"
  using assms(2)
proof (induction es)
  case (Cons e es)
  have e: "entry_fits e" using Cons.prems by simp
  show ?case using Cons.IH Cons.prems format_line_text [OF assms(1) e] by (simp add: both_def)
qed simp

lemma artifact_line_text:
  assumes "exact_doubles cenv" and "list_all entry_fits (listed_formats live i)"
  shows "fmt_artifact_line cenv g (double_tree cenv (identity_record env tbl s live i))
    = (False, identity_lines (ce_local_date cenv) g env tbl s live i)"
proof (cases "listed_formats live i")
  case Nil
  then show ?thesis by (simp add: fmt_artifact_line_def identity_fields(4) identity_lines_def)
next
  case (Cons e es)
  then have e: "entry_fits e"
    and es: "list_all entry_fits es" using assms(2) by simp_all
  show ?thesis
    using format_line_text [OF assms(1) e] format_lines_text [OF assms(1) es]
    by (simp add: fmt_artifact_line_def identity_fields(4) identity_lines_def Cons both_def)
qed

lemma artifact_lines_text:
  assumes "exact_doubles cenv"
    and "\<And>i. i \<in> set ids \<Longrightarrow> list_all entry_fits (listed_formats live i)"
  shows "artifact_lines cenv g (map (double_tree cenv \<circ> identity_record env tbl s live) ids)
    = (False, concat (map (identity_lines (ce_local_date cenv) g env tbl s live) ids))"
  using assms(2)
proof (induction ids)
  case (Cons i ids)
  then show ?case using artifact_line_text [OF assms(1) Cons.prems [of i]] by (simp add: both_def)
qed simp

lemma listing_columns_text:
  "listing_columns (map (double_tree cenv \<circ> identity_record env tbl s live) ids) = shown_columns env tbl s live ids"
proof (cases ids)
  case (Cons i rest)
  have fmts: "formats_of (Some (double_tree cenv (identity_record env tbl s live j))) =
      Some (map (double_tree cenv \<circ> format_record env tbl s) (listed_formats live j))" for j by (rule identity_fields(4))
  show ?thesis
    unfolding Cons
    by (simp add: listing_columns_def shown_columns_def list_ex_iff fmts identity_fields(3) format_fields(3))
qed (simp add: listing_columns_def shown_columns_def)

lemma installer_text:
  "is_installer_record (double_tree cenv (identity_record env tbl s live i)) = is_installer live i"
  unfolding is_installer_record_def identity_fields(4) is_installer_def
  by (simp add: list_ex_iff format_fields(1))

lemma listing_total_text:
  assumes "exact_doubles cenv" and "listing_fits (listed_entries env s)"
  shows "listing_total cenv (Some (double_tree cenv (artifacts_value env tbl s)))
      (map (double_tree cenv \<circ> identity_record env tbl s (listed_entries env s)) (listed_identities env (listed_entries env s)))
    = listing_summary (listed_entries env s) (listed_identities env (listed_entries env s))"
proof -
  have "length (filter is_installer_record (map (double_tree cenv \<circ> identity_record env tbl s live) ids))
      = length (filter (is_installer live) ids)" for live ids
    by (induction ids) (simp_all add: installer_text)
  then show ?thesis
    unfolding listing_total_def listing_summary_def artifacts_fields(2-4) [OF assms] Let_def by (simp only:)
qed

lemma listing_printed:
  assumes "exact_doubles cenv" and "listing_fits (listed_entries env s)"
  shows "fmt_artifacts cenv (Some (double_tree cenv (artifacts_value env tbl s))) = (False, listing_text (ce_local_date cenv) env tbl s)"
proof -
  let ?live = "listed_entries env s"
  have fit: "list_all entry_fits (listed_formats ?live i)"
    if "i \<in> set (listed_identities env ?live)" for i
    using listed_numbers(1) [OF assms(2) that] assms(2) by (auto simp: listing_fits_def list_all_iff entry_fits_def)
  show ?thesis
    unfolding fmt_artifacts_def artifacts_fields(1) [OF assms] option.case json_value.case Let_def listing_columns_text
      listing_total_text [OF assms]
    using artifact_lines_text [OF assms(1) fit] by (simp add: both_def listing_text_def Let_def)
qed

text \<open>
  C34. The list is the store: of the listing the server answers with, arriving in pieces of any size, the tool
  prints exactly one line for every entry the store lists, grouped by identity in the order of the
  listing, each with the name, version, release, size, digest and date the store has for it, and the
  totals; and it stays within its buffers.
\<close>

theorem list_shows_store:
  assumes "api_artifacts senv sv cc = (sv', cc')" and "cn_open cc" and "cn_open cc'" and "\<not> cn_head_only cc"
    and "cn_blob cc = None" and "arrives rs" and "delivered rs = cn_hdr cc' @ response_body cc'"
    and "exact_doubles cenv" and "listing_fits (listed_entries (se_env senv) (sv_store sv))"
  shows "\<exists>rb r. read_all_response (\<lambda>_. False) rs = Some rb
    \<and> read_response (\<lambda>_. False) (ce_strtod cenv) (rb_buf rb) = Some r
    \<and> emit cenv g_out r False (Some (fmt_artifacts cenv)) =
        (0, [(g_out, listing_text (ce_local_date cenv) (se_env senv) (sv_suffixes sv) (sv_store sv))], False)"
proof -
  let ?w = "artifacts_json (se_env senv) (sv_suffixes sv) (sv_store sv)"
  have parsed: "json_parse (ce_strtod cenv) (jw_buf ?w) =
      Some (double_tree cenv (artifacts_value (se_env senv) (sv_suffixes sv) (sv_store sv)))"
    using listing_read [OF assms(9)] by (simp add: double_tree_def)
  obtain rb where "read_all_response (\<lambda>_. False) rs = Some rb"
    "read_response (\<lambda>_. False) (ce_strtod cenv) (rb_buf rb) =
      Some \<lparr>rs_status = 200, rs_content_type = ''application/json'', rs_body = Some (jw_buf ?w),
            rs_json = Some (double_tree cenv (artifacts_value (se_env senv) (sv_suffixes sv) (sv_store sv)))\<rparr>"
    using json_answer_heard [OF assms(1) [unfolded api_artifacts_def] assms(2-5) _ _ parsed assms(6,7)] by auto
  then show ?thesis using listing_printed [OF assms(8,9)] by (simp add: emit_def)
qed

text \<open>A store with one entry, listed.\<close>

definition sample_listed :: store_entry where
  "sample_listed = hd (listed_entries calm_env published_store)"

definition sample_identity :: identity where
  "sample_identity = (add_encoding sample_listed (new_identity (stem_of sample_listed) 0))\<lparr>id_version_rank := 0\<rparr>"

lemma sample_listing: "listed_entries calm_env published_store = [sample_listed]"
proof -
  have "length (listed_entries calm_env published_store) = 1" by code_simp
  then show ?thesis by (cases "listed_entries calm_env published_store") (simp_all add: sample_listed_def)
qed

lemma sample_identities: "listed_identities calm_env [sample_listed] = [sample_identity]"
  by (simp add: listed_identities_def build_identities_def rank_identities_def store_rank_versions_def rank_order_def
      calm_env_def sample_identity_def stem_of_def Let_def stem_entry_def)

lemma sample_answer:
  "artifacts_json calm_env g_suffixes published_store = put_value jw_init (JSON_OBJECT
     [(''artifacts'', JSON_ARRAY [identity_record calm_env g_suffixes published_store [sample_listed] sample_identity]),
      (''count'', JSON_NUMBER 1), (''files'', JSON_NUMBER 1), (''bytes'', JSON_NUMBER (id_bytes sample_identity))])"
  by (simp add: artifacts_json_value artifacts_value_def sample_listing sample_identities Let_def)

lemma sample_answered: "cn_open (snd (api_artifacts calm_senv (small_server published_store) sample_conn))"
proof -
  have "se_env calm_senv = calm_env" "sv_suffixes (small_server published_store) = g_suffixes"
    "sv_store (small_server published_store) = published_store" by (simp_all add: calm_senv_def small_server_def)
  then have "api_artifacts calm_senv (small_server published_store) sample_conn =
      respond_json calm_senv 200 (put_value jw_init (JSON_OBJECT
        [(''artifacts'', JSON_ARRAY [identity_record calm_env g_suffixes published_store [sample_listed] sample_identity]),
         (''count'', JSON_NUMBER 1), (''files'', JSON_NUMBER 1), (''bytes'', JSON_NUMBER (id_bytes sample_identity))]))
        (small_server published_store) sample_conn"
    by (simp only: api_artifacts_def sample_answer)
  moreover have "cn_open (snd (respond_json calm_senv 200 (put_value jw_init (JSON_OBJECT
        [(''artifacts'', JSON_ARRAY [identity_record calm_env g_suffixes published_store [sample_listed] sample_identity]),
         (''count'', JSON_NUMBER 1), (''files'', JSON_NUMBER 1), (''bytes'', JSON_NUMBER (id_bytes sample_identity))]))
        (small_server published_store) sample_conn))" by code_simp
  ultimately show ?thesis by simp
qed

theorem list_shows_store_witness:
  "\<exists>rb r. read_all_response (\<lambda>_. False)
      (map (\<lambda>c. Read_Data [c]) (cn_hdr (snd (api_artifacts calm_senv (small_server published_store) sample_conn))
        @ response_body (snd (api_artifacts calm_senv (small_server published_store) sample_conn)))) = Some rb
    \<and> read_response (\<lambda>_. False) whole_strtod (rb_buf rb) = Some r
    \<and> emit sample_cli Stdout r False (Some (fmt_artifacts sample_cli)) =
        (0, [(Stdout, listing_text (\<lambda>_. ''2026-01-02'') calm_env g_suffixes published_store)], False)"
proof -
  obtain sv' cc' where run: "api_artifacts calm_senv (small_server published_store) sample_conn = (sv', cc')" by fastforce
  have conn: "cn_open sample_conn" "cn_open cc'" "\<not> cn_head_only sample_conn" "cn_blob sample_conn = None"
    using sample_answered run by (simp_all add: sample_conn_def conn_new_def)
  let ?rs = "map (\<lambda>c. Read_Data [c]) (cn_hdr cc' @ response_body cc')"
  have ok: "arrives ?rs" "delivered ?rs = cn_hdr cc' @ response_body cc'"
    by (rule conjunct1 [OF bytewise], rule conjunct2 [OF bytewise])
  have exact: "exact_doubles sample_cli" by (simp add: exact_doubles_def sample_cli_def whole_strtod_dec)
  have fits: "listing_fits (listed_entries (se_env calm_senv) (sv_store (small_server published_store)))" by code_simp
  have cli: "ce_strtod sample_cli = whole_strtod" "ce_local_date sample_cli = (\<lambda>_. ''2026-01-02'')" by (simp_all add: sample_cli_def)
  have srv: "se_env calm_senv = calm_env" "sv_suffixes (small_server published_store) = g_suffixes"
    "sv_store (small_server published_store) = published_store" by (simp_all add: calm_senv_def small_server_def)
  from list_shows_store [OF run conn ok exact fits, of Stdout] show ?thesis
    unfolding run snd_conv cli srv .
qed

text \<open>
  The raw output is the answer: with \<^verbatim>\<open>--json\<close> the tool prints a text that parses to the JSON of the answer,
  and it leaves the arrays of the writer exactly when more than \<open>JW_MAX_DEPTH\<close> containers of it are open at once.
\<close>

theorem raw_output_exact:
  assumes "200 \<le> rs_status r" and "rs_status r < 300" and "rs_json r = Some v" and "json_exact strtod (ce_as_int cenv) v"
  shows "\<exists>text. emit cenv g_out r True fmt = (0, [(Stdout, text @ [LF])], JW_MAX_DEPTH < json_depth v)
    \<and> json_parse strtod text = Some v"
  using assms written_value [OF assms(4), of "ce_fmt2f cenv"] jw_overrun_iff [of "ce_as_int cenv" "ce_fmt2f cenv" v]
  by (simp add: emit_def print_raw_json_def Let_def split: option.split)

theorem raw_output_exact_witness:
  "\<exists>text. emit sample_cli Stdout \<lparr>rs_status = 200, rs_content_type = [], rs_body = None, rs_json = Some (JSON_ARRAY [JSON_NUMBER 7])\<rparr>
      True None = (0, [(Stdout, text @ [LF])], False) \<and> json_parse whole_strtod text = Some (JSON_ARRAY [JSON_NUMBER 7])"
proof -
  have "json_exact whole_strtod (ce_as_int sample_cli) (JSON_ARRAY [JSON_NUMBER 7])"
    by (simp add: sample_cli_def whole_strtod_dec LONG_MIN_def LONG_MAX_def)
  then show ?thesis
    using raw_output_exact [of "\<lparr>rs_status = 200, rs_content_type = [], rs_body = None, rs_json = Some (JSON_ARRAY [JSON_NUMBER 7])\<rparr>"
        "JSON_ARRAY [JSON_NUMBER 7]" whole_strtod sample_cli Stdout None] by (simp add: JW_MAX_DEPTH_def)
qed

end
