(* ===== verification/Fuzz.thy ===== *)
theory Fuzz
  imports Store_Canonical Store_Version Http
begin

text \<open>
  The fuzz targets (\<^verbatim>\<open>src/fuzz\<close>): the assertions they make of the name grammar, the display split, the version
  order and the spans of a parsed request, as checks on the input. The theorems say that no
  input makes one fail.
\<close>

section \<open>Names\<close>

text \<open>The input as the functions under test see it: up to the first NUL.\<close>

definition dup_input :: "bytes \<Rightarrow> string" where
  "dup_input data = c_str data"

text \<open>The assertions in the order they are made; the result is the first one that fails.\<close>

type_synonym assertions = "(bool \<times> string) list"

definition first_failure :: "assertions \<Rightarrow> string option" where
  "first_failure as = map_option snd (find (\<lambda>a. \<not> fst a) as)"

definition suffix_asserts :: "string \<Rightarrow> assertions" where
  "suffix_asserts name =
     (case store_suffix_of name of
        None \<Rightarrow> []
      | Some suffix \<Rightarrow>
          [(length suffix \<le> length name, ''sl <= nl''),
           (take (length suffix) (drop (length name - length suffix) name) = suffix, ''memcmp'')])"

definition canon_asserts :: "string \<Rightarrow> assertions" where
  "canon_asserts name =
     (let valid = store_name_is_valid name
      in case store_canonical_name name STORE_NAME_MAX of
           Some (rc, canon) \<Rightarrow>
             [(valid, ''valid''), (store_name_is_valid canon, ''store_name_is_valid(canon)''),
              (map_option fst (store_canonical_name canon STORE_NAME_MAX) = Some 0, ''canonical again''),
              (rc = 0 \<longrightarrow> canon = name, ''strcmp'')]
         | None \<Rightarrow> [(\<not> valid \<or> length name + STORE_CANONICAL_GROWTH \<ge> STORE_NAME_MAX, ''does not fit'')])"

definition display_asserts :: "string \<Rightarrow> assertions" where
  "display_asserts name =
     (let d = store_split_display name STORE_NAME_MAX 64 32; t = store_split_display name 4 3 2
      in [(length (d_name d) < STORE_NAME_MAX, ''dn''), (length (d_version d) < 64, ''dv''), (length (d_arch d) < 32, ''da''),
          (length (d_name t) < 4, ''small dn''), (length (d_version t) < 3, ''small dv''), (length (d_arch t) < 2, ''small da'')])"

definition version_asserts :: "bytes \<Rightarrow> assertions" where
  "version_asserts data =
     (let half = length data div 2; a = dup_input (take half data); b = dup_input (drop half data);
          ab = store_version_cmp a b; ba = store_version_cmp b a
      in [(ab = 0 \<and> ba = 0 \<or> ab < 0 \<and> ba > 0 \<or> ab > 0 \<and> ba < 0, ''antisymmetry''),
          (store_version_cmp a a = 0, ''reflexivity'')])"

definition fuzz_name :: "bytes \<Rightarrow> string option" where
  "fuzz_name data =
     (if length data > STORE_NAME_MAX * 2 then None
      else
        (let name = dup_input data
         in first_failure (suffix_asserts name @ canon_asserts name @ display_asserts name @ version_asserts data)))"

lemma first_failure_None [simp]: "first_failure as = None \<longleftrightarrow> list_all fst as"
  by (auto simp: first_failure_def find_None_iff list_all_iff)

lemma suffix_asserts_hold: "list_all fst (suffix_asserts name)"
proof (cases "store_suffix_of name")
  case (Some suffix)
  then obtain stem where "name = stem @ suffix"
    using suffix_record_Some [of g_suffixes name] by (auto simp: store_suffix_of_def)
  then show ?thesis using Some by (simp add: suffix_asserts_def)
qed (simp add: suffix_asserts_def)

lemma canon_asserts_hold: "list_all fst (canon_asserts name)"
proof (cases "store_canonical_name name STORE_NAME_MAX")
  case None
  have "length name + STORE_CANONICAL_GROWTH \<ge> STORE_NAME_MAX" if "store_name_is_valid name"
    using canonical_total [OF that, of STORE_NAME_MAX] None by force
  then show ?thesis using None by (auto simp: canon_asserts_def)
next
  case (Some r)
  obtain rc canon where r: "store_canonical_name name STORE_NAME_MAX = Some (rc, canon)" using Some by (cases r) auto
  have v: "canon_of name = Some canon" using r by (simp add: canon_of_def)
  have "rc = 0 \<longrightarrow> canon = name" by (rule canonical_cases [OF r]) auto
  then show ?thesis using r canon_of_valid [OF v] canonical_closed [OF r] by (simp add: canon_asserts_def)
qed

lemma snprintf_less: "0 < n \<Longrightarrow> length (snprintf n s) < n"
  by (auto simp: snprintf_def)

lemma display_sizes:
  assumes "0 < n" and "0 < v" and "0 < a"
  shows "length (d_name (store_split_display name n v a)) < n" "length (d_version (store_split_display name n v a)) < v"
    "length (d_arch (store_split_display name n v a)) < a"
  using assms by (simp_all add: store_split_display_def Let_def snprintf_less split: option.split)

lemma display_asserts_hold: "list_all fst (display_asserts name)"
  using display_sizes [of STORE_NAME_MAX 64 32 name] display_sizes [of 4 3 2 name]
  by (simp add: display_asserts_def Let_def STORE_NAME_MAX_def)

lemma version_asserts_hold: "list_all fst (version_asserts data)"
proof -
  let ?h = "length data div 2"
  let ?a = "dup_input (take ?h data)" and ?b = "dup_input (drop ?h data)"
  have "sgn (store_version_cmp ?b ?a) = - sgn (store_version_cmp ?a ?b)" by (rule version.cmp_sym)
  then have "store_version_cmp ?a ?b = 0 \<and> store_version_cmp ?b ?a = 0
      \<or> store_version_cmp ?a ?b < 0 \<and> store_version_cmp ?b ?a > 0 \<or> store_version_cmp ?a ?b > 0 \<and> store_version_cmp ?b ?a < 0"
    by (auto simp: sgn_if split: if_splits)
  then show ?thesis using version.cmp_refl [of ?a] by (simp add: version_asserts_def)
qed

text \<open>
  C40. The name fuzzer has nothing to find: on every input, of any length and with any bytes, each of its
  assertions holds, for the suffix, the canonical form and its fixed point, the buffers of the display split, and the
  symmetry of the version order.
\<close>

theorem fuzz_name_never_aborts: "fuzz_name data = None"
  using suffix_asserts_hold canon_asserts_hold display_asserts_hold version_asserts_hold
  by (simp add: fuzz_name_def Let_def)

section \<open>Requests\<close>

text \<open>The spans of a parsed request, the headers and the body, lie in the buffer.\<close>

definition spans_ok :: "http_conn \<Rightarrow> bool" where
  "spans_ok c \<longleftrightarrow> 4 \<le> hc_headers_end c \<and> hc_headers_end c \<le> int (length (hc_buf c))"

definition fuzz_http :: "bytes \<Rightarrow> bool" where
  "fuzz_http data =
     (case http_conn_feed (\<lambda>_. False) http_conn_init data of
        Inl c \<Rightarrow> True
      | Inr c \<Rightarrow> (case http_conn_try_parse c of (r, c', req) \<Rightarrow> if r = 1 then spans_ok c' else True))"

function fuzz_split_loop :: "nat \<Rightarrow> bytes \<Rightarrow> http_conn \<Rightarrow> bool" where
  "fuzz_split_loop chunk data c =
     (if data = [] \<or> chunk = 0 then True
      else case http_conn_feed (\<lambda>_. False) c (take chunk data) of
        Inl c' \<Rightarrow> True
      | Inr c' \<Rightarrow>
          (case http_conn_try_parse c' of
             (r, c'', req) \<Rightarrow> (if r = 1 then spans_ok c'' else True) \<and> fuzz_split_loop chunk (drop chunk data) c''))"
  by pat_completeness auto
termination
  by (relation "measure (\<lambda>(chunk, data, c). length data)") auto

declare fuzz_split_loop.simps [simp del]

definition fuzz_http_split :: "bytes \<Rightarrow> bool" where
  "fuzz_http_split data =
     (if length data < 2 then True else fuzz_split_loop (byte (hd data) + 1) (tl data) http_conn_init)"

text \<open>What holds of a connection between the calls.\<close>

definition spans_inv :: "http_conn \<Rightarrow> bool" where
  "spans_inv c \<longleftrightarrow> hc_headers_end c < 0 \<or> spans_ok c"

lemma feed_spans:
  assumes "spans_inv c" and "length (hc_buf c @ d) < 2 ^ 31" and "http_conn_feed (\<lambda>_. False) c d = Inr c'"
  shows "spans_inv c' \<and> hc_buf c' = hc_buf c @ d"
proof -
  have c': "hc_buf c' = hc_buf c @ d"
    "hc_headers_end c' = (if hc_headers_end c < 0 then
        (case find_sub [CR, LF, CR, LF] (hc_buf c @ d) of Some i \<Rightarrow> c_int (int i) + 4 | None \<Rightarrow> hc_headers_end c)
      else hc_headers_end c)"
    using assms(3) by (auto simp: http_conn_feed_def Let_def split: if_splits)
  show ?thesis
  proof (cases "hc_headers_end c < 0")
    case True
    show ?thesis
    proof (cases "find_sub [CR, LF, CR, LF] (hc_buf c @ d)")
      case None
      then show ?thesis using c' True by (simp add: spans_inv_def)
    next
      case (Some i)
      then have "i + 4 \<le> length (hc_buf c @ d)" "c_int (int i) = int i"
        using find_sub_bound [OF Some] c_int_offset [OF Some assms(2)] by simp_all
      then show ?thesis using c' True Some by (simp add: spans_inv_def spans_ok_def)
    qed
  next
    case False
    then show ?thesis using c' assms(1) by (auto simp: spans_inv_def spans_ok_def)
  qed
qed

lemma parse_spans:
  assumes "http_conn_try_parse c = (r, c', req)"
  shows "hc_buf c' = hc_buf c \<and> hc_headers_end c' = hc_headers_end c \<and> (r = 1 \<longrightarrow> 0 \<le> hc_headers_end c)"
  using assms by (auto simp: http_conn_try_parse_def parse_request_line_def Let_def
      split: if_splits option.splits prod.splits)

lemma split_loop_holds:
  "spans_inv c \<Longrightarrow> length (hc_buf c @ data) < 2 ^ 31 \<Longrightarrow> fuzz_split_loop chunk data c"
proof (induction chunk data c rule: fuzz_split_loop.induct)
  case (1 chunk data c)
  show ?case
  proof (cases "data = [] \<or> chunk = 0")
    case False
    show ?thesis
    proof (cases "http_conn_feed (\<lambda>_. False) c (take chunk data)")
      case (Inl e)
      then show ?thesis by (subst fuzz_split_loop.simps) simp
    next
      case (Inr c1)
      have short: "length (hc_buf c @ take chunk data) < 2 ^ 31" using 1(3) by simp
      note fed = feed_spans [OF 1(2) short Inr]
      obtain r c2 req where p: "http_conn_try_parse c1 = (r, c2, req)" by (metis prod_cases3)
      note kept = parse_spans [OF p]
      have inv: "spans_inv c2" using fed kept by (auto simp: spans_inv_def spans_ok_def)
      have "length (hc_buf c2 @ drop chunk data) < 2 ^ 31" using fed kept 1(3) by simp
      then have "fuzz_split_loop chunk (drop chunk data) c2" by (rule 1(1) [OF False Inr p [symmetric] refl inv])
      moreover have "r = 1 \<longrightarrow> spans_ok c2" using inv kept by (auto simp: spans_inv_def)
      ultimately show ?thesis using Inr p by (subst fuzz_split_loop.simps) simp
    qed
  qed (subst fuzz_split_loop.simps, simp)
qed

text \<open>
  The request fuzzers have nothing to find: fed at once or in chunks of whatever size the first byte asks for, with a
  parse after every chunk, every input up to 2 GiB leaves the spans of a parsed request inside the buffer.
\<close>

theorem fuzz_http_in_bounds:
  assumes "length data < 2 ^ 31"
  shows "fuzz_http data \<and> fuzz_http_split data"
proof
  have init: "spans_inv http_conn_init" "hc_buf http_conn_init = []" by (simp_all add: spans_inv_def http_conn_init_def)
  show "fuzz_http data"
  proof (cases "http_conn_feed (\<lambda>_. False) http_conn_init data")
    case (Inr c)
    obtain r c2 req where p: "http_conn_try_parse c = (r, c2, req)" by (metis prod_cases3)
    have "length (hc_buf http_conn_init @ data) < 2 ^ 31" using assms init(2) by simp
    then have "spans_inv c" using feed_spans [OF init(1) _ Inr] by blast
    then show ?thesis using Inr p parse_spans [OF p] by (auto simp: fuzz_http_def spans_inv_def spans_ok_def)
  qed (simp add: fuzz_http_def)
  show "fuzz_http_split data"
    using split_loop_holds [OF init(1), of "tl data"] init(2) assms by (simp add: fuzz_http_split_def)
qed

theorem fuzz_http_in_bounds_witness:
  "fuzz_http_split (CHR 0x02 # ''GET / x'' @ [CR, LF, CR, LF] @ ''body'')"
  using fuzz_http_in_bounds [of "CHR 0x02 # ''GET / x'' @ [CR, LF, CR, LF] @ ''body''"] by simp

end
