(* ===== verification/Spec2Isabelle.thy ===== *)
theory Spec2Isabelle
  imports Store_Canonical Store_Policy Store_Version Store_Props Http_Props Conf Importer Server_Running Cli_Listing Fuzz
begin

text \<open>
  The cix-cache artifact registry: a server that keeps artifacts as content-addressed blobs with names
  pointing at them, serves them over HTTP/1.1, takes uploads, and reports on itself.

  \<^bold>\<open>Parts and how they interact.\<close> The server (\<^verbatim>\<open>src/src/main.c\<close>) is one process with an event loop. It reads requests
  through the parser of \<^verbatim>\<open>src/src/http.c\<close>, routes them, and answers from the store of \<^verbatim>\<open>src/src/store.c\<close>, with JSON
  written by \<^verbatim>\<open>src/src/json.c\<close> and the manifest of \<^verbatim>\<open>src/src/manifest.c\<close>. An upload is staged in a file of the store,
  hashed by a \<^verbatim>\<open>sha256sum\<close> child, adopted as a blob and published. The importer (\<^verbatim>\<open>src/src/importer.c\<close>) turns an
  exported directory into entries of the store, in a child process or offline. Settings come from
  \<^verbatim>\<open>src/src/conf.c\<close> and the command line. The operator's tool (\<^verbatim>\<open>src/cli/src/main.c\<close>) makes one call of the server per
  command through the client (\<^verbatim>\<open>src/client/src/httpclient.c\<close>), or streams a file to it, and prints what the JSON of the
  answer says. The fuzz targets (\<^verbatim>\<open>src/fuzz\<close>) assert what the names and the parser promise.

  \<^bold>\<open>Theories.\<close>
  \<^item> \<open>Cix_Prelude\<close>, \<open>C_Lib\<close>, \<open>Posix\<close>: C strings, comparisons, \<open>qsort\<close>, \<open>bsearch\<close>, number conversion, and a file system of
    directories, files and links in which any call may fail. An environment says which calls fail.
  \<^item> \<open>Store_Names\<close>, \<open>Store_Canonical\<close>, \<open>Store_Policy\<close>, \<open>Store_Version\<close>: artifact names, their canonical form, the signature policy
    and the version order (\<^verbatim>\<open>store.c\<close>).
  \<^item> \<open>Store_Ops\<close>, \<open>Store_Catalogue\<close>, \<open>Store_Maint\<close>, \<open>Store_Migrate\<close>: resolving, opening, publishing, unpublishing, adopting; the
    walk, the listing, garbage collection and the two migrations (\<^verbatim>\<open>store.c\<close>).
  \<^item> \<open>Store_System\<close>, \<open>Store_Props\<close>: all store operations as steps in any order, the invariant of the reachable stores, the
    abstract catalogue they refine, and the properties of the store.
  \<^item> \<open>Http\<close>, \<open>Http_Props\<close>, \<open>Conf\<close>, \<open>Json\<close>, \<open>Json_Numbers\<close>, \<open>Json_Props\<close>, \<open>Manifest\<close>, \<open>Importer\<close>: the files of those names under \<^verbatim>\<open>src/src\<close>.
  \<^item> \<open>Server_State\<close>: the globals, a connection, the log, responses and credentials; \<open>Server_Push\<close>: serving and uploads;
    \<open>Server_Listing\<close>: the listing and the counters; \<open>Server_Api\<close>: the endpoints, static files and routing; \<open>Server_Reactor\<close>:
    reading, writing, accepting, sweeping and the events of one turn; \<open>Server_Main\<close>: options, offline commands and start
    (all \<^verbatim>\<open>main.c\<close>).
  \<^item> \<open>Server_Steps\<close>, \<open>Server_System\<close>: every handler as a run of steps of the store, the invariant of a connection, and the
    reachable states of the event loop; \<open>Server_Props\<close>, \<open>Server_Uploads\<close>, \<open>Server_Serving\<close>, \<open>Server_Reports\<close>, \<open>Server_Running\<close>: the
    properties of the server.
  \<^item> \<open>C_Io\<close>: what reads and writes of a descriptor answer, the write loop of \<^verbatim>\<open>src/include/iohelpers.h\<close>, \<open>sscanf\<close> and the field widths
    of \<open>printf\<close>. \<open>Client\<close>: \<^verbatim>\<open>httpclient.c\<close>; \<open>Client_Props\<close>: client and server understand each other. \<open>Cli\<close>: the printing of
    \<^verbatim>\<open>src/cli/src/main.c\<close>; \<open>Cli_Main\<close>: its commands and options; \<open>Cli_Props\<close>, \<open>Cli_Output\<close>: what a command makes the server do, and what
    it prints. \<open>Server_Json\<close>: the JSON answers of the server as trees; \<open>Cli_Listing\<close>: the listing from the store to the
    terminal.
  \<^item> \<open>Fuzz\<close>: the fuzz targets, and that no input makes one fail.

  A C function is a function of the same name; a long one has a definition for each of its loops or
  stages. State is passed explicitly: the store is a record of its root, its file system and the counter of
  temporary names; the server is a record of its globals; a connection is a record without its descriptors, of which
  the model keeps what they refer to. The network of the client is a list of sockets, what successive attempts to
  connect meet; a command of the tool gives its exit code, what it prints where, and what it sends. A failing call is a value of a sum or option type. What the kernel
  answers to the calls of one event is part of the event.

  \<^bold>\<open>Groups of lemmas.\<close> Interfaces are locales, each interpreted on the model's definitions: \<open>path_map\<close> (the file
  system as a map), \<open>comparator\<close> (what \<open>qsort\<close> is handed), \<open>collector\<close> (a callback of the walk), \<open>canonicalizer\<close>, \<open>migration_plan\<close>,
  \<open>simulation\<close> (refinement), \<open>reply\<close> (what every responding function does to a connection). The
  outcome lemmas (\<open>publish_outcome\<close>, \<open>adopt_outcome\<close> and the like) give the branches of a store operation; the
  \<open>_handled\<close> lemmas show that a handler runs the store and keeps the connection well-formed; the reading and
  round-trip lemmas of the parsers work on their reference texts.

  \<^bold>\<open>Bounds and fuel.\<close> Buffers have the sizes of the code and \<open>snprintf\<close> cuts. The JSON parser recurses with
  \<open>parse_fuel\<close>, more than twice the length of the text, and \<open>json_parse_terminates\<close> shows that no parse runs out. Links are
  followed 40 times, as the kernel does. Integers are unbounded except where the code's width shows: the
  conversions clamp to \<open>long\<close>, the release number to \<open>int\<close>, the counter of temporary names wraps, and
  behaviour C leaves undefined is a flag: \<open>sv_undefined\<close> for the one signed overflow a request can cause (\<open>api_log\<close>),
  \<open>jw_overrun\<close> for a JSON writer that left its arrays, \<open>cr_undefined\<close> for the writes outside a buffer that an answer can cause
  in the tool (\<open>fmt_artifact_line\<close>, \<open>print_raw_json\<close>). Following the log ends with the list of sockets, each request
  taking at least one.

  \<^bold>\<open>Parameters.\<close> The hash function and the \<open>sha256sum\<close> program (assumed honest where a property needs it), the
  conversions of doubles (\<open>human_bytes\<close> apart, whose arithmetic is exact and written out), the time zone, the file the
  tool uploads, the generated \<^verbatim>\<open>version.h\<close>, the contents of configuration files and of the imported
  manifest, and whether the socket could be set up.

  \<^bold>\<open>Not modelled.\<close> What the server prints to the terminal and the journal; the shims of \<^verbatim>\<open>src/include/linux_compat.h\<close>, whose
  calls are the events; signals, among them the SIGPIPE that ends the tool when the server closes while it writes; the
  pauses of the client between attempts and of the tool between polls; a server that neither answers nor closes, for
  which the client waits without limit; the tests, the dashboard and the scripts. Changing the events a descriptor is
  registered for is taken to succeed, as in the code, which ignores the result. The clocks agree within one step.
  A child importing is one step, so that an import and a request interleave only as wholes. Memory is available to
  the JSON writer and parser. A temporary name too long for its buffer, which needs a root of nearly \<open>PATH_MAX\<close>
  bytes where \<open>CONF_PATH_MAX\<close> allows 511, leaves no path behind in the model.
\<close>

end
